(* ===== verification/Shades_Prelude.thy ===== *)
theory Shades_Prelude
  imports Main "HOL-Library.Word" "HOL-Library.Monad_Syntax"
begin

text \<open>
  Shared vocabulary of the development.

  \<^item> \<open>word_t\<close> is the 32-bit unsigned word of \<^verbatim>\<open>includes.h\<close>; a Shades pointer stored in a cell is
    such a word (a byte offset from \<^verbatim>\<open>mem_base\<close>), and \<open>NULL_WORD\<close> is 0.
  \<^item> \<open>cmp_result_t\<close> is the enumeration of \<^verbatim>\<open>cells.h\<close> that user supplied comparison
    functions return; \<open>total_cmp\<close> states what the index structures expect of such a function.
  \<^item> An operation on a persistent structure takes the allocation point \<open>ap\<close>, the number of words
    already allocated in the first generation, and returns the new structure with the new
    allocation point.  \<open>None\<close> is a failed \<^verbatim>\<open>assert\<close> or a read outside of a cell.
  \<^item> \<open>ordered_items\<close> is the locale of a comparison function that orders its items; the index
    structures prove their theorems for every such function.
\<close>

section \<open>Words, comparison results\<close>

unbundle bit_operations_syntax

type_synonym word_t = "32 word"

abbreviation NULL_WORD :: word_t where
  "NULL_WORD \<equiv> 0"

datatype cmp_result_t =
    CMP_EQUAL | CMP_LESS | CMP_GREATER | CMP_UNCOMPARABLE | CMP_ERROR | CMP_PLEASE_CONTINUE

named_theorems bind_simps
  \<open>equations and splitting rules for chains of \<open>Option.bind\<close>\<close>

lemma bind_eq_Some [bind_simps]: "(Option.bind m f = Some y) = (\<exists>x. m = Some x \<and> f x = Some y)"
  by (cases m) auto

text \<open>
  A comparison function orders its arguments when it behaves as the comparison of some key of a
  linear order: it never reports an error, less and greater are mirror images, equality is an
  equivalence it respects, and less is transitive.  Two distinct items may compare equal.
\<close>

definition total_cmp :: "('a \<Rightarrow> 'a \<Rightarrow> cmp_result_t) \<Rightarrow> bool" where
  "total_cmp cmp \<longleftrightarrow>
     (\<forall>a b. cmp a b \<in> {CMP_EQUAL, CMP_LESS, CMP_GREATER}) \<and>
     (\<forall>a. cmp a a = CMP_EQUAL) \<and>
     (\<forall>a b. cmp a b = CMP_LESS \<longleftrightarrow> cmp b a = CMP_GREATER) \<and>
     (\<forall>a b c. cmp a b = CMP_LESS \<longrightarrow> cmp b c = CMP_LESS \<longrightarrow> cmp a c = CMP_LESS) \<and>
     (\<forall>a b c. cmp a b = CMP_EQUAL \<longrightarrow> cmp a c = cmp b c)"

section \<open>The preorder of a comparison function\<close>

text \<open>\<open>cmp_le\<close> is the order in which the priority queue and the search trees keep their items.\<close>

definition cmp_le :: "('a \<Rightarrow> 'a \<Rightarrow> cmp_result_t) \<Rightarrow> 'a \<Rightarrow> 'a \<Rightarrow> bool" where
  "cmp_le cmp a b \<longleftrightarrow> cmp a b \<noteq> CMP_GREATER"

lemma total_cmpD:
  assumes "total_cmp cmp"
  shows "cmp a a = CMP_EQUAL"
    and "cmp a b = CMP_EQUAL \<or> cmp a b = CMP_LESS \<or> cmp a b = CMP_GREATER"
    and "cmp a b = CMP_LESS \<longleftrightarrow> cmp b a = CMP_GREATER"
    and "cmp a b = CMP_LESS \<Longrightarrow> cmp b c = CMP_LESS \<Longrightarrow> cmp a c = CMP_LESS"
    and "cmp a b = CMP_EQUAL \<Longrightarrow> cmp a c = cmp b c"
proof -
  note a = assms [unfolded total_cmp_def]
  show "cmp a a = CMP_EQUAL" using a by (elim conjE) (rule spec)
  show "cmp a b = CMP_EQUAL \<or> cmp a b = CMP_LESS \<or> cmp a b = CMP_GREATER"
    using conjunct1 [OF a, THEN spec, THEN spec, of a b] by simp
  show "cmp a b = CMP_LESS \<longleftrightarrow> cmp b a = CMP_GREATER"
    by (rule conjunct1 [OF conjunct2 [OF conjunct2 [OF a]], THEN spec, THEN spec])
  show "cmp a b = CMP_LESS \<Longrightarrow> cmp b c = CMP_LESS \<Longrightarrow> cmp a c = CMP_LESS"
    using a by (elim conjE) blast
  show "cmp a b = CMP_EQUAL \<Longrightarrow> cmp a c = cmp b c"
    using a by (elim conjE) blast
qed

lemma cmp_no_error: "total_cmp cmp \<Longrightarrow> cmp a b \<noteq> CMP_ERROR"
  using total_cmpD(2) [of cmp a b] by auto

lemma cmp_sym: "total_cmp cmp \<Longrightarrow> cmp a b = CMP_EQUAL \<longleftrightarrow> cmp b a = CMP_EQUAL"
  using total_cmpD(5) [of cmp a b a] total_cmpD(5) [of cmp b a b] total_cmpD(1) [of cmp] by auto

lemma cmp_le_refl: "total_cmp cmp \<Longrightarrow> cmp_le cmp a a"
  by (simp add: cmp_le_def total_cmpD(1))

lemma cmp_le_total: "total_cmp cmp \<Longrightarrow> \<not> cmp_le cmp a b \<Longrightarrow> cmp_le cmp b a"
  using total_cmpD(3) [of cmp b a] by (simp add: cmp_le_def)

lemma cmp_le_trans:
  assumes t: "total_cmp cmp" and ab: "cmp_le cmp a b" and bc: "cmp_le cmp b c"
  shows "cmp_le cmp a c"
proof (cases "cmp a b = CMP_EQUAL")
  case True
  then show ?thesis using total_cmpD(5) [OF t True] bc by (simp add: cmp_le_def)
next
  case False
  then have less: "cmp a b = CMP_LESS" using total_cmpD(2) [OF t, of a b] ab by (simp add: cmp_le_def)
  show ?thesis
  proof (cases "cmp b c = CMP_EQUAL")
    case True
    then have "cmp c a = cmp b a" using total_cmpD(5) [OF t] cmp_sym [OF t] by metis
    then have "cmp a c = CMP_LESS" using less total_cmpD(3) [OF t] by metis
    then show ?thesis by (simp add: cmp_le_def)
  next
    case False
    then have "cmp b c = CMP_LESS" using total_cmpD(2) [OF t, of b c] bc by (simp add: cmp_le_def)
    then show ?thesis using total_cmpD(4) [OF t less] by (simp add: cmp_le_def)
  qed
qed

locale ordered_items =
  fixes cmp :: "'a \<Rightarrow> 'a \<Rightarrow> cmp_result_t"
  assumes total: "total_cmp cmp"

text \<open>
  The comparison function that the tests of the index structures pass (\<^verbatim>\<open>item_cmp\<close> of
  \<^verbatim>\<open>test_priq.c\<close> and \<^verbatim>\<open>test_avl.c\<close>), on word vectors of one word: the loop over the words of
  the two vectors compares one pair.
\<close>

definition item_cmp :: "word_t \<Rightarrow> word_t \<Rightarrow> cmp_result_t" where
  "item_cmp p q = (if p < q then CMP_LESS else if p > q then CMP_GREATER else CMP_EQUAL)"

lemma total_item_cmp: "total_cmp item_cmp"
  by (auto simp: total_cmp_def item_cmp_def)

interpretation word_items: ordered_items item_cmp
  by unfold_locales (rule total_item_cmp)

section \<open>Lists of heights\<close>

text \<open>
  The heights in a list of trees increase strictly, except that the first two may be equal: the
  shape both of the tail of a logarithmic queue and of a binomial heap with a carry.
\<close>

fun skew :: "nat list \<Rightarrow> bool" where
  "skew [] = True"
| "skew (h # hs) \<longleftrightarrow> (\<forall>h' \<in> set hs. h \<le> h') \<and> sorted_wrt (<) hs"

lemma skew_sorted: "sorted_wrt (<) hs \<Longrightarrow> skew hs"
  by (cases hs) (auto simp: less_imp_le)

lemma sorted_less_bounded_length:
  assumes "sorted_wrt (<) hs" and "\<forall>h \<in> set hs. h < (n :: nat)"
  shows "length hs \<le> n"
proof -
  have "card (set hs) \<le> card {..<n}" using assms(2) by (intro card_mono) auto
  then show ?thesis using assms(1) by (simp add: distinct_card strict_sorted_iff)
qed

end
