(* ===== verification/Fifo_Interface.thy ===== *)
theory Fifo_Interface
  imports Shades_Prelude
begin

text \<open>
  The contract of a persistent first-in first-out queue, as \<^verbatim>\<open>queue.h\<close> and
  \<^verbatim>\<open>lq.h\<close> state it, and the accessors of a chain of \<open>CELL_list\<close> cells seen as a list.
  \<open>fifo_run\<close> runs a sequence of queue operations with their allocation point, \<open>fifo_spec\<close> is
  the same sequence on a plain list.  Inside the locale the two are shown to agree for every
  implementation that fulfils the contract, and the words a run allocates are bounded.
\<close>

section \<open>Chains of list cells\<close>

definition WCAR :: "'a list \<Rightarrow> 'a option" where
  "WCAR l = (case l of [] \<Rightarrow> None | x # _ \<Rightarrow> Some x)"

definition WCDR :: "'a list \<Rightarrow> 'a list option" where
  "WCDR l = (case l of [] \<Rightarrow> None | _ # xs \<Rightarrow> Some xs)"

lemma WCAR_simps [simp]: "WCAR [] = None" "WCAR (x # xs) = Some x"
  by (simp_all add: WCAR_def)

lemma WCDR_simps [simp]: "WCDR [] = None" "WCDR (x # xs) = Some xs"
  by (simp_all add: WCDR_def)

section \<open>Sequences of queue operations\<close>

datatype 'a fifo_op = Insert_last 'a | Remove_first

fun fifo_run :: "('q \<Rightarrow> 'a \<Rightarrow> nat \<Rightarrow> ('q \<times> nat) option) \<Rightarrow> ('q \<Rightarrow> nat \<Rightarrow> ('q \<times> nat) option) \<Rightarrow>
    'a fifo_op list \<Rightarrow> 'q \<Rightarrow> nat \<Rightarrow> ('q \<times> nat) option" where
  "fifo_run ins rem [] q ap = Some (q, ap)"
| "fifo_run ins rem (Insert_last x # ops) q ap =
    do { (q', ap') \<leftarrow> ins q x ap; fifo_run ins rem ops q' ap' }"
| "fifo_run ins rem (Remove_first # ops) q ap =
    do { (q', ap') \<leftarrow> rem q ap; fifo_run ins rem ops q' ap' }"

fun fifo_spec :: "'a fifo_op list \<Rightarrow> 'a list \<Rightarrow> 'a list option" where
  "fifo_spec [] xs = Some xs"
| "fifo_spec (Insert_last x # ops) xs = fifo_spec ops (xs @ [x])"
| "fifo_spec (Remove_first # ops) [] = None"
| "fifo_spec (Remove_first # ops) (x # xs) = fifo_spec ops xs"

section \<open>The contract\<close>

locale fifo =
  fixes null :: 'q
    and insert_last :: "'q \<Rightarrow> 'a \<Rightarrow> nat \<Rightarrow> ('q \<times> nat) option"
    and remove_first :: "'q \<Rightarrow> nat \<Rightarrow> ('q \<times> nat) option"
    and contents :: "'q \<Rightarrow> 'a list"
    and valid :: "'q \<Rightarrow> bool"
  assumes valid_null: "valid null"
    and contents_null: "contents null = []"
    and insert_ok: "valid q \<Longrightarrow>
      \<exists>q' ap'. insert_last q x ap = Some (q', ap') \<and> valid q' \<and> contents q' = contents q @ [x]"
    and remove_ok: "valid q \<Longrightarrow> contents q \<noteq> [] \<Longrightarrow>
      \<exists>q' ap'. remove_first q ap = Some (q', ap') \<and> valid q' \<and> contents q' = tl (contents q)"
begin

lemma run_refines_spec:
  assumes "valid q" and "fifo_spec ops (contents q) = Some xs"
  shows "\<exists>q' ap'. fifo_run insert_last remove_first ops q ap = Some (q', ap') \<and>
    valid q' \<and> contents q' = xs"
  using assms
proof (induction ops arbitrary: q ap)
  case Nil
  then show ?case by simp
next
  case (Cons x ops)
  show ?case
  proof (cases x)
    case (Insert_last y)
    obtain q' ap' where "insert_last q y ap = Some (q', ap')" "valid q'" "contents q' = contents q @ [y]"
      using insert_ok [OF Cons.prems(1)] by blast
    then show ?thesis using Cons.IH [of q' ap'] Cons.prems(2) Insert_last by simp
  next
    case Remove_first
    obtain y ys where c: "contents q = y # ys" "fifo_spec ops ys = Some xs"
      using Cons.prems(2) Remove_first by (cases "contents q") auto
    obtain q' ap' where "remove_first q ap = Some (q', ap')" "valid q'" "contents q' = ys"
      using remove_ok [OF Cons.prems(1), of ap] c by auto
    then show ?thesis using Cons.IH [of q' ap'] c Remove_first by simp
  qed
qed

lemma run_from_null:
  assumes "fifo_spec ops [] = Some xs"
  shows "\<exists>q' ap'. fifo_run insert_last remove_first ops null ap = Some (q', ap') \<and>
    valid q' \<and> contents q' = xs"
  using run_refines_spec [OF valid_null] assms by (simp add: contents_null)

end

text \<open>
  Allocation: an operation on a queue whose number of items \<open>fits\<close> allocates at most
  \<open>max_ins\<close> or \<open>max_rem\<close> words.
\<close>

locale fifo_alloc = fifo null insert_last remove_first contents valid
  for null :: 'q and insert_last :: "'q \<Rightarrow> 'a \<Rightarrow> nat \<Rightarrow> ('q \<times> nat) option"
    and remove_first contents valid +
  fixes max_ins max_rem :: nat and fits :: "nat \<Rightarrow> bool"
  assumes insert_alloc: "valid q \<Longrightarrow> fits (length (contents q)) \<Longrightarrow>
      insert_last q x ap = Some (q', ap') \<Longrightarrow> ap \<le> ap' \<and> ap' \<le> ap + max_ins"
    and remove_alloc: "valid q \<Longrightarrow> fits (length (contents q)) \<Longrightarrow> contents q \<noteq> [] \<Longrightarrow>
      remove_first q ap = Some (q', ap') \<Longrightarrow> ap \<le> ap' \<and> ap' \<le> ap + max_rem"
begin

lemma run_alloc:
  assumes "valid q" and "fifo_spec ops (contents q) = Some xs"
    and "\<And>k. k \<le> length (contents q) + length ops \<Longrightarrow> fits k"
    and "fifo_run insert_last remove_first ops q ap = Some (q', ap')"
  shows "ap' \<le> ap + length ops * max max_ins max_rem"
  using assms
proof (induction ops arbitrary: q ap)
  case Nil
  then show ?case by simp
next
  case (Cons x ops)
  show ?case
  proof (cases x)
    case (Insert_last y)
    obtain q1 ap1 where s: "insert_last q y ap = Some (q1, ap1)" "valid q1"
        "contents q1 = contents q @ [y]"
      using insert_ok [OF Cons.prems(1)] by blast
    then have "ap1 \<le> ap + max_ins" using insert_alloc [OF Cons.prems(1) _ s(1)] Cons.prems(3) by simp
    moreover have "ap' \<le> ap1 + length ops * max max_ins max_rem"
      using Cons.IH [OF s(2)] Cons.prems Insert_last s by simp
    ultimately show ?thesis by simp
  next
    case Remove_first
    obtain y ys where c: "contents q = y # ys" "fifo_spec ops ys = Some xs"
      using Cons.prems(2) Remove_first by (cases "contents q") auto
    obtain q1 ap1 where s: "remove_first q ap = Some (q1, ap1)" "valid q1" "contents q1 = ys"
      using remove_ok [OF Cons.prems(1), of ap] c by auto
    then have "ap1 \<le> ap + max_rem" using remove_alloc [OF Cons.prems(1) _ _ s(1)] Cons.prems(3) c by simp
    moreover have "ap' \<le> ap1 + length ops * max max_ins max_rem"
      using Cons.IH [OF s(2)] Cons.prems Remove_first s c by simp
    ultimately show ?thesis by simp
  qed
qed

end

end
