(* ===== verification/Queue.thy ===== *)
theory Queue
  imports Fifo_Interface
begin

text \<open>
  The real-time queue of \<^verbatim>\<open>queue.c\<close> (Hood and Melville).  A queue is \<open>NULL_PTR\<close>,
  a \<open>CELL_queue\<close> (head, tail and their lengths) or a \<open>CELL_queue_rev\<close>, which carries six more
  words while the tail is being transferred behind the head.  The fields of both cells are kept in
  the order of the C words \<^verbatim>\<open>p[1]\<close> \dots \<^verbatim>\<open>p[10]\<close>; a chain of \<open>CELL_list\<close> cells is
  a list, the car of an empty chain is an error.
\<close>

section \<open>The cells and the operations\<close>

datatype 'a queue =
    NULL_QUEUE
  | CELL_queue "'a list" "'a list" nat nat
  | CELL_queue_rev "'a list" "'a list" nat nat "'a list" "'a list" "'a list" "'a list" nat nat

definition WORDS_IN_QUEUE_HEADER :: nat where
  "WORDS_IN_QUEUE_HEADER = 5"

definition QUEUE_MAX_ALLOCATION :: nat where
  "QUEUE_MAX_ALLOCATION = 3 + WORDS_IN_QUEUE_HEADER + WORDS_IN_QUEUE_HEADER + 6 + 3 * 2 * 3"

definition QUEUE_IS_EMPTY :: "'a queue \<Rightarrow> bool" where
  "QUEUE_IS_EMPTY queue = (case queue of NULL_QUEUE \<Rightarrow> True | _ \<Rightarrow> False)"

definition QUEUE_GET_FIRST :: "'a queue \<Rightarrow> 'a option" where
  "QUEUE_GET_FIRST queue =
    (case queue of
       NULL_QUEUE \<Rightarrow> None
     | CELL_queue q1 _ _ _ \<Rightarrow> WCAR q1
     | CELL_queue_rev q1 _ _ _ _ _ _ _ _ _ \<Rightarrow> WCAR q1)"

text \<open>
  One turn of the first phase moves one item from \<^verbatim>\<open>p[5]\<close> to \<^verbatim>\<open>p[6]\<close> and one from
  \<^verbatim>\<open>p[7]\<close> to \<^verbatim>\<open>p[8]\<close>; \<open>phase1 n\<close> makes \<open>n\<close> turns, each with two \<^verbatim>\<open>WCONS\<close>.
\<close>

fun phase1 :: "nat \<Rightarrow> 'a list \<times> 'a list \<times> 'a list \<times> 'a list \<Rightarrow> nat \<Rightarrow>
    (('a list \<times> 'a list \<times> 'a list \<times> 'a list) \<times> nat) option" where
  "phase1 0 s ap = Some (s, ap)"
| "phase1 (Suc i) (q5, q6, q7, q8) ap =
    do { a \<leftarrow> WCAR q5; r \<leftarrow> WCDR q5;
         b \<leftarrow> WCAR q7; t \<leftarrow> WCDR q7;
         phase1 i (r, a # q6, t, b # q8) (ap + 6) }"

text \<open>
  One turn of the second phase moves one item of the reversed head to the new head.  \<open>phase2 n\<close>
  is the loop \<^verbatim>\<open>for (i = 0; (i < n) && (new_queue[3] > new_queue[9]); i++)\<close>.
\<close>

definition move_back :: "'a list \<times> 'a list \<times> nat \<Rightarrow> nat \<Rightarrow>
    (('a list \<times> 'a list \<times> nat) \<times> nat) option" where
  "move_back s ap =
    (case s of (q6, q8, q9) \<Rightarrow>
      do { a \<leftarrow> WCAR q6; r \<leftarrow> WCDR q6; Some ((r, a # q8, q9 + 1), ap + 3) })"

fun phase2 :: "nat \<Rightarrow> nat \<Rightarrow> 'a list \<times> 'a list \<times> nat \<Rightarrow> nat \<Rightarrow>
    (('a list \<times> 'a list \<times> nat) \<times> nat) option" where
  "phase2 0 q3 s ap = Some (s, ap)"
| "phase2 (Suc i) q3 s ap =
    (if q3 > snd (snd s) then do { (s', ap') \<leftarrow> move_back s ap; phase2 i q3 s' ap' }
     else Some (s, ap))"

text \<open>
  The common part of both operations when the transfer is under way: \<open>q1\<close> to \<open>q4\<close> already
  hold the head and tail of the new queue, \<open>q5\<close> to \<open>q10\<close> the copied words.
\<close>

definition queue_proceed :: "'a list \<Rightarrow> 'a list \<Rightarrow> nat \<Rightarrow> nat \<Rightarrow> 'a list \<Rightarrow> 'a list \<Rightarrow> 'a list \<Rightarrow>
    'a list \<Rightarrow> nat \<Rightarrow> nat \<Rightarrow> nat \<Rightarrow> ('a queue \<times> nat) option" where
  "queue_proceed q1 q2 q3 q4 q5 q6 q7 q8 q9 q10 ap =
    (if q5 = [] then
       if q7 \<noteq> [] then None
       else do {
         (s1, ap1) \<leftarrow> (if q9 = 0 \<and> q3 mod 2 = 1 then move_back (q6, q8, q9) ap
                       else Some ((q6, q8, q9), ap));
         ((q6', q8', q9'), ap2) \<leftarrow> phase2 2 q3 s1 ap1;
         (if q3 = q9' then
            Some (CELL_queue q8' q2 (q3 + q10 + 1) q4, ap2 + WORDS_IN_QUEUE_HEADER)
          else Some (CELL_queue_rev q1 q2 q3 q4 q5 q6' q7 q8' q9' q10, ap2)) }
     else do {
       ((q5', q6', q7', q8'), ap1) \<leftarrow> phase1 2 (q5, q6, q7, q8) ap;
       Some (CELL_queue_rev q1 q2 q3 q4 q5' q6' q7' q8' q9 q10, ap1) })"

definition queue_insert_last :: "'a queue \<Rightarrow> 'a \<Rightarrow> nat \<Rightarrow> ('a queue \<times> nat) option" where
  "queue_insert_last queue data ap =
    (case queue of
       NULL_QUEUE \<Rightarrow> Some (CELL_queue [data] [] 1 0, ap + WORDS_IN_QUEUE_HEADER + 3)
     | CELL_queue q1 q2 q3 q4 \<Rightarrow>
         if q3 = q4 then
           if q3 = 1 then
             do { b \<leftarrow> WCAR q2; a \<leftarrow> WCAR q1;
                  Some (CELL_queue [a, b, data] [] 3 0, ap + WORDS_IN_QUEUE_HEADER + 9) }
           else
             do { ((q5, q6, q7, q8), ap1) \<leftarrow>
                    phase1 (2 + q3 mod 2) (q1, [], q2, [data]) (ap + (WORDS_IN_QUEUE_HEADER + 6) + 3);
                  Some (CELL_queue_rev q1 [] q3 0 q5 q6 q7 q8 0 q3, ap1) }
         else Some (CELL_queue q1 (data # q2) q3 (q4 + 1), ap + WORDS_IN_QUEUE_HEADER + 3)
     | CELL_queue_rev q1 q2 q3 q4 q5 q6 q7 q8 q9 q10 \<Rightarrow>
         queue_proceed q1 (data # q2) q3 (q4 + 1) q5 q6 q7 q8 q9 q10
           (ap + (WORDS_IN_QUEUE_HEADER + 6) + 3))"

definition queue_remove_first :: "'a queue \<Rightarrow> nat \<Rightarrow> ('a queue \<times> nat) option" where
  "queue_remove_first queue ap =
    (case queue of
       NULL_QUEUE \<Rightarrow> None
     | CELL_queue q1 q2 q3 q4 \<Rightarrow>
         if q1 = [] then None
         else if q3 = q4 then
           if q3 = 1 then Some (CELL_queue q2 [] 1 0, ap + WORDS_IN_QUEUE_HEADER)
           else if q3 = 2 then
             do { d \<leftarrow> WCAR q2; q2' \<leftarrow> WCDR q2; c \<leftarrow> WCAR q2';
                  q1' \<leftarrow> WCDR q1; b \<leftarrow> WCAR q1';
                  Some (CELL_queue [b, c, d] [] 3 0, ap + WORDS_IN_QUEUE_HEADER + 9) }
           else
             do { q1' \<leftarrow> WCDR q1; d \<leftarrow> WCAR q2; q2' \<leftarrow> WCDR q2;
                  ((q5, q6, q7, q8), ap1) \<leftarrow>
                    phase1 (2 + (q3 - 1) mod 2) (q1', [], q2', [d]) (ap + (WORDS_IN_QUEUE_HEADER + 6) + 3);
                  Some (CELL_queue_rev q1' [] (q3 - 1) 0 q5 q6 q7 q8 0 (q3 - 1), ap1) }
         else if q3 = 1 \<and> q4 = 0 then Some (NULL_QUEUE, ap)
         else do { q1' \<leftarrow> WCDR q1;
                   Some (CELL_queue q1' q2 (q3 - 1) q4, ap + WORDS_IN_QUEUE_HEADER) }
     | CELL_queue_rev q1 q2 q3 q4 q5 q6 q7 q8 q9 q10 \<Rightarrow>
         do { q1' \<leftarrow> WCDR q1;
              queue_proceed q1' q2 (q3 - 1) q4 q5 q6 q7 q8 q9 q10 (ap + (WORDS_IN_QUEUE_HEADER + 6)) })"

section \<open>Contents and validity of a queue\<close>

text \<open>
  \<open>queue_contents\<close> lists the items, first item first.  \<open>queue_valid\<close> is the representation
  invariant.  While a transfer is under way, \<open>rev q6 @ take q9 q8 @ q5\<close> is the head with which
  the transfer started, \<open>q1\<close> is a suffix of it, and the last conjunct says that enough of the
  transfer is done for the number of operations performed since it started.
\<close>

fun queue_contents :: "'a queue \<Rightarrow> 'a list" where
  "queue_contents NULL_QUEUE = []"
| "queue_contents (CELL_queue q1 q2 q3 q4) = q1 @ rev q2"
| "queue_contents (CELL_queue_rev q1 q2 q3 q4 q5 q6 q7 q8 q9 q10) =
    q1 @ drop q9 (rev q7 @ q8) @ rev q2"

text \<open>
  The head that the transfer started with: what the first phase has reversed, what the second
  phase has already moved back, and what is not yet reversed.
\<close>

fun queue_valid :: "'a queue \<Rightarrow> bool" where
  "queue_valid NULL_QUEUE \<longleftrightarrow> True"
| "queue_valid (CELL_queue q1 q2 q3 q4) \<longleftrightarrow>
    q3 = length q1 \<and> q4 = length q2 \<and> 1 \<le> q3 \<and> q4 \<le> q3"
| "queue_valid (CELL_queue_rev q1 q2 q3 q4 q5 q6 q7 q8 q9 q10) \<longleftrightarrow>
    q3 = length q1 \<and> q4 = length q2 \<and>
    length q5 = length q7 \<and> even (length q5) \<and>
    length q7 + length q8 = q10 + 1 + q9 \<and>
    length q6 + q9 + length q5 = q10 \<and>
    q3 \<le> q10 \<and> drop (q10 - q3) (rev q6 @ take q9 q8 @ q5) = q1 \<and>
    (q9 = 0 \<or> q5 = [] \<and> q9 < q3) \<and>
    2 * ((q10 - q3) + q4) + length q5 + 2 + q10 mod 2 \<le> q10 + q9"

lemma phase1_eq:
  assumes "i \<le> length q5" and "i \<le> length q7"
  shows "phase1 i (q5, q6, q7, q8) ap =
    Some ((drop i q5, rev (take i q5) @ q6, drop i q7, rev (take i q7) @ q8), ap + 6 * i)"
  using assms
proof (induction i arbitrary: q5 q6 q7 q8 ap)
  case 0
  then show ?case by simp
next
  case (Suc i)
  obtain a r b t where "q5 = a # r" "q7 = b # t"
    using Suc.prems by (cases q5; cases q7) auto
  then show ?case using Suc.IH [of r t "a # q6" "b # q8" "ap + 6"] Suc.prems by simp
qed

lemma phase2_eq:
  assumes "q9 \<le> q3" and "q3 - q9 \<le> length q6"
  shows "phase2 i q3 (q6, q8, q9) ap =
    (let j = min i (q3 - q9)
     in Some ((drop j q6, rev (take j q6) @ q8, q9 + j), ap + 3 * j))"
  using assms
proof (induction i arbitrary: q6 q8 q9 ap)
  case 0
  then show ?case by simp
next
  case (Suc i)
  show ?case
  proof (cases "q9 < q3")
    case True
    then obtain a r where "q6 = a # r" using Suc.prems by (cases q6) auto
    moreover have "min (Suc i) (q3 - q9) = Suc (min i (q3 - Suc q9))" using True by auto
    ultimately show ?thesis
      using Suc.IH [of "Suc q9" r "a # q8" "ap + 3"] Suc.prems True
      by (simp add: move_back_def Let_def)
  next
    case False
    then show ?thesis using Suc.prems by simp
  qed
qed

declare phase1.simps [simp del] phase2.simps [simp del]

text \<open>A turn of the second phase as a whole: how many items it moves.\<close>

definition moves :: "nat \<Rightarrow> nat \<Rightarrow> nat" where
  "moves q3 q9 = (if q9 = 0 \<and> q3 mod 2 = 1 then 1 + min 2 (q3 - 1) else min 2 (q3 - q9))"

lemma moves_le: "moves q3 q9 \<le> q3 - q9" "moves q3 q9 \<le> 3"
  by (auto simp: moves_def)

lemma queue_proceed_phase2:
  assumes "q9 \<le> q3" and "q3 - q9 \<le> length q6"
  shows "queue_proceed q1 q2 q3 q4 [] q6 [] q8 q9 q10 ap =
    (let j = moves q3 q9; q8' = rev (take j q6) @ q8; ap' = ap + 3 * j
     in if q3 = q9 + j then Some (CELL_queue q8' q2 (q3 + q10 + 1) q4, ap' + WORDS_IN_QUEUE_HEADER)
        else Some (CELL_queue_rev q1 q2 q3 q4 [] (drop j q6) [] q8' (q9 + j) q10, ap'))"
proof (cases "q9 = 0 \<and> q3 mod 2 = 1")
  case True
  then obtain a r m where "q6 = a # r" "q3 = Suc m" using assms by (cases q6; cases q3) auto
  with True assms show ?thesis
    by (auto simp: queue_proceed_def move_back_def phase2_eq moves_def Let_def)
next
  case False
  show ?thesis
    unfolding queue_proceed_def moves_def if_not_P [OF False]
    using assms by (simp add: phase2_eq Let_def)
qed

lemma queue_proceed_phase1:
  assumes "2 \<le> length q5" and "2 \<le> length q7"
  shows "queue_proceed q1 q2 q3 q4 q5 q6 q7 q8 q9 q10 ap =
    Some (CELL_queue_rev q1 q2 q3 q4 (drop 2 q5) (rev (take 2 q5) @ q6)
      (drop 2 q7) (rev (take 2 q7) @ q8) q9 q10, ap + 12)"
  using assms by (auto simp: queue_proceed_def phase1_eq)

text \<open>
  A transfer step as both operations reach it: the head or the tail has just changed by one item,
  so the progress bound is off by two and the second phase may already have moved every item.
\<close>

fun queue_stepping :: "'a list \<Rightarrow> 'a list \<Rightarrow> nat \<Rightarrow> nat \<Rightarrow> 'a list \<Rightarrow> 'a list \<Rightarrow> 'a list \<Rightarrow>
    'a list \<Rightarrow> nat \<Rightarrow> nat \<Rightarrow> bool" where
  "queue_stepping q1 q2 q3 q4 q5 q6 q7 q8 q9 q10 \<longleftrightarrow>
    q3 = length q1 \<and> q4 = length q2 \<and>
    length q5 = length q7 \<and> even (length q5) \<and>
    length q7 + length q8 = q10 + 1 + q9 \<and>
    length q6 + q9 + length q5 = q10 \<and>
    q3 \<le> q10 \<and> drop (q10 - q3) (rev q6 @ take q9 q8 @ q5) = q1 \<and>
    (q9 = 0 \<or> q5 = [] \<and> q9 \<le> q3) \<and>
    2 * ((q10 - q3) + q4) + length q5 + q10 mod 2 \<le> q10 + q9"

lemma queue_proceed_ok1:
  assumes st: "queue_stepping q1 q2 q3 q4 q5 q6 q7 q8 q9 q10" and ne: "q5 \<noteq> []"
  shows "\<exists>q' ap'. queue_proceed q1 q2 q3 q4 q5 q6 q7 q8 q9 q10 ap = Some (q', ap') \<and> queue_valid q' \<and>
    queue_contents q' = q1 @ drop q9 (rev q7 @ q8) @ rev q2 \<and> ap \<le> ap' \<and> ap' \<le> ap + 14"
proof -
  obtain a b q5' where 5: "q5 = a # b # q5'"
    using st ne by (cases q5 rule: remdups_adj.cases) auto
  obtain c d q7' where 7: "q7 = c # d # q7'"
    using st 5 by (cases q7 rule: remdups_adj.cases) auto
  have "q9 = 0" using st ne by auto
  with st show ?thesis
    by (auto simp: queue_proceed_phase1 5 7)
qed


lemma queue_proceed_ok2:
  assumes st: "queue_stepping q1 q2 q3 q4 [] q6 [] q8 q9 q10"
  shows "\<exists>q' ap'. queue_proceed q1 q2 q3 q4 [] q6 [] q8 q9 q10 ap = Some (q', ap') \<and> queue_valid q' \<and>
    queue_contents q' = q1 @ drop q9 q8 @ rev q2 \<and> ap \<le> ap' \<and> ap' \<le> ap + 14"
proof -
  define j where "j = moves q3 q9"
  have le: "q9 \<le> q3" "q3 - q9 \<le> length q6" and j: "j \<le> q3 - q9" "j \<le> 3"
    using st moves_le [of q3 q9] by (auto simp: j_def)
  let ?q8 = "rev (take j q6) @ q8"
  have split: "rev q6 @ take q9 q8 = rev (drop j q6) @ take (q9 + j) ?q8"
    using st j le by (simp add: rev_drop rev_take take_append)
  have eq: "queue_proceed q1 q2 q3 q4 [] q6 [] q8 q9 q10 ap =
    (if q3 = q9 + j then Some (CELL_queue ?q8 q2 (q3 + q10 + 1) q4, ap + 3 * j + 5)
     else Some (CELL_queue_rev q1 q2 q3 q4 [] (drop j q6) [] ?q8 (q9 + j) q10, ap + 3 * j))"
    unfolding queue_proceed_phase2 [OF le] j_def by (simp add: Let_def WORDS_IN_QUEUE_HEADER_def)
  have head: "q1 = drop (q10 - q3) (rev (drop j q6) @ take (q9 + j) ?q8)"
    using st unfolding split [symmetric] by auto
  show ?thesis
  proof (cases "q3 = q9 + j")
    case True
    have "q10 - q3 = length (rev (drop j q6))" using st le True by auto
    then have "q1 = take q3 ?q8" using head by (simp only: append_eq_conv_conj True) simp
    moreover have "drop q9 q8 = drop q3 ?q8" using True le by simp
    ultimately have "q1 @ drop q9 q8 = ?q8" by (simp only: append_take_drop_id)
    moreover have "length q2 \<le> q3 + q10 + 1" "q3 + q10 + 1 = length ?q8" "3 * j + 5 \<le> 14"
      using st le j True by auto
    ultimately show ?thesis using st unfolding eq if_P [OF True]
      by (intro exI conjI) auto
  next
    case False
    have "2 \<le> j" using False j le by (auto simp: j_def moves_def split: if_splits)
    then have "queue_valid (CELL_queue_rev q1 q2 q3 q4 [] (drop j q6) [] ?q8 (q9 + j) q10)"
      using False st le j head [symmetric] by auto
    moreover have "drop (q9 + j) ?q8 = drop q9 q8" using j le by simp
    ultimately show ?thesis using j unfolding eq if_not_P [OF False]
      by (intro exI conjI) auto
  qed
qed

lemma queue_proceed_ok:
  assumes st: "queue_stepping q1 q2 q3 q4 q5 q6 q7 q8 q9 q10"
  shows "\<exists>q' ap'. queue_proceed q1 q2 q3 q4 q5 q6 q7 q8 q9 q10 ap = Some (q', ap') \<and> queue_valid q' \<and>
    queue_contents q' = q1 @ drop q9 (rev q7 @ q8) @ rev q2 \<and> ap \<le> ap' \<and> ap' \<le> ap + 14"
proof (cases "q5 = []")
  case True
  then have "q7 = []" using st by simp
  with st True have "queue_stepping q1 q2 q3 q4 [] q6 [] q8 q9 q10" by (simp only:)
  from queue_proceed_ok2 [OF this] \<open>q7 = []\<close> True show ?thesis by simp
next
  case False
  then show ?thesis using queue_proceed_ok1 [OF st] by simp
qed

lemma queue_start_ok:
  assumes "length q1 = n" and "length q2 = n" and "2 \<le> n"
  shows "\<exists>q5 q6 q7 q8 ap'. phase1 (2 + n mod 2) (q1, [], q2, [x]) ap = Some ((q5, q6, q7, q8), ap') \<and>
    queue_valid (CELL_queue_rev q1 [] n 0 q5 q6 q7 q8 0 n) \<and>
    queue_contents (CELL_queue_rev q1 [] n 0 q5 q6 q7 q8 0 n) = q1 @ rev q2 @ [x] \<and>
    ap \<le> ap' \<and> ap' \<le> ap + 18"
proof -
  let ?i = "2 + n mod 2"
  have i: "?i \<le> n" "even (n - ?i)" "?i \<le> 3" using assms(3) by presburger+
  have "rev (drop ?i q2) @ rev (take ?i q2) = rev q2" by (simp flip: rev_append)
  then show ?thesis using assms i by (auto simp: phase1_eq)
qed

lemma queue_insert_last_ok:
  assumes "queue_valid q"
  shows "\<exists>q' ap'. queue_insert_last q x ap = Some (q', ap') \<and> queue_valid q' \<and>
    queue_contents q' = queue_contents q @ [x] \<and> ap \<le> ap' \<and> ap' \<le> ap + QUEUE_MAX_ALLOCATION"
proof (cases q)
  case NULL_QUEUE
  then show ?thesis
    by (simp add: queue_insert_last_def WORDS_IN_QUEUE_HEADER_def QUEUE_MAX_ALLOCATION_def)
next
  case (CELL_queue q1 q2 q3 q4)
  consider (one) "q3 = q4" "q3 = 1" | (start) "q3 = q4" "2 \<le> q3" | (plain) "q4 < q3"
    using assms CELL_queue by fastforce
  then show ?thesis
  proof cases
    case one
    then have "length q1 = Suc 0" "length q2 = Suc 0" using assms CELL_queue by auto
    then obtain a b where "q1 = [a]" "q2 = [b]" by (auto simp: length_Suc_conv)
    then show ?thesis using one CELL_queue
      by (simp add: queue_insert_last_def WORDS_IN_QUEUE_HEADER_def QUEUE_MAX_ALLOCATION_def)
  next
    case start
    then obtain q5 q6 q7 q8 ap' where p:
      "phase1 (2 + q3 mod 2) (q1, [], q2, [x]) (14 + ap) = Some ((q5, q6, q7, q8), ap')"
      "queue_valid (CELL_queue_rev q1 [] q3 0 q5 q6 q7 q8 0 q3)"
      "queue_contents (CELL_queue_rev q1 [] q3 0 q5 q6 q7 q8 0 q3) = q1 @ rev q2 @ [x]"
      "14 + ap \<le> ap'" "ap' \<le> 14 + ap + 18"
      using queue_start_ok [of q1 q3 q2 x "14 + ap"] assms CELL_queue by auto
    then have "queue_insert_last q x ap = Some (CELL_queue_rev q1 [] q3 0 q5 q6 q7 q8 0 q3, ap')"
      using start CELL_queue by (simp add: queue_insert_last_def WORDS_IN_QUEUE_HEADER_def)
    with p(2-) CELL_queue show ?thesis
      by (simp add: WORDS_IN_QUEUE_HEADER_def QUEUE_MAX_ALLOCATION_def del: queue_valid.simps)
  next
    case plain
    then show ?thesis using assms CELL_queue
      by (simp add: queue_insert_last_def WORDS_IN_QUEUE_HEADER_def QUEUE_MAX_ALLOCATION_def)
  qed
next
  case (CELL_queue_rev q1 q2 q3 q4 q5 q6 q7 q8 q9 q10)
  have "queue_stepping q1 (x # q2) q3 (q4 + 1) q5 q6 q7 q8 q9 q10"
    using assms CELL_queue_rev by auto
  then obtain q' ap' where
    "queue_proceed q1 (x # q2) q3 (q4 + 1) q5 q6 q7 q8 q9 q10 (14 + ap) = Some (q', ap')" "queue_valid q'"
    "queue_contents q' = q1 @ drop q9 (rev q7 @ q8) @ rev (x # q2)" "14 + ap \<le> ap'" "ap' \<le> 14 + ap + 14"
    using queue_proceed_ok by blast
  then show ?thesis using CELL_queue_rev
    by (simp add: queue_insert_last_def WORDS_IN_QUEUE_HEADER_def QUEUE_MAX_ALLOCATION_def)
qed

lemma queue_remove_rev:
  assumes v: "queue_valid (CELL_queue_rev q1 q2 q3 q4 q5 q6 q7 q8 q9 q10)"
  obtains a q1' where "q1 = a # q1'" "queue_stepping q1' q2 (q3 - 1) q4 q5 q6 q7 q8 q9 q10"
proof -
  let ?H = "rev q6 @ take q9 q8 @ q5"
  have "0 < q3" using v by auto
  then obtain a q1' where a: "q1 = a # q1'" using v by (cases q1) auto
  have "q10 - (q3 - 1) = Suc (q10 - q3)" using v \<open>0 < q3\<close> by auto
  then have "drop (q10 - (q3 - 1)) ?H = tl (drop (q10 - q3) ?H)"
    by (simp only: drop_Suc tl_drop)
  also have "drop (q10 - q3) ?H = q1" using v unfolding queue_valid.simps by blast
  also have "tl q1 = q1'" using a by simp
  finally have "queue_stepping q1' q2 (q3 - 1) q4 q5 q6 q7 q8 q9 q10"
    using v a unfolding queue_stepping.simps queue_valid.simps by (intro conjI) auto
  with a show ?thesis by (rule that)
qed

lemma queue_remove_first_ok:
  assumes "queue_valid q" and "queue_contents q \<noteq> []"
  shows "\<exists>q' ap'. queue_remove_first q ap = Some (q', ap') \<and> queue_valid q' \<and>
    queue_contents q' = tl (queue_contents q) \<and> ap \<le> ap' \<and> ap' \<le> ap + QUEUE_MAX_ALLOCATION"
proof (cases q)
  case NULL_QUEUE
  then show ?thesis using assms by simp
next
  case (CELL_queue q1 q2 q3 q4)
  consider (one) "q3 = q4" "q3 = 1" | (two) "q3 = q4" "q3 = 2" | (start) "q3 = q4" "3 \<le> q3"
    | (last) "q3 = 1" "q4 = 0" | (plain) "q4 < q3" "2 \<le> q3"
    using assms CELL_queue by fastforce
  then show ?thesis
  proof cases
    case one
    then have "length q1 = Suc 0" "length q2 = Suc 0" using assms CELL_queue by auto
    then obtain a b where "q1 = [a]" "q2 = [b]" by (auto simp: length_Suc_conv)
    then show ?thesis using one CELL_queue
      by (simp add: queue_remove_first_def WORDS_IN_QUEUE_HEADER_def QUEUE_MAX_ALLOCATION_def)
  next
    case two
    then have "length q1 = Suc (Suc 0)" "length q2 = Suc (Suc 0)" using assms CELL_queue by auto
    then obtain a b c d where "q1 = [a, b]" "q2 = [d, c]" by (auto simp: length_Suc_conv)
    then show ?thesis using two CELL_queue
      by (simp add: queue_remove_first_def WORDS_IN_QUEUE_HEADER_def QUEUE_MAX_ALLOCATION_def)
  next
    case start
    then obtain a q1' d q2' where "q1 = a # q1'" "q2 = d # q2'"
      using assms CELL_queue by (cases q1; cases q2) auto
    moreover from this obtain q5 q6 q7 q8 ap' where p:
      "phase1 (2 + (q3 - 1) mod 2) (q1', [], q2', [d]) (14 + ap) = Some ((q5, q6, q7, q8), ap')"
      "queue_valid (CELL_queue_rev q1' [] (q3 - 1) 0 q5 q6 q7 q8 0 (q3 - 1))"
      "queue_contents (CELL_queue_rev q1' [] (q3 - 1) 0 q5 q6 q7 q8 0 (q3 - 1)) = q1' @ rev q2' @ [d]"
      "14 + ap \<le> ap'" "ap' \<le> 14 + ap + 18"
      using queue_start_ok [of q1' "q3 - 1" q2' d "14 + ap"] assms CELL_queue start by auto
    ultimately have "queue_remove_first q ap =
        Some (CELL_queue_rev q1' [] (q3 - 1) 0 q5 q6 q7 q8 0 (q3 - 1), ap')"
      using start CELL_queue by (simp add: queue_remove_first_def WORDS_IN_QUEUE_HEADER_def)
    with p(2-) CELL_queue \<open>q1 = a # q1'\<close> \<open>q2 = d # q2'\<close> show ?thesis
      by (simp add: WORDS_IN_QUEUE_HEADER_def QUEUE_MAX_ALLOCATION_def del: queue_valid.simps)
  next
    case last
    then have "length q1 = Suc 0" "q2 = []" using assms CELL_queue by auto
    then show ?thesis using last CELL_queue
      by (auto simp: queue_remove_first_def length_Suc_conv)
  next
    case plain
    then obtain a q1' where "q1 = a # q1'" using assms CELL_queue by (cases q1) auto
    then show ?thesis using assms CELL_queue plain
      by (auto simp: queue_remove_first_def WORDS_IN_QUEUE_HEADER_def QUEUE_MAX_ALLOCATION_def)
  qed
next
  case (CELL_queue_rev q1 q2 q3 q4 q5 q6 q7 q8 q9 q10)
  obtain a q1' where a: "q1 = a # q1'" and st: "queue_stepping q1' q2 (q3 - 1) q4 q5 q6 q7 q8 q9 q10"
    using queue_remove_rev assms(1) unfolding CELL_queue_rev by blast
  then obtain q' ap' where
    "queue_proceed q1' q2 (q3 - 1) q4 q5 q6 q7 q8 q9 q10 (ap + 11) = Some (q', ap')" "queue_valid q'"
    "queue_contents q' = q1' @ drop q9 (rev q7 @ q8) @ rev q2" "ap + 11 \<le> ap'" "ap' \<le> ap + 11 + 14"
    using queue_proceed_ok by blast
  then show ?thesis using a CELL_queue_rev
    by (simp add: queue_remove_first_def WORDS_IN_QUEUE_HEADER_def QUEUE_MAX_ALLOCATION_def)
qed

lemma queue_get_first_ok:
  assumes "queue_valid q"
  shows "QUEUE_GET_FIRST q = WCAR (queue_contents q)" "QUEUE_IS_EMPTY q \<longleftrightarrow> queue_contents q = []"
proof -
  have "QUEUE_GET_FIRST q = WCAR (queue_contents q) \<and> (QUEUE_IS_EMPTY q \<longleftrightarrow> queue_contents q = [])"
  proof (cases q)
    case NULL_QUEUE
    then show ?thesis by (simp add: QUEUE_GET_FIRST_def QUEUE_IS_EMPTY_def)
  next
    case (CELL_queue q1 q2 q3 q4)
    then obtain a r where "q1 = a # r" using assms by (cases q1) auto
    then show ?thesis using CELL_queue by (simp add: QUEUE_GET_FIRST_def QUEUE_IS_EMPTY_def)
  next
    case (CELL_queue_rev q1 q2 q3 q4 q5 q6 q7 q8 q9 q10)
    then obtain a r where "q1 = a # r" using queue_remove_rev assms by blast
    then show ?thesis using CELL_queue_rev by (simp add: QUEUE_GET_FIRST_def QUEUE_IS_EMPTY_def)
  qed
  then show "QUEUE_GET_FIRST q = WCAR (queue_contents q)" "QUEUE_IS_EMPTY q \<longleftrightarrow> queue_contents q = []"
    by simp_all
qed

section \<open>The queue fulfils the contract\<close>

interpretation rtq: fifo_alloc NULL_QUEUE queue_insert_last queue_remove_first queue_contents
  queue_valid QUEUE_MAX_ALLOCATION QUEUE_MAX_ALLOCATION "\<lambda>_. True"
proof unfold_locales
  fix q :: "'a queue" and x ap q' ap'
  assume v: "queue_valid q"
  show "\<exists>q' ap'. queue_insert_last q x ap = Some (q', ap') \<and> queue_valid q' \<and>
      queue_contents q' = queue_contents q @ [x]"
    using queue_insert_last_ok [OF v] by blast
  show "ap \<le> ap' \<and> ap' \<le> ap + QUEUE_MAX_ALLOCATION"
    if "queue_insert_last q x ap = Some (q', ap')"
    using queue_insert_last_ok [OF v, of x ap] that by auto
  show "\<exists>q' ap'. queue_remove_first q ap = Some (q', ap') \<and> queue_valid q' \<and>
      queue_contents q' = tl (queue_contents q)" if "queue_contents q \<noteq> []"
    using queue_remove_first_ok [OF v that] by blast
  show "ap \<le> ap' \<and> ap' \<le> ap + QUEUE_MAX_ALLOCATION"
    if "queue_contents q \<noteq> []" and "queue_remove_first q ap = Some (q', ap')"
    using queue_remove_first_ok [OF v that(1), of ap] that(2) by auto
qed simp_all

text \<open>
  C1. Whatever sequence of \<^verbatim>\<open>queue_insert_last\<close> and \<^verbatim>\<open>queue_remove_first\<close> is run on
  an empty real-time queue, as long as no item is removed from an empty queue: no assertion fails,
  the queue holds exactly the items of the first-in first-out specification, \<^verbatim>\<open>QUEUE_GET_FIRST\<close>
  and \<^verbatim>\<open>QUEUE_IS_EMPTY\<close> answer accordingly, and the sequence allocates in all at most
  \<^verbatim>\<open>QUEUE_MAX_ALLOCATION\<close> words times its length (\<open>queue_step_bounded\<close> bounds each operation).
\<close>

theorem queue_run_correct:
  assumes "fifo_spec ops [] = Some xs"
  shows "\<exists>q ap'. fifo_run queue_insert_last queue_remove_first ops NULL_QUEUE ap = Some (q, ap') \<and>
    queue_contents q = xs \<and> QUEUE_GET_FIRST q = WCAR xs \<and> QUEUE_IS_EMPTY q = (xs = []) \<and>
    ap' \<le> ap + length ops * QUEUE_MAX_ALLOCATION"
proof -
  obtain q ap' where q: "fifo_run queue_insert_last queue_remove_first ops NULL_QUEUE ap = Some (q, ap')"
      "queue_valid q" "queue_contents q = xs"
    using rtq.run_from_null [OF assms] by blast
  moreover have "ap' \<le> ap + length ops * QUEUE_MAX_ALLOCATION"
    using rtq.run_alloc [OF rtq.valid_null _ _ q(1)] assms by simp
  ultimately show ?thesis using queue_get_first_ok [of q] by auto
qed

theorem queue_run_correct_witness:
  "\<exists>q ap'. fifo_run queue_insert_last queue_remove_first
      (map Insert_last [1 ..< 9] @ [Remove_first, Remove_first, Insert_last 9]) NULL_QUEUE 0
      = Some (q, ap') \<and>
    queue_contents q = [3, 4, 5, 6, 7, 8, 9 :: nat] \<and> QUEUE_GET_FIRST q = Some 3 \<and>
    \<not> QUEUE_IS_EMPTY q \<and> ap' \<le> 11 * QUEUE_MAX_ALLOCATION"
proof -
  have "fifo_spec (map Insert_last [1 ..< 9] @ [Remove_first, Remove_first, Insert_last 9]) [] =
      Some [3, 4, 5, 6, 7, 8, 9 :: nat]"
    by (simp add: upt_conv_Cons)
  from queue_run_correct [OF this, of 0] show ?thesis by simp
qed

text \<open>
  C2. One step of the transfer is bounded in time as in space: on a valid queue both operations
  return a valid queue with the right contents and allocate at most 37 words, also in the steps
  that start or finish a transfer, so a queue with any number of items is never reversed at once.
\<close>

theorem queue_step_bounded:
  assumes "queue_valid q"
  shows "(\<exists>q' ap'. queue_insert_last q x ap = Some (q', ap') \<and> queue_valid q' \<and>
      queue_contents q' = queue_contents q @ [x] \<and> ap \<le> ap' \<and> ap' \<le> ap + 37) \<and>
    (queue_contents q \<noteq> [] \<longrightarrow> (\<exists>q' ap'. queue_remove_first q ap = Some (q', ap') \<and> queue_valid q' \<and>
      queue_contents q' = tl (queue_contents q) \<and> ap \<le> ap' \<and> ap' \<le> ap + 37))"
  using queue_insert_last_ok [OF assms, of x ap] queue_remove_first_ok [OF assms, of ap]
  by (simp add: QUEUE_MAX_ALLOCATION_def WORDS_IN_QUEUE_HEADER_def)

theorem queue_step_bounded_witness:
  "\<exists>q' ap'. queue_remove_first (CELL_queue [1, 2, 3] [6, 5, 4 :: nat] 3 3) 0 = Some (q', ap') \<and>
    queue_valid q' \<and> queue_contents q' = [2, 3, 4, 5, 6] \<and> 0 \<le> ap' \<and> ap' \<le> 37"
  using queue_step_bounded [of "CELL_queue [1, 2, 3] [6, 5, 4 :: nat] 3 3" 0 0] by simp

end
