(* ===== verification/Lq.thy ===== *)
theory Lq
  imports Fifo_Interface
begin

text \<open>
  The logarithmic queue of \<^verbatim>\<open>lq.c\<close>.  The four item cells differ in whether they have a
  successor in their list (\<^verbatim>\<open>p[2]\<close> of \<open>item01\<close> and \<open>item11\<close>) and a right son
  (\<^verbatim>\<open>p[2]\<close> of \<open>item10\<close>, \<^verbatim>\<open>p[3]\<close> of \<open>item11\<close>); the left son is the successor of
  the right son.  The tail \<^verbatim>\<open>queue[2]\<close> is a list of perfect trees, newest item first, the head
  \<^verbatim>\<open>queue[1]\<close> the same with the oldest tree first.  The operations are translated switch by
  switch; \<open>lq_reverse\<close> and \<open>lq_unpack\<close> are the loops behind the two labels.
\<close>

section \<open>The cells and the operations\<close>

datatype 'a lq_item =
    CELL_lq_item00 'a
  | CELL_lq_item01 'a "'a lq_item"
  | CELL_lq_item10 nat 'a "'a lq_item"
  | CELL_lq_item11 nat 'a "'a lq_item" "'a lq_item"

datatype 'a lq =
    NULL_LQ
  | CELL_lq_entry_point "'a lq_item option" "'a lq_item option"

definition LQ_INSERT_MAX_ALLOCATION :: nat where
  "LQ_INSERT_MAX_ALLOCATION = 14"

definition LQ_REMOVE_MAX_ALLOCATION :: nat where
  "LQ_REMOVE_MAX_ALLOCATION = 3 + 3 * 31 * 4"

fun lq_HEIGHT :: "'a lq_item \<Rightarrow> nat" where
  "lq_HEIGHT (CELL_lq_item00 _) = 0"
| "lq_HEIGHT (CELL_lq_item01 _ _) = 0"
| "lq_HEIGHT (CELL_lq_item10 h _ _) = h"
| "lq_HEIGHT (CELL_lq_item11 h _ _ _) = h"

fun lq_DATA :: "'a lq_item \<Rightarrow> 'a" where
  "lq_DATA (CELL_lq_item00 d) = d"
| "lq_DATA (CELL_lq_item01 d _) = d"
| "lq_DATA (CELL_lq_item10 _ d _) = d"
| "lq_DATA (CELL_lq_item11 _ d _ _) = d"

fun lq_rightmost :: "'a lq_item \<Rightarrow> 'a" where
  "lq_rightmost (CELL_lq_item10 _ _ son) = lq_rightmost son"
| "lq_rightmost (CELL_lq_item11 _ _ _ son) = lq_rightmost son"
| "lq_rightmost (CELL_lq_item00 d) = d"
| "lq_rightmost (CELL_lq_item01 d _) = d"

definition lq_get_first :: "'a lq \<Rightarrow> 'a option" where
  "lq_get_first queue =
    (case queue of
       NULL_LQ \<Rightarrow> None
     | CELL_lq_entry_point q1 q2 \<Rightarrow> (case q2 of None \<Rightarrow> None | Some p \<Rightarrow> Some (lq_rightmost p)))"

text \<open>
  \<open>lq_new_item\<close> is the switch on the first tree of a non-empty tail: the new item is put in front
  of the tail or becomes the root over the first two trees.
\<close>

definition lq_new_item :: "'a lq_item \<Rightarrow> 'a \<Rightarrow> nat \<Rightarrow> ('a lq_item \<times> nat) option" where
  "lq_new_item tail data ap =
    (case tail of
       CELL_lq_item00 _ \<Rightarrow> Some (CELL_lq_item01 data tail, ap + 3)
     | CELL_lq_item10 _ _ _ \<Rightarrow> Some (CELL_lq_item01 data tail, ap + 3)
     | CELL_lq_item01 first_data second_tree \<Rightarrow>
         (case second_tree of
            CELL_lq_item10 _ _ _ \<Rightarrow> Some (CELL_lq_item01 data tail, ap + 3)
          | CELL_lq_item11 _ _ _ _ \<Rightarrow> Some (CELL_lq_item01 data tail, ap + 3)
          | CELL_lq_item00 second_data \<Rightarrow>
              (let left_son = CELL_lq_item00 first_data;
                   right_son = CELL_lq_item01 second_data left_son
               in Some (CELL_lq_item10 1 data right_son, ap + 3 + 2 + 3))
          | CELL_lq_item01 second_data second_next \<Rightarrow>
              (let left_son = CELL_lq_item00 first_data;
                   right_son = CELL_lq_item01 second_data left_son
               in Some (CELL_lq_item11 1 data second_next right_son, ap + 4 + 2 + 3)))
     | CELL_lq_item11 first_height first_data second_tree first_son \<Rightarrow>
         if lq_HEIGHT first_son + 1 \<noteq> first_height then None
         else (case second_tree of
            CELL_lq_item10 second_height second_data second_son \<Rightarrow>
              if second_height < first_height then None
              else if first_height \<noteq> second_height then Some (CELL_lq_item01 data tail, ap + 3)
              else
                (let left_son = CELL_lq_item10 first_height first_data first_son;
                     right_son = CELL_lq_item11 second_height second_data left_son second_son
                 in Some (CELL_lq_item10 (first_height + 1) data right_son, ap + 3 + 4 + 3))
          | CELL_lq_item11 second_height second_data second_next second_son \<Rightarrow>
              if second_height < first_height then None
              else if first_height \<noteq> second_height then Some (CELL_lq_item01 data tail, ap + 3)
              else
                (let left_son = CELL_lq_item10 first_height first_data first_son;
                     right_son = CELL_lq_item11 second_height second_data left_son second_son
                 in Some (CELL_lq_item11 (first_height + 1) data second_next right_son, ap + 3 + 4 + 4))
          | _ \<Rightarrow> None))"

definition lq_insert_last :: "'a lq \<Rightarrow> 'a \<Rightarrow> nat \<Rightarrow> ('a lq \<times> nat) option" where
  "lq_insert_last queue data ap =
    (case queue of
       NULL_LQ \<Rightarrow> Some (CELL_lq_entry_point (Some (CELL_lq_item00 data)) None, ap + 2 + 3)
     | CELL_lq_entry_point q1 None \<Rightarrow>
         if q1 = None then None
         else Some (CELL_lq_entry_point q1 (Some (CELL_lq_item00 data)), ap + 2 + 3)
     | CELL_lq_entry_point q1 (Some tail) \<Rightarrow>
         do { (new_item, ap') \<leftarrow> lq_new_item tail data ap;
              Some (CELL_lq_entry_point q1 (Some new_item), ap' + 3) })"

text \<open>
  Label \<^verbatim>\<open>unpack\<close>: \<open>tree\<close> is a right son whose rightmost item is to be deleted, \<open>head\<close> is
  \<^verbatim>\<open>new_queue[1]\<close>.
\<close>

fun lq_unpack :: "'a lq_item \<Rightarrow> 'a lq_item \<Rightarrow> nat \<Rightarrow> ('a lq_item \<times> nat) option" where
  "lq_unpack (CELL_lq_item01 _ brother) head ap =
    (if lq_HEIGHT brother \<noteq> 0 then None
     else Some (CELL_lq_item01 (lq_DATA brother) head, ap + 3))"
| "lq_unpack (CELL_lq_item11 h d brother son) head ap =
    (case brother of
       CELL_lq_item10 bh bd bson \<Rightarrow>
         (let p1 = CELL_lq_item11 bh bd head bson;
              p2 = CELL_lq_item01 d p1
          in if lq_HEIGHT son + 1 \<noteq> h then None else lq_unpack son p2 (ap + 4 + 3))
     | _ \<Rightarrow> None)"
| "lq_unpack _ head ap = None"

text \<open>
  Label \<^verbatim>\<open>reverse\<close>: \<open>tree\<close> is the tree after the one last put into the new head \<open>head\<close>.
\<close>

fun lq_reverse :: "'a lq_item \<Rightarrow> 'a lq_item \<Rightarrow> nat \<Rightarrow> ('a lq_item \<times> nat) option" where
  "lq_reverse (CELL_lq_item00 _) head ap = Some (head, ap)"
| "lq_reverse (CELL_lq_item10 h d son) head ap =
    (if h = 0 \<or> lq_HEIGHT son + 1 \<noteq> h then None
     else lq_unpack son (CELL_lq_item01 d head) (ap + 3))"
| "lq_reverse (CELL_lq_item01 d nxt) head ap = lq_reverse nxt (CELL_lq_item01 d head) (ap + 3)"
| "lq_reverse (CELL_lq_item11 h d nxt son) head ap =
    (if h = 0 then None else lq_reverse nxt (CELL_lq_item11 h d head son) (ap + 4))"

definition lq_remove_first :: "'a lq \<Rightarrow> nat \<Rightarrow> ('a lq \<times> nat) option" where
  "lq_remove_first queue ap =
    (case queue of
       NULL_LQ \<Rightarrow> Some (NULL_LQ, ap)
     | CELL_lq_entry_point (Some tree) q2 \<Rightarrow>
         (case tree of
            CELL_lq_item00 _ \<Rightarrow>
              if q2 = None then Some (NULL_LQ, ap)
              else Some (CELL_lq_entry_point None q2, ap + 3)
          | CELL_lq_item01 _ nxt \<Rightarrow> Some (CELL_lq_entry_point (Some nxt) q2, ap + 3)
          | CELL_lq_item10 h d son \<Rightarrow>
              if h = 0 then None
              else do { (head, ap') \<leftarrow> lq_unpack son (CELL_lq_item00 d) (ap + 2 + 3);
                        Some (CELL_lq_entry_point (Some head) q2, ap') }
          | CELL_lq_item11 h d nxt son \<Rightarrow>
              if h = 0 then None
              else do { (head, ap') \<leftarrow> lq_unpack son (CELL_lq_item01 d nxt) (ap + 3 + 3);
                        Some (CELL_lq_entry_point (Some head) q2, ap') })
     | CELL_lq_entry_point None None \<Rightarrow> None
     | CELL_lq_entry_point None (Some tree) \<Rightarrow>
         (case tree of
            CELL_lq_item00 _ \<Rightarrow> Some (NULL_LQ, ap)
          | CELL_lq_item10 h d son \<Rightarrow>
              if h = 0 then None
              else do { (head, ap') \<leftarrow> lq_unpack son (CELL_lq_item00 d) (ap + 2 + 3);
                        Some (CELL_lq_entry_point (Some head) None, ap') }
          | CELL_lq_item01 d nxt \<Rightarrow>
              do { (head, ap') \<leftarrow> lq_reverse nxt (CELL_lq_item00 d) (ap + 2 + 3);
                   Some (CELL_lq_entry_point (Some head) None, ap') }
          | CELL_lq_item11 h d nxt son \<Rightarrow>
              if h = 0 then None
              else do { (head, ap') \<leftarrow> lq_reverse nxt (CELL_lq_item10 h d son) (ap + 3 + 3);
                        Some (CELL_lq_entry_point (Some head) None, ap') }))"

section \<open>Contents and validity\<close>

text \<open>
  \<open>lq_list\<close> lists a chain of trees newest item first, \<open>lq_sons\<close> the items below a root whose
  right son is given, \<open>lq_oldest\<close> a chain of the head oldest item first.
\<close>

fun lq_list :: "'a lq_item \<Rightarrow> 'a list" and lq_sons :: "'a lq_item \<Rightarrow> 'a list" where
  "lq_list (CELL_lq_item00 x) = [x]"
| "lq_list (CELL_lq_item01 x nxt) = x # lq_list nxt"
| "lq_list (CELL_lq_item10 h x son) = x # lq_sons son"
| "lq_list (CELL_lq_item11 h x nxt son) = x # lq_sons son @ lq_list nxt"
| "lq_sons (CELL_lq_item00 x) = [x]"
| "lq_sons (CELL_lq_item01 x nxt) = lq_list nxt @ [x]"
| "lq_sons (CELL_lq_item10 h x son) = x # lq_sons son"
| "lq_sons (CELL_lq_item11 h x nxt son) = lq_list nxt @ x # lq_sons son"

fun lq_oldest :: "'a lq_item \<Rightarrow> 'a list" where
  "lq_oldest (CELL_lq_item00 x) = [x]"
| "lq_oldest (CELL_lq_item01 x nxt) = x # lq_oldest nxt"
| "lq_oldest (CELL_lq_item10 h x son) = rev (lq_sons son) @ [x]"
| "lq_oldest (CELL_lq_item11 h x nxt son) = rev (lq_sons son) @ x # lq_oldest nxt"

fun lq_contents :: "'a lq \<Rightarrow> 'a list" where
  "lq_contents NULL_LQ = []"
| "lq_contents (CELL_lq_entry_point q1 q2) =
    (case q1 of None \<Rightarrow> [] | Some t \<Rightarrow> lq_oldest t) @ (case q2 of None \<Rightarrow> [] | Some t \<Rightarrow> rev (lq_list t))"

text \<open>
  \<open>sons_ok k s\<close>: \<open>s\<close> and its successor are the right and left son of a perfect tree of height
  \<open>k + 1\<close>.  \<open>trees_ok\<close>: every tree of the list is perfect.  The heights in the tail increase,
  only the first two may be equal.
\<close>

fun sons_ok :: "nat \<Rightarrow> 'a lq_item \<Rightarrow> bool" where
  "sons_ok 0 (CELL_lq_item01 x (CELL_lq_item00 y)) = True"
| "sons_ok (Suc k) (CELL_lq_item11 h x (CELL_lq_item10 h' y sony) sonx) \<longleftrightarrow>
    h = Suc k \<and> h' = Suc k \<and> sons_ok k sony \<and> sons_ok k sonx"
| "sons_ok _ _ = False"

fun trees_ok :: "'a lq_item \<Rightarrow> bool" where
  "trees_ok (CELL_lq_item00 x) = True"
| "trees_ok (CELL_lq_item01 x nxt) = trees_ok nxt"
| "trees_ok (CELL_lq_item10 h x son) \<longleftrightarrow> 0 < h \<and> sons_ok (h - 1) son"
| "trees_ok (CELL_lq_item11 h x nxt son) \<longleftrightarrow> 0 < h \<and> sons_ok (h - 1) son \<and> trees_ok nxt"

fun heights :: "'a lq_item \<Rightarrow> nat list" where
  "heights (CELL_lq_item00 x) = [0]"
| "heights (CELL_lq_item01 x nxt) = 0 # heights nxt"
| "heights (CELL_lq_item10 h x son) = [h]"
| "heights (CELL_lq_item11 h x nxt son) = h # heights nxt"

fun lq_valid :: "'a lq \<Rightarrow> bool" where
  "lq_valid NULL_LQ = True"
| "lq_valid (CELL_lq_entry_point q1 q2) \<longleftrightarrow>
    (q1 \<noteq> None \<or> q2 \<noteq> None) \<and>
    (\<forall>t. q1 = Some t \<longrightarrow> trees_ok t) \<and> (\<forall>t. q2 = Some t \<longrightarrow> trees_ok t \<and> skew (heights t))"

lemma sons_ok_height: "sons_ok k s \<Longrightarrow> lq_HEIGHT s = k"
  by (induction k s rule: sons_ok.induct) auto

lemma length_lq_sons: "sons_ok k s \<Longrightarrow> length (lq_sons s) + 2 = 2 ^ (k + 2)"
  by (induction k s rule: sons_ok.induct) auto

lemma lq_sons_not_Nil [simp]: "lq_sons s \<noteq> []"
  by (cases s) auto

lemma lq_list_not_Nil [simp]: "lq_list t \<noteq> []"
  by (cases t) auto

lemma heights_not_Nil [simp]: "heights t \<noteq> []"
  by (cases t) auto

lemma heights_bound:
  assumes "trees_ok t" and "h \<in> set (heights t)"
  shows "2 ^ (h + 1) \<le> length (lq_list t) + 1"
  using assms
proof (induction t)
  case (CELL_lq_item10 k x son)
  then show ?case using length_lq_sons [of "k - 1" son] by (cases k) auto
next
  case (CELL_lq_item11 k x nxt son)
  then show ?case using length_lq_sons [of "k - 1" son] by (cases k) auto
qed auto

lemma lq_unpack_ok:
  assumes "sons_ok k s" and "trees_ok head"
  shows "\<exists>head'. lq_unpack s head ap = Some (head', ap + 7 * k + 3) \<and> trees_ok head' \<and>
    lq_oldest head' = tl (rev (lq_sons s)) @ lq_oldest head"
  using assms
proof (induction k s arbitrary: head ap rule: sons_ok.induct)
  case (2 k h x h' y sony sonx)
  then have "trees_ok (CELL_lq_item01 x (CELL_lq_item11 h' y head sony))" by simp
  moreover have "lq_HEIGHT sonx + 1 = h" using 2 sons_ok_height by fastforce
  ultimately show ?case using "2.IH"(2) [of "CELL_lq_item01 x (CELL_lq_item11 h' y head sony)" "7 + ap"] 2
    by (auto simp: Let_def tl_append2)
qed auto

lemma lq_reverse_ok:
  assumes "trees_ok t" and "trees_ok head"
  shows "\<exists>head' ap'. lq_reverse t head ap = Some (head', ap') \<and> trees_ok head' \<and>
    lq_oldest head' = tl (rev (lq_list t)) @ lq_oldest head \<and>
    ap \<le> ap' \<and> ap' \<le> ap + 4 * length (heights t) + 7 * last (heights t)"
  using assms
proof (induction t arbitrary: head ap)
  case (CELL_lq_item00 x)
  then show ?case by simp
next
  case (CELL_lq_item01 x nxt)
  then show ?case using CELL_lq_item01.IH [of "CELL_lq_item01 x head" "ap + 3"]
    by (auto simp: tl_append2)
next
  case (CELL_lq_item10 h x son)
  then have "lq_HEIGHT son + 1 = h" using sons_ok_height by fastforce
  then show ?case
    using CELL_lq_item10 lq_unpack_ok [of "h - 1" son "CELL_lq_item01 x head" "ap + 3"]
    by (auto simp: tl_append2)
next
  case (CELL_lq_item11 h x nxt son)
  then show ?case using CELL_lq_item11.IH(1) [of "CELL_lq_item11 h x head son" "ap + 4"]
    by (auto simp: tl_append2)
qed

lemma lq_new_item_ok:
  assumes "trees_ok t" and "skew (heights t)"
  shows "\<exists>t' ap'. lq_new_item t x ap = Some (t', ap') \<and> trees_ok t' \<and> skew (heights t') \<and>
    lq_list t' = x # lq_list t \<and> ap \<le> ap' \<and> ap' \<le> ap + 11"
proof (cases t)
  case (CELL_lq_item00 d)
  then show ?thesis by (simp add: lq_new_item_def)
next
  case (CELL_lq_item01 d nxt)
  with assms show ?thesis
    by (cases nxt) (auto simp: lq_new_item_def Let_def)
next
  case (CELL_lq_item10 h d son)
  with assms show ?thesis by (simp add: lq_new_item_def)
next
  case (CELL_lq_item11 h d nxt son)
  then obtain k where k: "h = Suc k" "lq_HEIGHT son = k" "sons_ok k son"
    using assms sons_ok_height by (cases h) auto
  show ?thesis
  proof (cases nxt)
    case (CELL_lq_item10 h2 d2 son2)
    then show ?thesis using assms CELL_lq_item11 k
      by (auto simp: lq_new_item_def Let_def)
  next
    case (CELL_lq_item11 h2 d2 nxt2 son2)
    then show ?thesis using assms \<open>t = CELL_lq_item11 h d nxt son\<close> k
      by (auto simp: lq_new_item_def Let_def Suc_le_eq less_imp_le)
  qed (use assms CELL_lq_item11 k in auto)
qed

lemma lq_insert_last_ok:
  assumes "lq_valid q"
  shows "\<exists>q' ap'. lq_insert_last q x ap = Some (q', ap') \<and> lq_valid q' \<and>
    lq_contents q' = lq_contents q @ [x] \<and> ap \<le> ap' \<and> ap' \<le> ap + LQ_INSERT_MAX_ALLOCATION"
proof (cases q)
  case NULL_LQ
  then show ?thesis by (simp add: lq_insert_last_def LQ_INSERT_MAX_ALLOCATION_def)
next
  case (CELL_lq_entry_point q1 q2)
  show ?thesis
  proof (cases q2)
    case None
    then show ?thesis using assms CELL_lq_entry_point
      by (auto simp: lq_insert_last_def LQ_INSERT_MAX_ALLOCATION_def)
  next
    case (Some t)
    then obtain t' ap' where "lq_new_item t x ap = Some (t', ap')" "trees_ok t'" "skew (heights t')"
        "lq_list t' = x # lq_list t" "ap \<le> ap'" "ap' \<le> ap + 11"
      using lq_new_item_ok [of t x ap] assms CELL_lq_entry_point by auto
    then show ?thesis using assms CELL_lq_entry_point Some
      by (simp add: lq_insert_last_def LQ_INSERT_MAX_ALLOCATION_def)
  qed
qed

lemma tree_height_less:
  assumes "trees_ok t" and "length (lq_list t) < 2 ^ 30" and "h \<in> set (heights t)"
  shows "h < 30"
proof -
  have "(2::nat) ^ (h + 1) \<le> 2 ^ 30" using heights_bound [OF assms(1,3)] assms(2) by simp
  then have "h + 1 \<le> 30" by (subst (asm) power_increasing_iff) auto
  then show ?thesis by simp
qed

lemma lq_oldest_length: "length (lq_oldest t) = length (lq_list t)"
  by (induction t) auto

lemma lq_remove_head_ok:
  assumes "trees_ok t" and "\<forall>t. q2 = Some t \<longrightarrow> trees_ok t \<and> skew (heights t)"
  shows "\<exists>q' ap'. lq_remove_first (CELL_lq_entry_point (Some t) q2) ap = Some (q', ap') \<and> lq_valid q' \<and>
    lq_contents q' = tl (lq_contents (CELL_lq_entry_point (Some t) q2)) \<and> ap \<le> ap' \<and>
    ap' \<le> ap + 7 * hd (heights t) + 3"
proof (cases t)
  case (CELL_lq_item00 d)
  then show ?thesis using assms by (auto simp: lq_remove_first_def)
next
  case (CELL_lq_item01 d nxt)
  then show ?thesis using assms by (auto simp: lq_remove_first_def)
next
  case (CELL_lq_item10 h d son)
  then show ?thesis using assms lq_unpack_ok [of "h - 1" son "CELL_lq_item00 d" "5 + ap"]
    by (auto simp: lq_remove_first_def tl_append2)
next
  case (CELL_lq_item11 h d nxt son)
  then show ?thesis using assms lq_unpack_ok [of "h - 1" son "CELL_lq_item01 d nxt" "6 + ap"]
    by (auto simp: lq_remove_first_def tl_append2)
qed

lemma lq_remove_tail_ok:
  assumes "trees_ok t" and "skew (heights t)"
  shows "\<exists>q' ap'. lq_remove_first (CELL_lq_entry_point None (Some t)) ap = Some (q', ap') \<and> lq_valid q' \<and>
    lq_contents q' = tl (rev (lq_list t)) \<and> ap \<le> ap' \<and>
    ap' \<le> ap + 6 + 4 * length (tl (heights t)) + 7 * last (heights t)"
proof (cases t)
  case (CELL_lq_item00 d)
  then show ?thesis by (simp add: lq_remove_first_def)
next
  case (CELL_lq_item01 d nxt)
  then show ?thesis using assms lq_reverse_ok [of nxt "CELL_lq_item00 d" "5 + ap"]
    by (auto simp: lq_remove_first_def tl_append2)
next
  case (CELL_lq_item10 h d son)
  then show ?thesis using assms lq_unpack_ok [of "h - 1" son "CELL_lq_item00 d" "5 + ap"]
    by (auto simp: lq_remove_first_def tl_append2)
next
  case (CELL_lq_item11 h d nxt son)
  then show ?thesis using assms lq_reverse_ok [of nxt "CELL_lq_item10 h d son" "6 + ap"]
    by (auto simp: lq_remove_first_def tl_append2)
qed

lemma tail_alloc_bound:
  assumes "trees_ok t" and "skew (heights t)" and "length (lq_list t) < 2 ^ 30"
  shows "6 + 4 * length (tl (heights t)) + 7 * last (heights t) \<le> LQ_REMOVE_MAX_ALLOCATION"
proof -
  have b: "\<forall>h \<in> set (heights t). h < 30" using tree_height_less assms by blast
  have "sorted_wrt (<) (tl (heights t))" using assms(2) by (cases "heights t") auto
  moreover have "\<forall>h \<in> set (tl (heights t)). h < 30" using b by (metis heights_not_Nil list.set_sel(2))
  ultimately have "length (tl (heights t)) \<le> 30" by (rule sorted_less_bounded_length)
  moreover have "last (heights t) < 30" using b by simp
  ultimately show ?thesis unfolding LQ_REMOVE_MAX_ALLOCATION_def by linarith
qed

lemma lq_remove_first_ok:
  assumes v: "lq_valid q" and "lq_contents q \<noteq> []"
  shows "\<exists>q' ap'. lq_remove_first q ap = Some (q', ap') \<and> lq_valid q' \<and>
    lq_contents q' = tl (lq_contents q) \<and> ap \<le> ap' \<and>
    (length (lq_contents q) < 2 ^ 30 \<longrightarrow> ap' \<le> ap + LQ_REMOVE_MAX_ALLOCATION)"
proof -
  obtain q1 q2 where q: "q = CELL_lq_entry_point q1 q2" using assms by (cases q) auto
  show ?thesis
  proof (cases q1)
    case None
    then obtain t where t: "q2 = Some t" "trees_ok t" "skew (heights t)" using v q by (cases q2) auto
    then show ?thesis using lq_remove_tail_ok [OF t(2,3), of ap] tail_alloc_bound [OF t(2,3)] q None
      by fastforce
  next
    case (Some t)
    then have t: "trees_ok t" "\<forall>t. q2 = Some t \<longrightarrow> trees_ok t \<and> skew (heights t)" using v q by auto
    obtain q' ap' where r: "lq_remove_first q ap = Some (q', ap')" "lq_valid q'"
        "lq_contents q' = tl (lq_contents q)" "ap \<le> ap'" "ap' \<le> ap + 7 * hd (heights t) + 3"
      using lq_remove_head_ok [OF t, of ap] q Some by auto
    moreover have "ap' \<le> ap + LQ_REMOVE_MAX_ALLOCATION" if "length (lq_contents q) < 2 ^ 30"
    proof -
      have "length (lq_list t) < 2 ^ 30" using that q Some by (simp add: lq_oldest_length)
      then have "hd (heights t) < 30" using tree_height_less [OF t(1)] by simp
      then show ?thesis using r(5) by (simp add: LQ_REMOVE_MAX_ALLOCATION_def)
    qed
    ultimately show ?thesis by blast
  qed
qed

section \<open>The queue fulfils the contract\<close>

interpretation logq: fifo_alloc NULL_LQ lq_insert_last lq_remove_first lq_contents lq_valid
  LQ_INSERT_MAX_ALLOCATION LQ_REMOVE_MAX_ALLOCATION "\<lambda>n. n < 2 ^ 30"
proof unfold_locales
  fix q :: "'a lq" and x ap q' ap'
  assume v: "lq_valid q"
  show "\<exists>q' ap'. lq_insert_last q x ap = Some (q', ap') \<and> lq_valid q' \<and>
      lq_contents q' = lq_contents q @ [x]"
    using lq_insert_last_ok [OF v] by blast
  show "ap \<le> ap' \<and> ap' \<le> ap + LQ_INSERT_MAX_ALLOCATION"
    if "lq_insert_last q x ap = Some (q', ap')"
    using lq_insert_last_ok [OF v, of x ap] that by auto
  show "\<exists>q' ap'. lq_remove_first q ap = Some (q', ap') \<and> lq_valid q' \<and>
      lq_contents q' = tl (lq_contents q)" if "lq_contents q \<noteq> []"
    using lq_remove_first_ok [OF v that] by blast
  show "ap \<le> ap' \<and> ap' \<le> ap + LQ_REMOVE_MAX_ALLOCATION"
    if "length (lq_contents q) < 2 ^ 30" "lq_contents q \<noteq> []" "lq_remove_first q ap = Some (q', ap')"
    using lq_remove_first_ok [OF v that(2), of ap] that(1,3) by auto
qed simp_all

lemma lq_rightmost_mem: "lq_rightmost t \<in> set (lq_list t)" "lq_rightmost t \<in> set (lq_sons t)"
  by (induction t) auto

text \<open>
  C3. Any sequence of \<^verbatim>\<open>lq_insert_last\<close> and \<^verbatim>\<open>lq_remove_first\<close> that never removes
  from an empty queue runs without a failed assertion on the logarithmic queue and leaves exactly
  the items of the first-in first-out specification.  A sequence of fewer than \<open>2^30\<close> operations
  allocates in all at most \<^verbatim>\<open>LQ_REMOVE_MAX_ALLOCATION\<close> words times its length.
\<close>

theorem lq_run_correct:
  assumes "fifo_spec ops [] = Some xs"
  shows "\<exists>q ap'. fifo_run lq_insert_last lq_remove_first ops NULL_LQ ap = Some (q, ap') \<and>
    lq_valid q \<and> lq_contents q = xs \<and>
    (length ops < 2 ^ 30 \<longrightarrow> ap' \<le> ap + length ops * LQ_REMOVE_MAX_ALLOCATION)"
proof -
  obtain q ap' where q: "fifo_run lq_insert_last lq_remove_first ops NULL_LQ ap = Some (q, ap')"
      "lq_valid q" "lq_contents q = xs"
    using logq.run_from_null [OF assms(1)] by blast
  moreover have "ap' \<le> ap + length ops * LQ_REMOVE_MAX_ALLOCATION" if "length ops < 2 ^ 30"
  proof -
    have fits: "k < 2 ^ 30" if "k \<le> length (lq_contents NULL_LQ) + length ops" for k
      using that \<open>length ops < 2 ^ 30\<close> by simp
    have "fifo_spec ops (lq_contents NULL_LQ) = Some xs" using assms(1) by simp
    from logq.run_alloc [OF logq.valid_null this fits q(1)]
    have "ap' \<le> ap + length ops * max LQ_INSERT_MAX_ALLOCATION LQ_REMOVE_MAX_ALLOCATION" .
    then show ?thesis by (simp add: LQ_INSERT_MAX_ALLOCATION_def LQ_REMOVE_MAX_ALLOCATION_def)
  qed
  ultimately show ?thesis by blast
qed

theorem lq_run_correct_witness:
  "\<exists>q ap'. fifo_run lq_insert_last lq_remove_first
      (map Insert_last [1 ..< 9] @ [Remove_first, Remove_first, Insert_last 9]) NULL_LQ 0 = Some (q, ap') \<and>
    lq_valid q \<and> lq_contents q = [3, 4, 5, 6, 7, 8, 9 :: nat] \<and> ap' \<le> 11 * LQ_REMOVE_MAX_ALLOCATION"
proof -
  have "fifo_spec (map Insert_last [1 ..< 9] @ [Remove_first, Remove_first, Insert_last 9]) [] =
      Some [3, 4, 5, 6, 7, 8, 9 :: nat]"
    by (simp add: upt_conv_Cons)
  from lq_run_correct [OF this, of 0] show ?thesis by simp
qed

text \<open>
  C4. One operation on a valid logarithmic queue: an insertion appends the item and allocates at most
  \<^verbatim>\<open>LQ_INSERT_MAX_ALLOCATION\<close> words, a removal drops the first item and allocates, with fewer than
  \<open>2^30\<close> items in the queue, at most \<^verbatim>\<open>LQ_REMOVE_MAX_ALLOCATION\<close> words; the queue stays valid, and a
  removal from the empty queue gives the empty queue.
\<close>

theorem lq_step_bounded:
  assumes "lq_valid q"
  shows "(\<exists>q' ap'. lq_insert_last q x ap = Some (q', ap') \<and> lq_valid q' \<and>
      lq_contents q' = lq_contents q @ [x] \<and> ap \<le> ap' \<and> ap' \<le> ap + LQ_INSERT_MAX_ALLOCATION) \<and>
    (\<exists>q' ap'. lq_remove_first q ap = Some (q', ap') \<and> lq_valid q' \<and>
      lq_contents q' = tl (lq_contents q) \<and> ap \<le> ap' \<and>
      (length (lq_contents q) < 2 ^ 30 \<longrightarrow> ap' \<le> ap + LQ_REMOVE_MAX_ALLOCATION))"
proof -
  have "\<exists>q' ap'. lq_remove_first q ap = Some (q', ap') \<and> lq_valid q' \<and>
      lq_contents q' = tl (lq_contents q) \<and> ap \<le> ap' \<and>
      (length (lq_contents q) < 2 ^ 30 \<longrightarrow> ap' \<le> ap + LQ_REMOVE_MAX_ALLOCATION)"
  proof (cases "lq_contents q = []")
    case True
    have "lq_oldest t \<noteq> []" for t :: "'a lq_item"
      using lq_oldest_length [of t] by (metis length_0_conv lq_list_not_Nil)
    then have "q = NULL_LQ" using assms True by (cases q rule: lq_valid.cases) (auto split: option.splits)
    then show ?thesis by (simp add: lq_remove_first_def)
  next
    case False
    then show ?thesis using lq_remove_first_ok [OF assms] by blast
  qed
  then show ?thesis using lq_insert_last_ok [OF assms, of x ap] by blast
qed

theorem lq_step_bounded_witness:
  "\<exists>q' ap'. lq_remove_first (NULL_LQ :: nat lq) 5 = Some (q', ap') \<and> lq_valid q' \<and> lq_contents q' = [] \<and>
    ap' \<le> 5 + LQ_REMOVE_MAX_ALLOCATION"
  using lq_step_bounded [of "NULL_LQ :: nat lq" 0 5] by auto

text \<open>
  \<^verbatim>\<open>lq_get_first\<close> does not return the first item.  It never looks at the head
  \<^verbatim>\<open>queue[1]\<close>, where the oldest items are: on every queue whose head is non-empty and whose
  items are distinct its answer differs from the first item, and with an empty tail its
  assertion fails.
\<close>

theorem lq_get_first_ignores_head:
  assumes "distinct (lq_contents (CELL_lq_entry_point (Some t) q2))"
  shows "lq_get_first (CELL_lq_entry_point (Some t) q2) \<noteq>
      Some (hd (lq_contents (CELL_lq_entry_point (Some t) q2))) \<and>
    lq_get_first (CELL_lq_entry_point (Some t) None) = None"
proof (cases q2)
  case None
  then show ?thesis by (simp add: lq_get_first_def)
next
  case (Some p)
  have "lq_oldest t \<noteq> []" by (cases t) auto
  then have "hd (lq_contents (CELL_lq_entry_point (Some t) q2)) \<in> set (lq_oldest t)" by simp
  moreover have "set (lq_oldest t) \<inter> set (lq_list p) = {}" using assms Some by auto
  ultimately have "hd (lq_contents (CELL_lq_entry_point (Some t) q2)) \<noteq> lq_rightmost p"
    using lq_rightmost_mem(1) [of p] by (metis disjoint_iff)
  then show ?thesis using Some by (simp add: lq_get_first_def)
qed

theorem lq_get_first_ignores_head_witness:
  "fifo_run lq_insert_last lq_remove_first [Insert_last 1, Insert_last 2] NULL_LQ 0 =
      Some (CELL_lq_entry_point (Some (CELL_lq_item00 1)) (Some (CELL_lq_item00 2)), 10) \<and>
    lq_get_first (CELL_lq_entry_point (Some (CELL_lq_item00 1)) (Some (CELL_lq_item00 (2 :: nat)))) = Some 2 \<and>
    lq_get_first (CELL_lq_entry_point (Some (CELL_lq_item00 1)) (Some (CELL_lq_item00 (2 :: nat)))) \<noteq> Some 1"
  using lq_get_first_ignores_head [of "CELL_lq_item00 (1 :: nat)" "Some (CELL_lq_item00 2)"]
  by (simp add: lq_insert_last_def lq_get_first_def)

end
