(* ===== verification/Priority_Interface.thy ===== *)
theory Priority_Interface
  imports Shades_Prelude "HOL-Library.Multiset"
begin

text \<open>
  The contract of a persistent priority queue: \<open>priority_queue\<close> states what inserting, finding
  and deleting the minimum and merging do to the multiset of items, and inside the locale it is
  shown that inserting and draining sorts.
\<close>

section \<open>The contract of a priority queue\<close>

text \<open>
  What \<^verbatim>\<open>priq.h\<close> promises, over an arbitrary order: the client operations insert, find the
  minimum, delete it and merge.  \<open>drain\<close> empties a queue the way \<^verbatim>\<open>test_priq.c\<close> does, item by
  item, with fuel for the number of items.
\<close>

fun drain :: "('q \<Rightarrow> 'a option option) \<Rightarrow> ('q \<Rightarrow> nat \<Rightarrow> ('q \<times> nat) option) \<Rightarrow> nat \<Rightarrow> 'q \<Rightarrow> nat \<Rightarrow>
    ('a list \<times> nat) option" where
  "drain find_min delete_min 0 q ap = (if find_min q = Some None then Some ([], ap) else None)"
| "drain find_min delete_min (Suc n) q ap = do {
     m \<leftarrow> find_min q;
     (case m of
        None \<Rightarrow> Some ([], ap)
      | Some x \<Rightarrow> do {
          (q', ap1) \<leftarrow> delete_min q ap;
          (xs, ap2) \<leftarrow> drain find_min delete_min n q' ap1;
          Some (x # xs, ap2) }) }"

locale priority_queue =
  fixes le :: "'a \<Rightarrow> 'a \<Rightarrow> bool"
    and null :: 'q
    and insert :: "'q \<Rightarrow> 'a \<Rightarrow> nat \<Rightarrow> 'q \<times> nat"
    and find_min :: "'q \<Rightarrow> 'a option option"
    and delete_min :: "'q \<Rightarrow> nat \<Rightarrow> ('q \<times> nat) option"
    and meld :: "'q \<Rightarrow> 'q \<Rightarrow> nat \<Rightarrow> 'q \<times> nat"
    and items :: "'q \<Rightarrow> 'a multiset"
    and valid :: "'q \<Rightarrow> bool"
  assumes null_ok: "valid null" "items null = {#}"
    and empty_min: "valid q \<Longrightarrow> items q = {#} \<Longrightarrow> find_min q = Some None"
    and insert_ok: "valid q \<Longrightarrow> valid (fst (insert q x ap)) \<and> items (fst (insert q x ap)) = add_mset x (items q)"
    and meld_ok: "valid q \<Longrightarrow> valid r \<Longrightarrow>
      valid (fst (meld q r ap)) \<and> items (fst (meld q r ap)) = items q + items r"
    and delete_ok: "valid q \<Longrightarrow> items q \<noteq> {#} \<Longrightarrow>
      \<exists>x q' ap'. find_min q = Some (Some x) \<and> delete_min q ap = Some (q', ap') \<and> valid q' \<and>
        x \<in># items q \<and> (\<forall>y \<in># items q. le x y) \<and> items q' = items q - {#x#}"
begin

lemma drain_sorts:
  assumes "valid q" and "size (items q) \<le> n"
  shows "\<exists>xs ap'. drain find_min delete_min n q ap = Some (xs, ap') \<and> sorted_wrt le xs \<and> mset xs = items q"
  using assms
proof (induction n arbitrary: q ap)
  case 0
  then show ?case using empty_min by simp
next
  case (Suc n)
  show ?case
  proof (cases "items q = {#}")
    case True
    then show ?thesis using empty_min [OF Suc.prems(1)] by simp
  next
    case False
    then obtain x q' ap1 where d: "find_min q = Some (Some x)" "delete_min q ap = Some (q', ap1)" "valid q'"
        "x \<in># items q" "\<forall>y \<in># items q. le x y" "items q' = items q - {#x#}"
      using delete_ok [OF Suc.prems(1)] by blast
    then have "size (items q') \<le> n" using Suc.prems(2) by (simp add: size_Diff_singleton)
    with Suc.IH [OF d(3)] obtain xs ap2 where "drain find_min delete_min n q' ap1 = Some (xs, ap2)"
        "sorted_wrt le xs" "mset xs = items q'" by blast
    moreover from this have "set xs \<subseteq> set_mset (items q)"
      using d(6) by (metis in_diffD set_mset_mset subsetI)
    ultimately show ?thesis using d by auto
  qed
qed

lemma inserts_ok:
  "valid q \<Longrightarrow> valid (fst (fold (\<lambda>x (q, ap). insert q x ap) xs (q, ap))) \<and>
    items (fst (fold (\<lambda>x (q, ap). insert q x ap) xs (q, ap))) = mset xs + items q"
proof (induction xs arbitrary: q ap)
  case (Cons x xs)
  obtain q' ap' where i: "insert q x ap = (q', ap')" by fastforce
  then have "valid q'" "items q' = add_mset x (items q)" using insert_ok [OF Cons.prems, of x ap] by auto
  then show ?case using Cons.IH [of q' ap'] i by simp
qed simp

end

end
