(* ===== verification/Priq.thy ===== *)
theory Priq
  imports Priority_Interface
begin

text \<open>
  The priority queue of \<^verbatim>\<open>priq.c\<close>, a binomial heap.  A \<open>CELL_priq_item\<close> has its height,
  an item, its rightmost son and its right neighbour; a pointer to such a cell is the list of the
  cell and the cells reached through \<^verbatim>\<open>NEXT\<close>, and \<open>NULL_PTR\<close> is the empty list.  The
  destructive updates of \<^verbatim>\<open>merge\<close> touch only cells that the same call has allocated, so each
  update is the construction of a new value.  The comparison function is a parameter.
\<close>

section \<open>The cells and the operations\<close>

datatype 'a priq_item = CELL_priq_item (HEIGHT: nat) (ITEM: 'a) (SON: "'a priq_item list")

type_synonym 'a priq = "'a priq_item list"

definition PRIQ_MAX_ALLOCATION :: nat where
  "PRIQ_MAX_ALLOCATION = 4 + 3 * (4 * 32)"

text \<open>
  \<^verbatim>\<open>find_min\<close>: the minimum tree is a pointer into the list and is compared as a pointer, so it
  is returned as its position.  \<open>None\<close> is the failed assertion on \<open>CMP_ERROR\<close>.
\<close>

fun find_min_loop :: "('a \<Rightarrow> 'a \<Rightarrow> cmp_result_t) \<Rightarrow> 'a priq_item \<Rightarrow> nat \<Rightarrow> nat \<Rightarrow> 'a priq \<Rightarrow> nat option" where
  "find_min_loop cmp minimum_tree i_min i [] = Some i_min"
| "find_min_loop cmp minimum_tree i_min i (p # ps) =
    (let cmp_result = cmp (ITEM minimum_tree) (ITEM p)
     in if cmp_result = CMP_ERROR then None
        else if cmp_result = CMP_GREATER then find_min_loop cmp p i (i + 1) ps
        else find_min_loop cmp minimum_tree i_min (i + 1) ps)"

fun find_min :: "('a \<Rightarrow> 'a \<Rightarrow> cmp_result_t) \<Rightarrow> 'a priq \<Rightarrow> nat option" where
  "find_min cmp [] = None"
| "find_min cmp (p # ps) = find_min_loop cmp p 0 1 ps"

text \<open>
  Both branches of \<^verbatim>\<open>merge\<close> that link two trees of equal height make the root with the smaller
  item the root, with the other tree as its new rightmost son; on a tie the first tree stays the
  root.  \<open>None\<close> is \<open>CMP_ERROR\<close>.
\<close>

definition link_trees :: "('a \<Rightarrow> 'a \<Rightarrow> cmp_result_t) \<Rightarrow> 'a priq_item \<Rightarrow> 'a priq_item \<Rightarrow> 'a priq_item option" where
  "link_trees cmp t1 t2 =
    (let cmp_result = cmp (ITEM t1) (ITEM t2)
     in if cmp_result = CMP_ERROR then None
        else if cmp_result = CMP_GREATER then Some (CELL_priq_item (HEIGHT t2 + 1) (ITEM t2) (t1 # SON t2))
        else Some (CELL_priq_item (HEIGHT t1 + 1) (ITEM t1) (t2 # SON t1)))"

text \<open>
  The first loop of \<^verbatim>\<open>merge\<close>.  \<open>acc\<close> is the finished part of the new queue, from \<^verbatim>\<open>p\<close>
  to \<^verbatim>\<open>last\<close>.  A carry is linked with its neighbour in one new cell; the first trees of the two
  queues are linked in two new cells, and the queue of the greater root becomes \<^verbatim>\<open>pq_2\<close>.
\<close>

function merge_loop :: "('a \<Rightarrow> 'a \<Rightarrow> cmp_result_t) \<Rightarrow> 'a priq \<Rightarrow> 'a priq \<Rightarrow> 'a priq \<Rightarrow> nat \<Rightarrow>
    ('a priq \<times> 'a priq \<times> 'a priq \<times> nat) option" where
  "merge_loop cmp pq_1 pq_2 acc ap =
    (case (pq_1, pq_2) of
       (t1 # r1, t2 # r2) \<Rightarrow>
         if r1 \<noteq> [] \<and> HEIGHT t1 = HEIGHT (hd r1) then
           (case link_trees cmp t1 (hd r1) of
              None \<Rightarrow> None
            | Some t \<Rightarrow> merge_loop cmp (t # tl r1) pq_2 acc (ap + 4))
         else if HEIGHT t1 < HEIGHT t2 then merge_loop cmp r1 pq_2 (acc @ [t1]) (ap + 4)
         else if HEIGHT t1 > HEIGHT t2 then merge_loop cmp pq_1 r2 (acc @ [t2]) (ap + 4)
         else
           (case link_trees cmp t1 t2 of
              None \<Rightarrow> None
            | Some t \<Rightarrow>
                if cmp (ITEM t1) (ITEM t2) = CMP_GREATER then merge_loop cmp (t # r2) r1 acc (ap + 8)
                else merge_loop cmp (t # r1) r2 acc (ap + 8))
     | _ \<Rightarrow> Some (pq_1, pq_2, acc, ap))"
  by pat_completeness auto
termination
  by (relation "measure (\<lambda>(cmp, pq_1, pq_2, acc, ap). length pq_1 + length pq_2)")
    (auto simp: neq_Nil_conv)

text \<open>The second loop of \<^verbatim>\<open>merge\<close>: the carry runs through the rest of \<^verbatim>\<open>pq_1\<close>.\<close>

function carry_loop :: "('a \<Rightarrow> 'a \<Rightarrow> cmp_result_t) \<Rightarrow> 'a priq \<Rightarrow> nat \<Rightarrow> ('a priq \<times> nat) option" where
  "carry_loop cmp pq_1 ap =
    (case pq_1 of
       t1 # t2 # r \<Rightarrow>
         if HEIGHT t1 = HEIGHT t2 then
           (case link_trees cmp t1 t2 of
              None \<Rightarrow> None
            | Some t \<Rightarrow> carry_loop cmp (t # r) (ap + 4))
         else Some (pq_1, ap)
     | _ \<Rightarrow> Some (pq_1, ap))"
  by pat_completeness auto
termination
  by (relation "measure (\<lambda>(cmp, pq_1, ap). length pq_1)") auto

definition merge :: "('a \<Rightarrow> 'a \<Rightarrow> cmp_result_t) \<Rightarrow> 'a priq \<Rightarrow> 'a priq \<Rightarrow> nat \<Rightarrow> ('a priq \<times> nat) option" where
  "merge cmp pq_1 pq_2 ap =
    (if pq_1 = [] then Some (pq_2, ap)
     else if pq_2 = [] then Some (pq_1, ap)
     else do {
       (pq_1', pq_2', acc, ap1) \<leftarrow> merge_loop cmp pq_1 pq_2 [] ap;
       (if pq_1' = [] then Some (acc @ pq_2', ap1)
        else do { (rest, ap2) \<leftarrow> carry_loop cmp pq_1' ap1; Some (acc @ rest, ap2) }) })"

definition priq_find_min :: "('a \<Rightarrow> 'a \<Rightarrow> cmp_result_t) \<Rightarrow> 'a priq \<Rightarrow> 'a option option" where
  "priq_find_min cmp priq =
    (if priq = [] then Some None
     else do { i \<leftarrow> find_min cmp priq; Some (Some (ITEM (priq ! i))) })"

definition priq_insert :: "('a \<Rightarrow> 'a \<Rightarrow> cmp_result_t) \<Rightarrow> 'a priq \<Rightarrow> 'a \<Rightarrow> nat \<Rightarrow> 'a priq \<times> nat" where
  "priq_insert cmp priq item ap =
    (case merge cmp priq [CELL_priq_item 0 item []] (ap + 4) of
       None \<Rightarrow> (priq, ap)
     | Some r \<Rightarrow> r)"

text \<open>
  \<^verbatim>\<open>priq_delete\<close>: the trees before the minimum tree and its sons are copied, the sons in
  reverse order.
\<close>

definition priq_delete :: "('a \<Rightarrow> 'a \<Rightarrow> cmp_result_t) \<Rightarrow> 'a priq \<Rightarrow> nat \<Rightarrow> ('a priq \<times> nat) option" where
  "priq_delete cmp priq ap =
    (if priq = [] then Some ([], ap)
     else do {
       i \<leftarrow> find_min cmp priq;
       let priq_except_min = take i priq @ drop (i + 1) priq;
       let rest_of_min = rev (SON (priq ! i));
       let ap1 = ap + 4 * i + 4 * length rest_of_min;
       (if priq_except_min = [] \<and> rest_of_min = [] then Some ([], ap1)
        else
          Some (case merge cmp rest_of_min priq_except_min ap1 of
                  None \<Rightarrow> (priq, ap)
                | Some r \<Rightarrow> r)) })"

definition priq_merge :: "('a \<Rightarrow> 'a \<Rightarrow> cmp_result_t) \<Rightarrow> 'a priq \<Rightarrow> 'a priq \<Rightarrow> nat \<Rightarrow> 'a priq \<times> nat" where
  "priq_merge cmp pq_1 pq_2 ap =
    (if pq_1 = [] \<and> pq_2 = [] then ([], ap)
     else (case merge cmp pq_1 pq_2 ap of None \<Rightarrow> ([], ap) | Some r \<Rightarrow> r))"

text \<open>\<^verbatim>\<open>priq_make_assertions\<close>: the heights in the root list increase.\<close>

fun priq_make_assertions :: "'a priq \<Rightarrow> bool" where
  "priq_make_assertions (previous # p # ps) \<longleftrightarrow>
    HEIGHT previous < HEIGHT p \<and> priq_make_assertions (p # ps)"
| "priq_make_assertions _ \<longleftrightarrow> True"

section \<open>Items, heap order, binomial shape\<close>

fun tree_items :: "'a priq_item \<Rightarrow> 'a multiset" where
  "tree_items (CELL_priq_item h x sons) = add_mset x (sum_list (map tree_items sons))"

definition priq_items :: "'a priq \<Rightarrow> 'a multiset" where
  "priq_items ts = sum_list (map tree_items ts)"

lemma priq_items_simps [simp]:
  "priq_items [] = {#}" "priq_items (t # ts) = tree_items t + priq_items ts"
  "priq_items (ts @ us) = priq_items ts + priq_items us" "priq_items (rev ts) = priq_items ts"
  by (simp_all add: priq_items_def sum_list_rev flip: rev_map)

lemma in_priq_items: "x \<in># priq_items ts \<longleftrightarrow> (\<exists>t \<in> set ts. x \<in># tree_items t)"
  by (induction ts) auto

lemma tree_items_simp [simp]:
  "tree_items (CELL_priq_item h x sons) = add_mset x (priq_items sons)"
  by (simp add: priq_items_def)

declare tree_items.simps [simp del]

fun heap_ordered :: "('a \<Rightarrow> 'a \<Rightarrow> cmp_result_t) \<Rightarrow> 'a priq_item \<Rightarrow> bool" where
  "heap_ordered cmp (CELL_priq_item h x sons) \<longleftrightarrow>
    (\<forall>s \<in> set sons. cmp_le cmp x (ITEM s) \<and> heap_ordered cmp s)"

fun binomial :: "'a priq_item \<Rightarrow> bool" where
  "binomial (CELL_priq_item h x sons) \<longleftrightarrow>
    map HEIGHT sons = rev [0..<h] \<and> (\<forall>s \<in> set sons. binomial s)"

definition tree_valid :: "('a \<Rightarrow> 'a \<Rightarrow> cmp_result_t) \<Rightarrow> 'a priq_item \<Rightarrow> bool" where
  "tree_valid cmp t \<longleftrightarrow> heap_ordered cmp t \<and> binomial t"

definition priq_valid :: "('a \<Rightarrow> 'a \<Rightarrow> cmp_result_t) \<Rightarrow> 'a priq \<Rightarrow> bool" where
  "priq_valid cmp ts \<longleftrightarrow> (\<forall>t \<in> set ts. tree_valid cmp t) \<and> sorted_wrt (<) (map HEIGHT ts)"

lemma link_trees_ok:
  assumes "total_cmp cmp" and "HEIGHT t1 = HEIGHT t2" and "tree_valid cmp t1" and "tree_valid cmp t2"
  shows "\<exists>t. link_trees cmp t1 t2 = Some t \<and> HEIGHT t = Suc (HEIGHT t1) \<and> tree_valid cmp t \<and>
    tree_items t = tree_items t1 + tree_items t2"
  using assms cmp_no_error [of cmp "ITEM t1" "ITEM t2"] cmp_le_total [of cmp "ITEM t1" "ITEM t2"]
  by (cases t1; cases t2) (auto simp: link_trees_def Let_def tree_valid_def cmp_le_def)

text \<open>
  The state of the first loop of \<^verbatim>\<open>merge\<close>: the finished trees are lower than the rest, only the
  first two trees of \<open>pq_1\<close> may have the same height.
\<close>

definition merge_state :: "('a \<Rightarrow> 'a \<Rightarrow> cmp_result_t) \<Rightarrow> 'a priq \<Rightarrow> 'a priq \<Rightarrow> 'a priq \<Rightarrow> bool" where
  "merge_state cmp pq_1 pq_2 acc \<longleftrightarrow>
    (\<forall>t \<in> set (acc @ pq_1 @ pq_2). tree_valid cmp t) \<and>
    sorted_wrt (<) (map HEIGHT acc) \<and> skew (map HEIGHT pq_1) \<and> sorted_wrt (<) (map HEIGHT pq_2) \<and>
    (\<forall>t \<in> set acc. \<forall>u \<in> set (pq_1 @ pq_2). HEIGHT t < HEIGHT u)"

declare merge_loop.simps [simp del] carry_loop.simps [simp del]

lemma not_carry_sorted:
  "skew (map HEIGHT (t1 # r1)) \<Longrightarrow> \<not> (r1 \<noteq> [] \<and> HEIGHT t1 = HEIGHT (hd r1)) \<Longrightarrow>
    sorted_wrt (<) (map HEIGHT (t1 # r1))"
  by (cases r1) (auto simp: less_le)

lemma merge_state_copy:
  assumes "merge_state cmp pq_1 pq_2 acc" and "sorted_wrt (<) (map HEIGHT pq_1)"
  shows "pq_1 = t1 # r1 \<Longrightarrow> (\<forall>t \<in> set pq_2. HEIGHT t1 < HEIGHT t) \<Longrightarrow> merge_state cmp r1 pq_2 (acc @ [t1])"
    and "pq_2 = t2 # r2 \<Longrightarrow> (\<forall>t \<in> set pq_1. HEIGHT t2 < HEIGHT t) \<Longrightarrow> merge_state cmp pq_1 r2 (acc @ [t2])"
  using assms unfolding merge_state_def by (auto simp: sorted_wrt_append intro: skew_sorted)

lemma merge_state_link:
  assumes "merge_state cmp (t1 # r1) (t2 # r2) acc" and "sorted_wrt (<) (map HEIGHT (t1 # r1))"
    and "HEIGHT t1 = HEIGHT t2" and "tree_valid cmp t" and "HEIGHT t = Suc (HEIGHT t1)"
  shows "merge_state cmp (t # r1) r2 acc" and "merge_state cmp (t # r2) r1 acc"
  using assms unfolding merge_state_def by (auto simp: Suc_le_eq less_SucI)

lemma merge_loop_done: "pq_1 = [] \<or> pq_2 = [] \<Longrightarrow> merge_loop cmp pq_1 pq_2 acc ap = Some (pq_1, pq_2, acc, ap)"
  by (subst merge_loop.simps) (auto split: list.split)

lemmas merge_loop_Cons = merge_loop.simps [of _ "t1 # r1" "t2 # r2" for t1 r1 t2 r2, simplified]

lemma merge_loop_ok:
  assumes cmp: "total_cmp cmp" and "merge_state cmp pq_1 pq_2 acc"
  shows "\<exists>p1 p2 acc' ap'. merge_loop cmp pq_1 pq_2 acc ap = Some (p1, p2, acc', ap') \<and>
    merge_state cmp p1 p2 acc' \<and> (p1 = [] \<or> p2 = []) \<and>
    priq_items p1 + priq_items p2 + priq_items acc' = priq_items pq_1 + priq_items pq_2 + priq_items acc"
  using assms(2)
proof (induction "length pq_1 + length pq_2" arbitrary: pq_1 pq_2 acc ap rule: less_induct)
  case less
  show ?case
  proof (cases "pq_1 = [] \<or> pq_2 = []")
    case True
    then show ?thesis using less.prems by (simp add: merge_loop_done)
  next
    case False
    then obtain t1 r1 t2 r2 where p: "pq_1 = t1 # r1" "pq_2 = t2 # r2" by (auto simp: neq_Nil_conv)
    note st = less.prems [unfolded p merge_state_def]
    show ?thesis
    proof (cases "r1 \<noteq> [] \<and> HEIGHT t1 = HEIGHT (hd r1)")
      case True
      then obtain t1' r where r: "r1 = t1' # r" "HEIGHT t1 = HEIGHT t1'" by (cases r1) auto
      obtain t where t: "link_trees cmp t1 t1' = Some t" "HEIGHT t = Suc (HEIGHT t1)" "tree_valid cmp t"
          "tree_items t = tree_items t1 + tree_items t1'"
        using link_trees_ok [OF cmp r(2)] st r by auto
      have "merge_state cmp (t # r) pq_2 acc"
        using st r t unfolding p merge_state_def by (auto simp: Suc_le_eq less_SucI)
      from less.hyps [OF _ this, of "ap + 4"] show ?thesis using t r
        by (simp add: p merge_loop_Cons ac_simps)
    next
      case no: False
      have srt: "sorted_wrt (<) (map HEIGHT (t1 # r1))" using st by (intro not_carry_sorted [OF _ no]) simp
      note eqn = merge_loop_Cons [of cmp t1 r1 t2 r2 acc ap, unfolded if_not_P [OF no]]
      consider (lt) "HEIGHT t1 < HEIGHT t2" | (gt) "HEIGHT t1 > HEIGHT t2" | (eq) "HEIGHT t1 = HEIGHT t2"
        by linarith
      then show ?thesis
      proof cases
        case lt
        have "merge_state cmp r1 pq_2 (acc @ [t1])"
          by (rule merge_state_copy(1) [OF less.prems]) (use srt st lt p in auto)
        from less.hyps [OF _ this, of "ap + 4"] show ?thesis using lt
          by (simp add: p eqn ac_simps)
      next
        case gt
        have "merge_state cmp pq_1 r2 (acc @ [t2])"
          by (rule merge_state_copy(2) [OF less.prems]) (use srt st gt p in auto)
        from less.hyps [OF _ this, of "ap + 4"] show ?thesis using gt
          by (simp add: p eqn ac_simps)
      next
        case eq
        obtain t where t: "link_trees cmp t1 t2 = Some t" "HEIGHT t = Suc (HEIGHT t1)" "tree_valid cmp t"
          "tree_items t = tree_items t1 + tree_items t2"
          using link_trees_ok [OF cmp eq] st by auto
        note lnk = merge_state_link [OF less.prems [unfolded p] srt eq t(3,2)]
        from less.hyps [OF _ lnk(1), of "ap + 8"] less.hyps [OF _ lnk(2), of "ap + 8"]
        show ?thesis using eq t
          by (simp add: p eqn ac_simps)
      qed
    qed
  qed
qed

lemma carry_loop_ok:
  assumes cmp: "total_cmp cmp" and "\<forall>t \<in> set ts. tree_valid cmp t" and "skew (map HEIGHT ts)"
  shows "\<exists>ts' ap'. carry_loop cmp ts ap = Some (ts', ap') \<and> priq_valid cmp ts' \<and>
    priq_items ts' = priq_items ts \<and> (\<forall>n. (\<forall>t \<in> set ts. n < HEIGHT t) \<longrightarrow> (\<forall>t \<in> set ts'. n < HEIGHT t)) \<and>
    (ts' = [] \<longleftrightarrow> ts = [])"
  using assms(2,3)
proof (induction "length ts" arbitrary: ts ap rule: less_induct)
  case less
  show ?case
  proof (cases "\<exists>t1 t2 r. ts = t1 # t2 # r \<and> HEIGHT t1 = HEIGHT t2")
    case True
    then obtain t1 t2 r where ts: "ts = t1 # t2 # r" "HEIGHT t1 = HEIGHT t2" by blast
    obtain t where t: "link_trees cmp t1 t2 = Some t" "HEIGHT t = Suc (HEIGHT t1)" "tree_valid cmp t"
          "tree_items t = tree_items t1 + tree_items t2"
      using link_trees_ok [OF cmp ts(2)] less.prems ts by auto
    have "\<forall>t' \<in> set (t # r). tree_valid cmp t'" "skew (map HEIGHT (t # r))"
      using less.prems ts t by (auto simp: Suc_le_eq)
    from less.hyps [OF _ this, of "ap + 4"] show ?thesis using ts t
      by (subst carry_loop.simps) (fastforce simp: ac_simps)
  next
    case False
    have "carry_loop cmp ts ap = Some (ts, ap)"
      using False by (subst carry_loop.simps) (auto split: list.split)
    moreover have "sorted_wrt (<) (map HEIGHT ts)"
    proof (cases ts)
      case (Cons t1 r)
      then show ?thesis using not_carry_sorted [of t1 r] less.prems(2) False by (cases r) auto
    qed simp
    ultimately show ?thesis using less.prems by (auto simp: priq_valid_def)
  qed
qed

lemma merge_ok:
  assumes cmp: "total_cmp cmp" and "priq_valid cmp p1" and "priq_valid cmp p2"
  shows "\<exists>p ap'. merge cmp p1 p2 ap = Some (p, ap') \<and> priq_valid cmp p \<and>
    priq_items p = priq_items p1 + priq_items p2"
proof (cases "p1 = [] \<or> p2 = []")
  case True
  then show ?thesis using assms by (auto simp: merge_def)
next
  case False
  have "merge_state cmp p1 p2 []"
    using assms by (auto simp: merge_state_def priq_valid_def intro: skew_sorted)
  then obtain q1 q2 acc ap1 where m: "merge_loop cmp p1 p2 [] ap = Some (q1, q2, acc, ap1)"
      "merge_state cmp q1 q2 acc" "q1 = [] \<or> q2 = []"
      "priq_items q1 + priq_items q2 + priq_items acc = priq_items p1 + priq_items p2"
    using merge_loop_ok [OF cmp, of p1 p2 "[]" ap] by auto
  show ?thesis
  proof (cases "q1 = []")
    case True
    then show ?thesis using m False
      by (auto simp: merge_def merge_state_def priq_valid_def sorted_wrt_append ac_simps)
  next
    case nonempty: False
    then have "q2 = []" using m(3) by simp
    obtain ts ap2 where c: "carry_loop cmp q1 ap1 = Some (ts, ap2)" "priq_valid cmp ts"
        "priq_items ts = priq_items q1"
        "\<forall>n. (\<forall>t \<in> set q1. n < HEIGHT t) \<longrightarrow> (\<forall>t \<in> set ts. n < HEIGHT t)"
      using carry_loop_ok [OF cmp, of q1 ap1] m(2) by (auto simp: merge_state_def)
    have "priq_valid cmp (acc @ ts)"
      using m(2) c(2,4) by (auto simp: merge_state_def priq_valid_def sorted_wrt_append)
    moreover have "merge cmp p1 p2 ap = Some (acc @ ts, ap2)"
      using False nonempty by (simp add: merge_def m(1) c(1))
    moreover have "priq_items (acc @ ts) = priq_items p1 + priq_items p2"
      using m(4) c(3) \<open>q2 = []\<close> by (simp add: ac_simps)
    ultimately show ?thesis by blast
  qed
qed

lemma root_least: "total_cmp cmp \<Longrightarrow> heap_ordered cmp t \<Longrightarrow> x \<in># tree_items t \<Longrightarrow> cmp_le cmp (ITEM t) x"
proof (induction t)
  case (CELL_priq_item h y sons)
  show ?case
  proof (cases "x = y")
    case True
    then show ?thesis using cmp_le_refl CELL_priq_item.prems(1) by simp
  next
    case False
    then obtain s where s: "s \<in> set sons" "x \<in># tree_items s"
      using CELL_priq_item.prems(3) by (auto simp: in_priq_items)
    then have "cmp_le cmp (ITEM s) x" using CELL_priq_item by simp
    then show ?thesis using s CELL_priq_item.prems(2) cmp_le_trans [OF CELL_priq_item.prems(1)]
      by simp blast
  qed
qed

lemma find_min_loop_ok:
  assumes cmp: "total_cmp cmp"
  shows "drop i qs = ps \<Longrightarrow> i_min < i \<Longrightarrow> i \<le> length qs \<Longrightarrow>
    (\<forall>k < i. cmp_le cmp (ITEM (qs ! i_min)) (ITEM (qs ! k))) \<Longrightarrow>
    \<exists>j < length qs. find_min_loop cmp (qs ! i_min) i_min i ps = Some j \<and>
      (\<forall>k < length qs. cmp_le cmp (ITEM (qs ! j)) (ITEM (qs ! k)))"
proof (induction ps arbitrary: i i_min)
  case Nil
  then show ?case by auto
next
  case (Cons p ps)
  have i: "i < length qs" "qs ! i = p" "drop (Suc i) qs = ps"
    using Cons.prems(1) by (auto simp: drop_Suc nth_via_drop simp flip: tl_drop)
      (metis drop_all linorder_not_less list.distinct(1))
  show ?case
  proof (cases "cmp (ITEM (qs ! i_min)) (ITEM p) = CMP_GREATER")
    case True
    then have "cmp_le cmp (ITEM p) (ITEM (qs ! i_min))"
      using cmp_le_total [OF cmp] by (auto simp: cmp_le_def)
    then have "\<forall>k < Suc i. cmp_le cmp (ITEM (qs ! i)) (ITEM (qs ! k))"
      using Cons.prems(4) cmp_le_trans [OF cmp] cmp_le_refl [OF cmp] i(2) by (metis less_Suc_eq)
    from Cons.IH [OF i(3) _ _ this] i True cmp_no_error [OF cmp] show ?thesis by (auto simp: Let_def)
  next
    case False
    then have "\<forall>k < Suc i. cmp_le cmp (ITEM (qs ! i_min)) (ITEM (qs ! k))"
      using Cons.prems(4) i(2) by (auto simp: cmp_le_def less_Suc_eq)
    from Cons.IH [OF i(3) _ _ this] Cons.prems(2) i False cmp_no_error [OF cmp] show ?thesis
      by (auto simp: Let_def)
  qed
qed

lemma find_min_loop_range:
  "find_min_loop cmp t i_min i ps = Some j \<Longrightarrow> i_min < i \<Longrightarrow> j < i + length ps"
  by (induction ps arbitrary: t i_min i) (fastforce simp: Let_def split: if_splits)+

lemma find_min_in_range: "ts \<noteq> [] \<Longrightarrow> find_min cmp ts = Some j \<Longrightarrow> j < length ts"
  by (cases ts) (auto dest: find_min_loop_range)

lemma find_min_ok:
  assumes "total_cmp cmp" and "ts \<noteq> []"
  shows "\<exists>j < length ts. find_min cmp ts = Some j \<and>
    (\<forall>k < length ts. cmp_le cmp (ITEM (ts ! j)) (ITEM (ts ! k)))"
proof -
  obtain p ps where ts: "ts = p # ps" using assms(2) by (cases ts) auto
  from find_min_loop_ok [OF assms(1), of 1 ts ps 0] show ?thesis
    using cmp_le_refl [OF assms(1)] by (simp add: ts)
qed

lemma find_min_least:
  assumes cmp: "total_cmp cmp" and v: "priq_valid cmp ts" and "ts \<noteq> []"
  shows "\<exists>j < length ts. find_min cmp ts = Some j \<and> ITEM (ts ! j) \<in># priq_items ts \<and>
    (\<forall>x \<in># priq_items ts. cmp_le cmp (ITEM (ts ! j)) x)"
proof -
  obtain j where j: "j < length ts" "find_min cmp ts = Some j"
      "\<forall>k < length ts. cmp_le cmp (ITEM (ts ! j)) (ITEM (ts ! k))"
    using find_min_ok [OF cmp assms(3)] by blast
  have "cmp_le cmp (ITEM (ts ! j)) x" if "x \<in># priq_items ts" for x
  proof -
    obtain k where k: "k < length ts" "x \<in># tree_items (ts ! k)"
      using \<open>x \<in># priq_items ts\<close> by (auto simp: in_priq_items in_set_conv_nth)
    then have "cmp_le cmp (ITEM (ts ! k)) x"
      using root_least [OF cmp] v by (simp add: priq_valid_def tree_valid_def)
    then show ?thesis using j(3) k(1) cmp_le_trans [OF cmp] by blast
  qed
  moreover have "ITEM (ts ! j) \<in># priq_items ts"
    using j(1) by (cases "ts ! j") (force simp: in_priq_items in_set_conv_nth)
  ultimately show ?thesis using j by blast
qed

lemma priq_valid_sons: "tree_valid cmp t \<Longrightarrow> priq_valid cmp (rev (SON t))"
  by (cases t) (auto simp: tree_valid_def priq_valid_def simp flip: rev_map)

lemma priq_items_remove_nth:
  assumes "j < length ts"
  shows "priq_items (take j ts @ drop (Suc j) ts) + tree_items (ts ! j) = priq_items ts"
proof -
  have "priq_items ts = priq_items (take j ts @ ts ! j # drop (Suc j) ts)"
    using assms by (simp add: id_take_nth_drop [symmetric])
  then show ?thesis by (simp add: ac_simps)
qed

lemma sorted_wrt_remove_nth:
  assumes "sorted_wrt P xs"
  shows "sorted_wrt P (take j xs @ drop (Suc j) xs)"
proof -
  have "\<forall>x \<in> set (take j xs). \<forall>y \<in> set (drop j xs). P x y"
    using assms sorted_wrt_append [of P "take j xs" "drop j xs"] by simp
  moreover have "set (drop (Suc j) xs) \<subseteq> set (drop j xs)" by (rule set_drop_subset_set_drop) simp
  ultimately show ?thesis using sorted_wrt_drop [OF assms] sorted_wrt_take [OF assms]
    by (auto simp: sorted_wrt_append)
qed

lemma priq_valid_remove_nth:
  "priq_valid cmp ts \<Longrightarrow> priq_valid cmp (take j ts @ drop (Suc j) ts)"
  using sorted_wrt_remove_nth [of "(<)" "map HEIGHT ts" j]
  by (auto simp: priq_valid_def take_map drop_map dest: in_set_takeD in_set_dropD)

lemma priq_delete_ok:
  assumes cmp: "total_cmp cmp" and v: "priq_valid cmp ts" and "ts \<noteq> []"
  shows "\<exists>x ts' ap'. priq_find_min cmp ts = Some (Some x) \<and> priq_delete cmp ts ap = Some (ts', ap') \<and>
    priq_valid cmp ts' \<and> x \<in># priq_items ts \<and> (\<forall>y \<in># priq_items ts. cmp_le cmp x y) \<and>
    priq_items ts' = priq_items ts - {#x#}"
proof -
  obtain j where j: "j < length ts" "find_min cmp ts = Some j" "ITEM (ts ! j) \<in># priq_items ts"
      "\<forall>x \<in># priq_items ts. cmp_le cmp (ITEM (ts ! j)) x"
    using find_min_least [OF assms] by blast
  let ?rest = "rev (SON (ts ! j))" and ?except = "take j ts @ drop (Suc j) ts"
  have items: "priq_items ?rest + priq_items ?except = priq_items ts - {#ITEM (ts ! j)#}"
    unfolding priq_items_remove_nth [OF j(1), symmetric] by (cases "ts ! j") (simp add: ac_simps)
  have tv: "tree_valid cmp (ts ! j)" using v j(1) by (simp add: priq_valid_def)
  have valid: "priq_valid cmp ?rest" "priq_valid cmp ?except"
    using priq_valid_sons [OF tv] priq_valid_remove_nth [OF v] by simp_all
  obtain p ap' where m: "merge cmp ?rest ?except (ap + 4 * j + 4 * length ?rest) = Some (p, ap')"
      "priq_valid cmp p" "priq_items p = priq_items ?rest + priq_items ?except"
    using merge_ok [OF cmp valid] by blast
  have "\<exists>ts' ap'. priq_delete cmp ts ap = Some (ts', ap') \<and> priq_valid cmp ts' \<and>
      priq_items ts' = priq_items ts - {#ITEM (ts ! j)#}"
  proof (cases "?except = [] \<and> ?rest = []")
    case True
    then have "priq_items ts - {#ITEM (ts ! j)#} = {#}"
      unfolding items [symmetric] by (simp only: conjunct1 [OF True] conjunct2 [OF True] priq_items_simps add_0)
    then show ?thesis using True assms(3) j(2) by (auto simp: priq_delete_def Let_def priq_valid_def)
  next
    case False
    then have "priq_delete cmp ts ap = Some (p, ap')"
      using assms(3) j(2) m(1) by (auto simp: priq_delete_def Let_def)
    then show ?thesis using m items by auto
  qed
  then show ?thesis using j assms(3) by (auto simp: priq_find_min_def)
qed

lemma priq_insert_ok:
  assumes "total_cmp cmp" and "priq_valid cmp ts"
  shows "priq_valid cmp (fst (priq_insert cmp ts x ap)) \<and>
    priq_items (fst (priq_insert cmp ts x ap)) = add_mset x (priq_items ts)"
proof -
  have "priq_valid cmp [CELL_priq_item 0 x []]" by (simp add: priq_valid_def tree_valid_def)
  from merge_ok [OF assms this, of "ap + 4"] show ?thesis by (auto simp: priq_insert_def)
qed

lemma priq_merge_ok:
  assumes "total_cmp cmp" and "priq_valid cmp p1" and "priq_valid cmp p2"
  shows "priq_valid cmp (fst (priq_merge cmp p1 p2 ap)) \<and>
    priq_items (fst (priq_merge cmp p1 p2 ap)) = priq_items p1 + priq_items p2"
  using merge_ok [OF assms, of ap] assms(2) by (auto simp: priq_merge_def)


sublocale ordered_items \<subseteq> heap: priority_queue "cmp_le cmp" "[]" "priq_insert cmp" "priq_find_min cmp"
  "priq_delete cmp" "priq_merge cmp" priq_items "priq_valid cmp"
proof
  show "priq_valid cmp []" by (simp add: priq_valid_def)
  show "priq_find_min cmp q = Some None" if "priq_items q = {#}" for q
  proof (cases q)
    case (Cons t ts)
    then show ?thesis using that by (cases t) simp
  qed (simp add: priq_find_min_def)
  show "\<exists>x q' ap'. priq_find_min cmp q = Some (Some x) \<and> priq_delete cmp q ap = Some (q', ap') \<and>
      priq_valid cmp q' \<and> x \<in># priq_items q \<and> (\<forall>y \<in># priq_items q. cmp_le cmp x y) \<and>
      priq_items q' = priq_items q - {#x#}"
    if "priq_valid cmp q" "priq_items q \<noteq> {#}" for q ap
    using priq_delete_ok [OF total that(1)] that(2) by (metis priq_items_simps(1))
qed (simp_all add: priq_insert_ok [OF total] priq_merge_ok [OF total])

context ordered_items
begin

lemma insert_drain_sorts:
  "\<exists>ys ap'. (case fold (\<lambda>x (q, ap). priq_insert cmp q x ap) xs ([], ap) of (q, ap1) \<Rightarrow>
      drain (priq_find_min cmp) (priq_delete cmp) (length xs) q ap1) = Some (ys, ap') \<and>
    sorted_wrt (cmp_le cmp) ys \<and> mset ys = mset xs"
proof -
  obtain q ap1 where f: "fold (\<lambda>x (q, ap). priq_insert cmp q x ap) xs ([], ap) = (q, ap1)" by fastforce
  from heap.inserts_ok [OF heap.null_ok(1), of xs ap] f
  have "priq_valid cmp q" "priq_items q = mset xs" by auto
  from heap.drain_sorts [OF this(1), of "length xs" ap1] this(2) f
  show ?thesis by simp
qed

end

section \<open>Properties\<close>

text \<open>The size of a tree of height \<open>h\<close> is \<open>2 ^ h\<close>.\<close>

lemma sum_pow2: "(\<Sum>i \<leftarrow> rev [0..<h]. (2 :: nat) ^ i) + 1 = 2 ^ h"
  by (induction h) simp_all

lemma binomial_size: "binomial t \<Longrightarrow> size (tree_items t) = 2 ^ HEIGHT t"
proof (induction t)
  case (CELL_priq_item h x sons)
  have "size (priq_items sons) = (\<Sum>s \<leftarrow> sons. size (tree_items s))"
    by (induction sons) simp_all
  also have "\<dots> = (\<Sum>s \<leftarrow> sons. 2 ^ HEIGHT s)"
    using CELL_priq_item by (intro arg_cong [of _ _ sum_list] map_cong) auto
  also have "\<dots> = (\<Sum>i \<leftarrow> map HEIGHT sons. 2 ^ i)" by (simp add: comp_def)
  also have "\<dots> + 1 = 2 ^ h" using CELL_priq_item.prems by (simp only: binomial.simps sum_pow2)
  finally show ?case by simp
qed

text \<open>C5. The heap of \<^verbatim>\<open>priq.c\<close> sorts: inserting any items one by one into the empty queue and then
  taking \<^verbatim>\<open>priq_find_min\<close> and \<^verbatim>\<open>priq_delete\<close> until the queue is empty returns, without a failed
  assertion, exactly the inserted items in the order of the comparison function.\<close>

theorem priq_sorts:
  assumes "total_cmp cmp"
  shows "\<exists>ys ap'. (case fold (\<lambda>x (q, ap). priq_insert cmp q x ap) xs ([], ap) of (q, ap1) \<Rightarrow>
      drain (priq_find_min cmp) (priq_delete cmp) (length xs) q ap1) = Some (ys, ap') \<and>
    sorted_wrt (cmp_le cmp) ys \<and> mset ys = mset xs"
  by (rule ordered_items.insert_drain_sorts) (unfold_locales, rule assms)

theorem priq_sorts_witness:
  "\<exists>ys ap'. (case fold (\<lambda>x (q, ap). priq_insert item_cmp q x ap) [5, 3, 8, 3] ([], 0) of (q, ap1) \<Rightarrow>
      drain (priq_find_min item_cmp) (priq_delete item_cmp) (length [5, 3, 8, 3 :: word_t]) q ap1) = Some (ys, ap') \<and>
    sorted_wrt (cmp_le item_cmp) ys \<and> mset ys = mset [5, 3, 8, 3]"
  using priq_sorts [OF total_item_cmp, of "[5, 3, 8, 3]" 0] .

text \<open>C6. Merging two valid heaps gives a valid heap (strictly increasing heights, so that
  \<^verbatim>\<open>priq_make_assertions\<close> holds, binomial trees in heap order) with the items of both.\<close>

theorem priq_merge_correct:
  assumes "total_cmp cmp" and "priq_valid cmp pq_1" and "priq_valid cmp pq_2"
  shows "priq_valid cmp (fst (priq_merge cmp pq_1 pq_2 ap)) \<and>
    priq_make_assertions (fst (priq_merge cmp pq_1 pq_2 ap)) \<and>
    priq_items (fst (priq_merge cmp pq_1 pq_2 ap)) = priq_items pq_1 + priq_items pq_2"
proof -
  have "priq_make_assertions ts" if "priq_valid cmp ts" for ts
    using that by (induction ts rule: priq_make_assertions.induct) (auto simp: priq_valid_def)
  then show ?thesis using priq_merge_ok [OF assms] by blast
qed

theorem priq_merge_correct_witness:
  "priq_items (fst (priq_merge item_cmp [CELL_priq_item 0 7 []]
      [CELL_priq_item 0 2 [], CELL_priq_item 1 1 [CELL_priq_item 0 9 []]] 0)) = {#7, 2, 1, 9#}"
  using priq_merge_correct [OF total_item_cmp, of "[CELL_priq_item 0 7 []]"
      "[CELL_priq_item 0 2 [], CELL_priq_item 1 1 [CELL_priq_item 0 9 []]]" 0]
  by (simp add: priq_valid_def tree_valid_def cmp_le_def item_cmp_def)

text \<open>Linking and merging keep the items whatever the comparison function answers.\<close>

lemma link_trees_items: "link_trees cmp t1 t2 = Some t \<Longrightarrow> tree_items t = tree_items t1 + tree_items t2"
  by (cases t1; cases t2) (auto simp: link_trees_def Let_def split: if_splits)

lemma merge_loop_items:
  "merge_loop cmp pq_1 pq_2 acc ap = Some (p1, p2, acc', ap') \<Longrightarrow> (p1 = [] \<or> p2 = []) \<and>
    priq_items p1 + priq_items p2 + priq_items acc' = priq_items pq_1 + priq_items pq_2 + priq_items acc"
proof (induction "length pq_1 + length pq_2" arbitrary: pq_1 pq_2 acc ap rule: less_induct)
  case less
  show ?case
  proof (cases "pq_1 = [] \<or> pq_2 = []")
    case True
    then show ?thesis using less.prems by (auto simp: merge_loop_done)
  next
    case False
    then obtain t1 r1 t2 r2 where p: "pq_1 = t1 # r1" "pq_2 = t2 # r2" by (auto simp: neq_Nil_conv)
    note eqn = trans [OF merge_loop_Cons [of cmp t1 r1 t2 r2 acc ap, symmetric] less.prems [unfolded p]]
    show ?thesis
    proof (cases "r1 \<noteq> [] \<and> HEIGHT t1 = HEIGHT (hd r1)")
      case True
      then obtain t1' r t where r: "r1 = t1' # r" "link_trees cmp t1 t1' = Some t"
          "merge_loop cmp (t # r) pq_2 acc (ap + 4) = Some (p1, p2, acc', ap')"
        using eqn by (cases r1) (auto simp: p split: option.splits)
      from less.hyps [OF _ r(3)] show ?thesis by (simp add: p r(1) link_trees_items [OF r(2)] ac_simps)
    next
      case no: False
      note eqn = eqn [unfolded if_not_P [OF no]]
      consider (lt) "HEIGHT t1 < HEIGHT t2" | (gt) "HEIGHT t1 > HEIGHT t2" | (eq) "HEIGHT t1 = HEIGHT t2"
        by linarith
      then show ?thesis
      proof cases
        case lt
        with eqn have "merge_loop cmp r1 pq_2 (acc @ [t1]) (ap + 4) = Some (p1, p2, acc', ap')" by (simp add: p)
        from less.hyps [OF _ this] show ?thesis by (simp add: p ac_simps)
      next
        case gt
        with eqn have "merge_loop cmp pq_1 r2 (acc @ [t2]) (ap + 4) = Some (p1, p2, acc', ap')" by (simp add: p)
        from less.hyps [OF _ this] show ?thesis by (simp add: p ac_simps)
      next
        case eq
        then obtain t where t: "link_trees cmp t1 t2 = Some t"
            "merge_loop cmp (t # r2) r1 acc (ap + 8) = Some (p1, p2, acc', ap') \<or>
             merge_loop cmp (t # r1) r2 acc (ap + 8) = Some (p1, p2, acc', ap')"
          using eqn by (auto split: option.splits if_splits)
        from t(2) show ?thesis using less.hyps [of "t # r2" r1] less.hyps [of "t # r1" r2]
          by (auto simp: p link_trees_items [OF t(1)] ac_simps)
      qed
    qed
  qed
qed

lemma carry_loop_items: "carry_loop cmp ts ap = Some (ts', ap') \<Longrightarrow> priq_items ts' = priq_items ts"
proof (induction "length ts" arbitrary: ts ap rule: less_induct)
  case less
  show ?case
  proof (cases "\<exists>t1 t2 r. ts = t1 # t2 # r \<and> HEIGHT t1 = HEIGHT t2")
    case True
    then obtain t1 t2 r where ts: "ts = t1 # t2 # r" "HEIGHT t1 = HEIGHT t2" by blast
    then obtain t where t: "link_trees cmp t1 t2 = Some t" "carry_loop cmp (t # r) (ap + 4) = Some (ts', ap')"
      using less.prems by (auto simp: carry_loop.simps [of cmp "t1 # t2 # r" ap] split: option.splits)
    from less.hyps [OF _ t(2)] show ?thesis by (simp add: ts link_trees_items [OF t(1)] ac_simps)
  next
    case False
    then have "carry_loop cmp ts ap = Some (ts, ap)"
      by (subst carry_loop.simps) (auto split: list.split)
    then show ?thesis using less.prems by simp
  qed
qed

lemma merge_items:
  assumes "merge cmp pq_1 pq_2 ap = Some (p, ap')"
  shows "priq_items p = priq_items pq_1 + priq_items pq_2"
proof (cases "pq_1 = [] \<or> pq_2 = []")
  case True
  then show ?thesis using assms by (auto simp: merge_def split: if_splits)
next
  case False
  then obtain p1 p2 acc ap1 where m: "merge_loop cmp pq_1 pq_2 [] ap = Some (p1, p2, acc, ap1)"
      "(if p1 = [] then Some (acc @ p2, ap1)
        else do { (rest, ap2) \<leftarrow> carry_loop cmp p1 ap1; Some (acc @ rest, ap2) }) = Some (p, ap')"
    using assms by (auto simp: merge_def bind_simps)
  from merge_loop_items [OF m(1)] m(2) show ?thesis
    by (auto simp: bind_simps ac_simps split: if_splits dest: carry_loop_items)
qed

text \<open>C7. No comparison function can make the heap lose or duplicate an item, whatever it answers
  and however often it reports \<open>CMP_ERROR\<close>: \<^verbatim>\<open>priq_insert\<close> returns a queue with exactly the new
  item added, or the queue of the caller with every allocated word given back; and
  \<^verbatim>\<open>priq_delete\<close>, where its assertion on the comparison holds, removes exactly the item that
  \<^verbatim>\<open>priq_find_min\<close> reports, or returns the queue of the caller with the words given back.\<close>

theorem priq_any_comparison:
  "(priq_insert cmp pq x ap = (pq, ap) \<or>
     priq_items (fst (priq_insert cmp pq x ap)) = add_mset x (priq_items pq)) \<and>
   (case priq_delete cmp pq ap of
      None \<Rightarrow> priq_find_min cmp pq = None
    | Some (pq', ap') \<Rightarrow>
        (case priq_find_min cmp pq of
           None \<Rightarrow> False
         | Some None \<Rightarrow> pq = [] \<and> pq' = []
         | Some (Some y) \<Rightarrow> (pq', ap') = (pq, ap) \<or> add_mset y (priq_items pq') = priq_items pq))"
  (is "?ins \<and> ?del")
proof
  show ?ins by (auto simp: priq_insert_def split: option.split dest: merge_items)
  show ?del
  proof (cases "pq = [] \<or> find_min cmp pq = None")
    case True
    then show ?thesis by (auto simp: priq_delete_def priq_find_min_def)
  next
    case False
    then obtain j where j: "pq \<noteq> []" "find_min cmp pq = Some j" by auto
    then have "j < length pq" by (rule find_min_in_range)
    note rm = priq_items_remove_nth [OF this]
    obtain h y sons where t: "pq ! j = CELL_priq_item h y sons" by (cases "pq ! j")
    let ?except = "take j pq @ drop (Suc j) pq"
    show ?thesis
    proof (cases "merge cmp (rev sons) ?except (ap + 4 * j + 4 * length sons)")
      case None
      then show ?thesis using j t rm by (auto simp: priq_delete_def priq_find_min_def Let_def ac_simps)
    next
      case (Some r)
      obtain p ap' where r: "r = (p, ap')" by fastforce
      have "priq_items p = priq_items sons + priq_items ?except" using merge_items Some r by fastforce
      then show ?thesis using j t rm Some r by (auto simp: priq_delete_def priq_find_min_def Let_def ac_simps)
    qed
  qed
qed

end
