(* ===== verification/Bitops.thy ===== *)
theory Bitops
  imports Shades_Prelude
begin

text \<open>
  The word operations of \<^verbatim>\<open>bitops.h\<close> and \<^verbatim>\<open>bitops.c\<close>: position of the highest and
  of the lowest set bit by table lookup, the integer logarithm, the population count and the byte
  swap, each compared with its reference meaning on the bits of the word.
\<close>

section \<open>The tables and the routines\<close>

definition highest_bit_index :: "nat list" where
  "highest_bit_index =
    [0, 0] @ replicate 2 1 @ replicate 4 2 @ replicate 8 3 @ replicate 16 4 @
    replicate 32 5 @ replicate 64 6 @ replicate 128 7"

definition highest_bit :: "word_t \<Rightarrow> nat" where
  "highest_bit x0 =
    (let (n1, x1) = (if drop_bit 16 x0 \<noteq> 0 then (16, drop_bit 16 x0) else (0, x0));
         (n2, x2) = (if drop_bit 8 x1 \<noteq> 0 then (n1 + 8, drop_bit 8 x1) else (n1, x1))
     in n2 + highest_bit_index ! unat x2)"

definition ilog2 :: "word_t \<Rightarrow> nat" where
  "ilog2 x0 =
    (if x0 = 0 then 0
     else
       let (n1, x1) = (if drop_bit 16 x0 \<noteq> 0 then (16, drop_bit 16 x0) else (1, x0));
           (n2, x2) = (if drop_bit 8 x1 \<noteq> 0 then (n1 + 8, drop_bit 8 x1) else (n1, x1))
       in n2 + highest_bit_index ! unat x2)"

definition lowest_bit_row :: "nat \<Rightarrow> nat list" where
  "lowest_bit_row k = [k, 0, 1, 0, 2, 0, 1, 0, 3, 0, 1, 0, 2, 0, 1, 0]"

definition lowest_bit_index :: "nat list" where
  "lowest_bit_index = concat (map lowest_bit_row [0, 4, 5, 4, 6, 4, 5, 4, 7, 4, 5, 4, 6, 4, 5, 4])"

definition lowest_bit :: "word_t \<Rightarrow> nat" where
  "lowest_bit x0 =
    (let (n1, x1) = (if push_bit 16 x0 = 0 then (16, drop_bit 16 x0) else (0, x0));
         (n2, x2) = (if push_bit 8 x1 = 0 then (n1 + 8, drop_bit 8 x1) else (n1, x1))
     in n2 + lowest_bit_index ! unat (x2 AND 0xFF))"

definition count_bits :: "word_t \<Rightarrow> word_t" where
  "count_bits x0 =
    (let x1 = x0 - (drop_bit 1 x0 AND 0xDB6DB6DB) - (drop_bit 2 x0 AND 0x49249249);
         x2 = (x1 + drop_bit 3 x1) AND 0xC71C71C7;
         x3 = x2 + drop_bit 6 x2
     in (x3 + drop_bit 12 x3 + drop_bit 24 x3) AND 0x3F)"

definition swap_bytes :: "word_t \<Rightarrow> word_t" where
  "swap_bytes x0 =
    (let m = 0xFF00FF;
         x1 = push_bit 8 (x0 AND m) OR (drop_bit 8 x0 AND m)
     in push_bit 16 x1 OR drop_bit 16 x1)"

function DO_ILOG2_from :: "nat \<Rightarrow> word_t \<Rightarrow> nat" where
  "DO_ILOG2_from k x =
    (if 32 \<le> k then 32 else if x < push_bit k 1 then k else DO_ILOG2_from (Suc k) x)"
  by pat_completeness auto
termination
  by (relation "measure (\<lambda>(k, x). 32 - k)") auto

declare DO_ILOG2_from.simps [simp del]

definition DO_ILOG2 :: "word_t \<Rightarrow> nat" where
  "DO_ILOG2 x = DO_ILOG2_from 0 x"

section \<open>The highest set bit and the logarithm\<close>

lemma highest_bit_index_table:
  "list_all (\<lambda>i. 2 ^ (highest_bit_index ! i) \<le> i \<and> i < 2 * 2 ^ (highest_bit_index ! i)) [1..<256]"
  by code_simp

lemma highest_bit_index_bounds:
  assumes "0 < i" and "i < 256"
  shows "2 ^ (highest_bit_index ! i) \<le> i \<and> i < 2 * 2 ^ (highest_bit_index ! i)"
  using highest_bit_index_table assms unfolding list_all_iff by (simp del: upt_rec_numeral)

lemma unat_drop: "unat (drop_bit k (x :: word_t)) = unat x div 2 ^ k"
  unfolding unat_drop_bit_eq by (rule drop_bit_eq_div)

lemma drop_bit_zero_iff: "drop_bit k (x :: word_t) = 0 \<longleftrightarrow> unat x < 2 ^ k"
  using unat_drop [of k x] by (metis div_less_iff_less_mult div_eq_0_iff  unat_eq_zero power_not_zero zero_neq_numeral)

text \<open>Both routines shift the word right by a multiple of eight, then look the rest up.\<close>

lemma shifted_highest_bit:
  assumes "0 < n div 2 ^ k" and "n div 2 ^ k < 256"
  shows "2 ^ (k + highest_bit_index ! (n div 2 ^ k)) \<le> n \<and> n < 2 * 2 ^ (k + highest_bit_index ! (n div 2 ^ k))"
proof -
  let ?t = "highest_bit_index ! (n div 2 ^ k)"
  have t: "2 ^ ?t \<le> n div 2 ^ k" "n div 2 ^ k < 2 * 2 ^ ?t"
    using highest_bit_index_bounds [OF assms] by auto
  have "2 ^ k * 2 ^ ?t \<le> 2 ^ k * (n div 2 ^ k)" using t(1) by simp
  then have "2 ^ k * 2 ^ ?t \<le> n" using times_div_less_eq_dividend [of "2 ^ k" n] by linarith
  moreover have "n < 2 * 2 ^ ?t * 2 ^ k" using t(2) by (simp add: div_less_iff_less_mult)
  ultimately show ?thesis by (simp add: power_add ac_simps)
qed

lemma highest_bit_ok:
  assumes "x \<noteq> 0"
  shows "2 ^ highest_bit x \<le> unat x \<and> unat x < 2 * 2 ^ highest_bit x"
proof -
  have pos: "0 < unat x" using assms by (simp add: unat_gt_0)
  have lt: "unat x < 2 ^ 32" using unsigned_less [of x] by simp
  note sh = shifted_highest_bit [of "unat x"]
  consider "2 ^ 24 \<le> unat x" | "2 ^ 16 \<le> unat x" "unat x < 2 ^ 24" | "2 ^ 8 \<le> unat x" "unat x < 2 ^ 16" | "unat x < 2 ^ 8"
    by linarith
  then show ?thesis
  proof cases
    case 1
    then have "highest_bit x = 24 + highest_bit_index ! (unat x div 2 ^ 24)"
      by (simp add: highest_bit_def drop_bit_zero_iff unat_drop div_mult2_eq [symmetric] less_mult_imp_div_less)
    then show ?thesis using sh [of 24] 1 lt by (simp add: div_greater_zero_iff less_mult_imp_div_less)
  next
    case 2
    then have "highest_bit x = 16 + highest_bit_index ! (unat x div 2 ^ 16)"
      by (simp add: highest_bit_def drop_bit_zero_iff unat_drop div_mult2_eq [symmetric] less_mult_imp_div_less)
    then show ?thesis using sh [of 16] 2 by (simp add: div_greater_zero_iff less_mult_imp_div_less)
  next
    case 3
    then have "highest_bit x = 8 + highest_bit_index ! (unat x div 2 ^ 8)"
      by (simp add: highest_bit_def drop_bit_zero_iff unat_drop)
    then show ?thesis using sh [of 8] 3 by (simp add: div_greater_zero_iff less_mult_imp_div_less)
  next
    case 4
    then have "highest_bit x = highest_bit_index ! unat x"
      by (simp add: highest_bit_def drop_bit_zero_iff)
    then show ?thesis using sh [of 0] 4 pos by simp
  qed
qed

lemma swap_bytes_bit:
  assumes "n < 32"
  shows "bit (swap_bytes x) n = bit x (8 * (3 - n div 8) + n mod 8)"
proof -
  have "\<forall>n \<in> set [0..<32]. bit (swap_bytes x) n = bit x (8 * (3 - n div 8) + n mod 8)"
    by (simp add: swap_bytes_def Let_def bit_simps upt_conv_Cons) (simp add: eval_nat_numeral)
  then show ?thesis using assms by simp
qed

lemma ilog2_highest: "x \<noteq> 0 \<Longrightarrow> ilog2 x = (if unat x < 2 ^ 16 then 1 else 0) + highest_bit x"
  by (simp add: ilog2_def highest_bit_def drop_bit_zero_iff split: if_splits)

lemma unat_push_one: "k < 32 \<Longrightarrow> unat (push_bit k (1 :: word_t)) = 2 ^ k"
  by (subst unsigned_push_bit_eq) simp

lemma DO_ILOG2_from_ok:
  assumes "2 ^ h \<le> unat x" and "unat x < 2 * 2 ^ h" and "k \<le> Suc h" and "h < 32"
  shows "DO_ILOG2_from k x = Suc h"
  using assms(3)
proof (induction "Suc h - k" arbitrary: k)
  case 0
  then have "k = Suc h" by simp
  moreover have "x < push_bit k 1" if "\<not> 32 \<le> k"
    unfolding word_less_nat_alt using unat_push_one [of k] that assms(2) \<open>k = Suc h\<close> by simp
  ultimately show ?case using assms(4) by (subst DO_ILOG2_from.simps) (auto simp del: push_bit_of_1 push_bit_Suc)
next
  case (Suc n)
  have "(2 :: nat) ^ k \<le> 2 ^ h" by (rule power_increasing) (use Suc.hyps(2) in simp_all)
  then have "2 ^ k \<le> unat x" using assms(1) by linarith
  then have "\<not> x < push_bit k 1" using Suc assms(4) by (simp add: word_less_nat_alt unat_push_one del: push_bit_of_1)
  then show ?case using Suc assms(4) by (subst DO_ILOG2_from.simps) simp
qed


section \<open>The lowest set bit\<close>

lemma lowest_bit_index_table:
  "list_all (\<lambda>i. list_all (\<lambda>l. i mod 2 ^ Suc l = 2 ^ l \<longrightarrow> lowest_bit_index ! i = l) [0..<8]) [0..<256]"
  by code_simp

lemma lowest_bit_index_ok: "i < 256 \<Longrightarrow> l < 8 \<Longrightarrow> i mod 2 ^ Suc l = 2 ^ l \<Longrightarrow> lowest_bit_index ! i = l"
  using lowest_bit_index_table unfolding list_all_iff by (simp del: upt_rec_numeral)

lemma push_bit_zero_iff:
  assumes "k \<le> 32"
  shows "push_bit k (x :: word_t) = 0 \<longleftrightarrow> unat x mod 2 ^ (32 - k) = 0"
proof -
  have "unat (push_bit k x) = 2 ^ k * unat x mod 2 ^ (k + (32 - k))"
    unfolding unsigned_push_bit_eq le_add_diff_inverse [OF assms]
    by (simp add: take_bit_eq_mod push_bit_eq_mult mult.commute)
  also have "\<dots> = 2 ^ k * (unat x mod 2 ^ (32 - k))"
    by (simp only: power_add mult_mod_right)
  finally have e: "unat (push_bit k x) = 2 ^ k * (unat x mod 2 ^ (32 - k))" .
  have "push_bit k x = 0 \<longleftrightarrow> unat (push_bit k x) = 0" by (simp add: unat_eq_zero)
  then show ?thesis unfolding e by simp
qed

lemma lowest_set_mod:
  assumes "bit (x :: word_t) l" and "\<forall>i < l. \<not> bit x i"
  shows "unat x mod 2 ^ Suc l = 2 ^ l"
proof -
  have "take_bit l (unat x) = 0" by (rule bit_eqI) (use assms(2) in \<open>auto simp: bit_simps\<close>)
  moreover have "bit (unat x) l" using assms(1) by (simp add: bit_simps)
  ultimately have "take_bit (Suc l) (unat x) = 2 ^ l" by (simp add: take_bit_Suc_from_most)
  then show ?thesis by (simp only: take_bit_eq_mod)
qed

lemma lowest_mod_cases:
  assumes "(n :: nat) mod 2 ^ Suc l = 2 ^ l"
  shows "k \<le> l \<Longrightarrow> n mod 2 ^ k = 0" and "l < k \<Longrightarrow> n mod 2 ^ k \<noteq> 0"
    and "l < k \<Longrightarrow> n mod 2 ^ k mod 2 ^ Suc l = 2 ^ l"
    and "k \<le> l \<Longrightarrow> n div 2 ^ k mod 2 ^ Suc (l - k) = 2 ^ (l - k)"
proof -
  have dvd: "(2 :: nat) ^ a dvd 2 ^ b" if "a \<le> b" for a b using that by (rule le_imp_power_dvd)
  show "n mod 2 ^ k = 0" if "k \<le> l"
    using mod_mod_cancel [OF dvd, of k "Suc l" n] assms that dvd [of k l] by (simp add: mod_0_imp_dvd)
  show c: "n mod 2 ^ k mod 2 ^ Suc l = 2 ^ l" if "l < k"
    using mod_mod_cancel [OF dvd, of "Suc l" k n] assms that by simp
  show "n mod 2 ^ k \<noteq> 0" if "l < k" using c [OF that] by (cases "n mod 2 ^ k = 0") simp_all
  show "n div 2 ^ k mod 2 ^ Suc (l - k) = 2 ^ (l - k)" if "k \<le> l"
  proof -
    have "n div 2 ^ k mod 2 ^ Suc (l - k) = n mod 2 ^ (k + Suc (l - k)) div 2 ^ k"
      using drop_bit_take_bit [of k "k + Suc (l - k)" n] by (simp add: take_bit_eq_mod drop_bit_eq_div)
    then show ?thesis using assms that by (simp add: power_diff)
  qed
qed


lemma unat_and_byte: "unat ((x :: word_t) AND 0xFF) = unat x mod 2 ^ 8"
proof -
  have "x AND 0xFF = take_bit 8 x" by (simp add: take_bit_eq_mask mask_eq_exp_minus_1)
  show ?thesis unfolding \<open>x AND 0xFF = take_bit 8 x\<close> unsigned_take_bit_eq by (rule take_bit_eq_mod)
qed

lemma lowest_bit_ok:
  assumes "bit (x :: word_t) l" and "\<forall>i < l. \<not> bit x i"
  shows "lowest_bit x = (if l mod 16 < 8 then l else 16 * (l div 16))"
proof -
  note m = lowest_set_mod [OF assms]
  have l32: "l < 32" using assms(1) bit_imp_le_length by force
  have lt: "unat x < 2 ^ 32" using unsigned_less [of x] by simp
  show ?thesis
  proof (cases "l < 16")
    case True
    then have "push_bit 16 x \<noteq> 0" "push_bit 8 x \<noteq> 0"
      using lowest_mod_cases(2) [OF m, of 16] lowest_mod_cases(2) [OF m, of 24] by (simp_all add: push_bit_zero_iff)
    then have "lowest_bit x = lowest_bit_index ! (unat x mod 2 ^ 8)"
      by (simp add: lowest_bit_def unat_and_byte)
    then show ?thesis using True lowest_bit_index_ok [OF _ _ lowest_mod_cases(3) [OF m, of 8]] lowest_mod_cases(1) [OF m, of 8]
      by (cases "l < 8") (simp_all add: lowest_bit_index_def lowest_bit_row_def)
  next
    case False
    let ?m = "unat x div 2 ^ 16"
    have m': "?m mod 2 ^ Suc (l - 16) = 2 ^ (l - 16)" using lowest_mod_cases(4) [OF m, of 16] False by simp
    have "push_bit 16 x = 0" using lowest_mod_cases(1) [OF m, of 16] False by (simp add: push_bit_zero_iff)
    moreover have "push_bit 8 (drop_bit 16 x) \<noteq> 0"
      using lowest_mod_cases(2) [OF m', of 24] l32 by (simp add: push_bit_zero_iff unat_drop)
    ultimately have "lowest_bit x = 16 + lowest_bit_index ! (?m mod 2 ^ 8)"
      by (simp add: lowest_bit_def unat_and_byte unat_drop)
    moreover have "l mod 16 = l - 16" "l div 16 = 1" using False l32 by (simp_all add: le_mod_geq le_div_geq)
    ultimately show ?thesis using False lowest_bit_index_ok [OF _ _ lowest_mod_cases(3) [OF m', of 8]] lowest_mod_cases(1) [OF m', of 8]
      by (cases "l - 16 < 8") (simp_all add: lowest_bit_index_def lowest_bit_row_def)
  qed
qed

section \<open>The population count\<close>
lemma unat_less_2p32: "unat (x :: word_t) < 2 ^ 32"
  using unsigned_less [of x] by simp

text \<open>Applying a function to each of the \<open>k\<close> lowest digits in base \<open>2 ^ w\<close>.\<close>

fun digit_map :: "nat \<Rightarrow> (nat \<Rightarrow> nat) \<Rightarrow> nat \<Rightarrow> nat \<Rightarrow> nat" where
  "digit_map w f 0 n = 0"
| "digit_map w f (Suc k) n = f (n mod 2 ^ w) + 2 ^ w * digit_map w f k (n div 2 ^ w)"

lemma eight: "(2 :: nat) ^ 3 = 8" by simp

lemma sixtyfour: "(2 :: nat) ^ 6 = 64" by simp

lemma and_digit:
  assumes "(a :: nat) < 2 ^ w" and "c < 2 ^ w"
  shows "(a + 2 ^ w * b) AND (c + 2 ^ w * d) = (a AND c) + 2 ^ w * (b AND d)"
proof -
  let ?z = "(a + 2 ^ w * b) AND (c + 2 ^ w * d)"
  have "?z = take_bit w ?z + 2 ^ w * drop_bit w ?z"
    by (simp add: take_bit_eq_mod drop_bit_eq_div)
  also have "\<dots> = (a AND c) + 2 ^ w * (b AND d)"
    unfolding take_bit_and drop_bit_and using assms by (simp add: take_bit_eq_mod drop_bit_eq_div)
  finally show ?thesis .
qed

lemma and_small: "(a :: nat) AND 1 = a mod 2" "(a :: nat) AND 3 = a mod 4" "(a :: nat) AND 7 = a mod 8"
  using take_bit_eq_mask [of 1 a] take_bit_eq_mask [of 2 a] take_bit_eq_mask [of 3 a]
  by (simp_all add: take_bit_eq_mod mask_eq_exp_minus_1)

lemma and_digit_Suc:
  assumes "c < 8"
  shows "n AND digit_map 3 (\<lambda>_. c) (Suc k) m =
    (n mod 8 AND c) + 8 * ((n div 8) AND digit_map 3 (\<lambda>_. c) k (m div 8))"
  using and_digit [of "n mod 8" 3 c "n div 8"] assms by simp

lemma and_half: "(n div 2) AND digit_map 3 (\<lambda>_. 3) k m = digit_map 3 (\<lambda>d. d div 2) k n"
proof (induction k arbitrary: n m)
  case (Suc k)
  have "n div 2 mod 8 AND 3 = n mod 8 div 2" 
    using drop_bit_take_bit [of 1 3 n] mod_mod_cancel [of 4 8 "n div 2"]
    by (simp add: and_small take_bit_eq_mod drop_bit_eq_div)
  moreover have "n div 2 div 8 = n div 8 div 2" by (simp flip: div_mult2_eq)
  ultimately show ?case using Suc.IH [of "n div 8" "m div 8"] by (subst and_digit_Suc) simp_all
qed simp

lemma and_quarter: "(n div 4) AND digit_map 3 (\<lambda>_. 1) k m = digit_map 3 (\<lambda>d. d div 4) k n"
proof (induction k arbitrary: n m)
  case (Suc k)
  have "n div 4 mod 8 AND 1 = n mod 8 div 4" 
    using drop_bit_take_bit [of 2 3 n] mod_mod_cancel [of 2 8 "n div 4"]
    by (simp add: and_small take_bit_eq_mod drop_bit_eq_div)
  moreover have "n div 4 div 8 = n div 8 div 4" by (simp flip: div_mult2_eq)
  ultimately show ?case using Suc.IH [of "n div 8" "m div 8"] by (subst and_digit_Suc) (simp_all del: One_nat_def)
qed simp

definition pop3 :: "nat \<Rightarrow> nat" where
  "pop3 d = of_bool (bit d 0) + of_bool (bit d 1) + of_bool (bit d 2)"

lemma pop3_digit: "d < 8 \<Longrightarrow> pop3 d + d div 2 + d div 4 = d"
proof -
  assume "d < 8"
  then have "d \<in> {0, 1, 2, 3, 4, 5, 6, 7}" by auto
  then show ?thesis by (auto simp: pop3_def bit_iff_odd)
qed

lemma pop3_le: "pop3 d \<le> 3"
  by (simp add: pop3_def)

lemma pop3_sum: "n < 8 ^ k \<Longrightarrow>
  digit_map 3 pop3 k n + digit_map 3 (\<lambda>d. d div 2) k n + digit_map 3 (\<lambda>d. d div 4) k n = n"
proof (induction k arbitrary: n)
  case (Suc k)
  have "n div 8 < 8 ^ k" using Suc.prems by (simp add: less_mult_imp_div_less ac_simps)
  from Suc.IH [OF this] show ?case using pop3_digit [of "n mod 8"] mod_mult_div_eq [of n 8]
    by (simp only: digit_map.simps eight) linarith
qed simp

lemma digit_pair: "n mod 64 mod 8 = n mod (8 :: nat)" "n mod 64 div 8 = n div (8 :: nat) mod 8"
  using mod_mod_cancel [of 8 64 n] drop_bit_take_bit [of 3 6 n] by (simp_all add: take_bit_eq_mod drop_bit_eq_div)

lemma digit_map_const: "2 ^ w * digit_map w (\<lambda>_. c) k m + c = digit_map w (\<lambda>_. c) k m + c * (2 ^ w) ^ k"
proof (induction k arbitrary: m)
  case (Suc k)
  let ?D = "digit_map w (\<lambda>_. c) k (m div 2 ^ w)"
  have "2 ^ w * digit_map w (\<lambda>_. c) (Suc k) m + c = c + 2 ^ w * (2 ^ w * ?D + c)" by (simp add: algebra_simps)
  also have "\<dots> = c + 2 ^ w * (?D + c * (2 ^ w) ^ k)" by (simp only: Suc.IH)
  finally show ?case by (simp add: algebra_simps)
qed simp

lemma add_shifted:
  assumes "(p0 :: nat) \<le> 3"
  shows "(p0 + 8 * p1 + 64 * x) + (p0 + 8 * p1 + 64 * x) div 8 = (p0 + p1) + 8 * (p1 + x mod 8) + 64 * (x + x div 8)"
proof -
  have "(p0 + 8 * (p1 + 8 * x)) div 8 = p1 + 8 * x" using assms by simp
  moreover obtain q r where x: "x = 8 * q + r" "r < 8" using div_mult_mod_eq [of x 8] by (metis mod_less_divisor mult.commute zero_less_numeral)
  ultimately show ?thesis by (simp add: algebra_simps)
qed

text \<open>Neighbouring digits are added without a carry.\<close>

lemma add_digits:
  assumes "\<And>d. g d \<le> 3"
  shows "(digit_map 3 g (2 * k) n + digit_map 3 g (2 * k) n div 8) AND digit_map 6 (\<lambda>_. 7) k m =
    digit_map 6 (\<lambda>e. g (e mod 8) + g (e div 8)) k n"
proof (induction k arbitrary: n m)
  case (Suc k)
  let ?x = "digit_map 3 g (2 * k) (n div 64)"
  let ?p0 = "g (n mod 8)" and ?p1 = "g (n div 8 mod 8)"
  have x: "digit_map 3 g (2 * Suc k) n = ?p0 + 8 * ?p1 + 64 * ?x"
    by (simp add: div_mult2_eq [symmetric])
  have d2: "?x mod 8 \<le> 3"
  proof (cases k)
    case (Suc j)
    then have "?x = g (n div 64 mod 8) + 8 * digit_map 3 g (Suc (2 * j)) (n div 64 div 8)" by simp
    then show ?thesis using assms [of "n div 64 mod 8"] by presburger
  qed simp
  let ?y = "?p0 + 8 * ?p1 + 64 * ?x"
  have p: "?p0 \<le> 3" "?p1 \<le> 3" by (rule assms)+
  have "?y + ?y div 8 = (?p0 + ?p1) + 8 * (?p1 + ?x mod 8) + 64 * (?x + ?x div 8)"
    using p(1) by (rule add_shifted)
  then have y: "?y + ?y div 8 = (?p0 + ?p1) + 8 * (?p1 + ?x mod 8) + 2 ^ 6 * (?x + ?x div 8)"
    by (simp only: sixtyfour)
  have "(?y + ?y div 8) AND digit_map 6 (\<lambda>_. 7) (Suc k) m =
    (((?p0 + ?p1) + 8 * (?p1 + ?x mod 8)) AND 7) + 2 ^ 6 * ((?x + ?x div 8) AND digit_map 6 (\<lambda>_. 7) k (m div 2 ^ 6))"
    unfolding digit_map.simps y by (rule and_digit) (use p d2 in simp_all)
  moreover have "((?p0 + ?p1) + 8 * (?p1 + ?x mod 8)) AND 7 = ?p0 + ?p1"
    unfolding and_small mod_mult_self2 using p by simp
  ultimately show ?case unfolding x using Suc.IH [of "n div 64" "m div 64"] by (simp add: digit_pair)
qed simp


text \<open>The number of set bits among the lowest \<open>k\<close>.\<close>

lemma pop3_mod: "pop3 (n mod 8) = of_bool (bit n 0) + of_bool (bit n 1) + of_bool (bit n 2)"
proof -
  have "bit (n mod 8) i = bit n i" if "i < 3" for i
    using bit_take_bit_iff [of 3 n i] that by (simp add: take_bit_eq_mod)
  from this [of 0] this [of 1] this [of 2] show ?thesis by (simp only: pop3_def)
qed

lemma sum_lessThan_add: "(\<Sum>i < a + (b :: nat). f i :: nat) = (\<Sum>i < a. f i) + (\<Sum>i < b. f (a + i))"
  by (induction b) simp_all

lemma set_bits_6:
  "(\<Sum>i < 6 * Suc k. of_bool (bit n i) :: nat) =
    pop3 (n mod 64 mod 8) + pop3 (n mod 64 div 8) + (\<Sum>i < 6 * k. of_bool (bit (n div 64) i))"
proof -
  have "(\<Sum>i < 6 + 6 * k. of_bool (bit n i) :: nat) = (\<Sum>i < 6. of_bool (bit n i)) + (\<Sum>i < 6 * k. of_bool (bit n (6 + i)))"
    by (rule sum_lessThan_add)
  moreover have "bit (n div 64) i = bit n (6 + i)" for i
    using bit_drop_bit_eq [of 6 n] by (simp add: drop_bit_eq_div fun_eq_iff)
  moreover note digit_pair [of n]
  moreover have "bit (n div 8) i = bit n (3 + i)" for i
    using bit_drop_bit_eq [of 3 n] by (simp add: drop_bit_eq_div fun_eq_iff)
  moreover have "(\<Sum>i < 6. of_bool (bit n i) :: nat) = of_bool (bit n 0) + of_bool (bit n 1) + of_bool (bit n 2) +
      of_bool (bit n (3 + 0)) + of_bool (bit n (3 + 1)) + of_bool (bit n (3 + 2))"
    by (simp add: numeral_eq_Suc)
  ultimately show ?thesis by (simp only: pop3_mod mult_Suc_right)
qed


lemma digit_map_set_bits:
  "(\<Sum>i < 6 * k. of_bool (bit n i)) = (\<Sum>i < k. (\<lambda>e. pop3 (e mod 8) + pop3 (e div 8)) (n div 64 ^ i mod 64))"
proof (induction k arbitrary: n)
  case (Suc k)
  show ?case unfolding set_bits_6 Suc.IH sum.lessThan_Suc_shift by (simp add: div_mult2_eq)
qed simp

lemma card_set_bits: "card {i. bit (x :: word_t) i} = (\<Sum>i < 36. of_bool (bit (unat x) i))"
proof -
  have "{i. bit x i} = {i \<in> {..<36}. bit (unat x) i}"
    using bit_imp_le_length [of x] by (force simp: bit_simps)
  then show ?thesis by (simp add: sum_of_bool_eq  Int_def)
qed

lemma unat_minus: "unat a = b \<Longrightarrow> unat (y :: word_t) = c \<Longrightarrow> c \<le> b \<Longrightarrow> unat (a - y) = b - c"
  by (simp add: unat_sub word_le_nat_alt)

lemma count_first:
  assumes "unat x = n"
  shows "unat (x - (drop_bit 1 x AND 0xDB6DB6DB) - (drop_bit 2 x AND 0x49249249) :: word_t) = digit_map 3 pop3 11 n"
proof -
  have "unat (drop_bit 1 x AND 0xDB6DB6DB) = n div 2 AND 0xDB6DB6DB"
    "unat (drop_bit 2 x AND 0x49249249) = n div 4 AND 0x49249249"
    using assms by (simp_all add: unsigned_and_eq unat_drop)
  moreover have "(0xDB6DB6DB :: nat) = digit_map 3 (\<lambda>_. 3) 11 0" "(0x49249249 :: nat) = digit_map 3 (\<lambda>_. 1) 11 0"
    using digit_map_const [of 3 3 11 0] digit_map_const [of 3 1 11 0] by (simp_all del: One_nat_def)
  ultimately have h: "unat (drop_bit 1 x AND 0xDB6DB6DB) = digit_map 3 (\<lambda>d. d div 2) 11 n"
    "unat (drop_bit 2 x AND 0x49249249) = digit_map 3 (\<lambda>d. d div 4) 11 n"
    by (simp_all only: and_half and_quarter)
  have "n < 8 ^ 11" using unat_less_2p32 [of x] assms by simp
  note s = pop3_sum [OF this]
  have "unat (x - (drop_bit 1 x AND 0xDB6DB6DB)) = n - digit_map 3 (\<lambda>d. d div 2) 11 n"
    using assms h(1) by (rule unat_minus) (use s in linarith)
  from unat_minus [OF this h(2)] show ?thesis using s by linarith
qed


lemma digit_map_bound: "(\<And>d. f d \<le> b) \<Longrightarrow> digit_map w f k n \<le> digit_map w (\<lambda>_. b) k 0"
proof (induction k arbitrary: n)
  case (Suc k)
  then show ?case by (simp add: add_mono)
qed simp

lemma digit_map_top: "n < (2 ^ w) ^ k \<Longrightarrow> f 0 = 0 \<Longrightarrow> digit_map w f (Suc k) n = digit_map w f k n"
proof (induction k arbitrary: n)
  case (Suc k)
  have "n div 2 ^ w < (2 ^ w) ^ k" using Suc.prems(1) by (simp add: less_mult_imp_div_less ac_simps)
  from Suc.IH [OF this Suc.prems(2)] show ?case by simp
qed simp

lemma digit_map_split:
  "digit_map w f (a + b) n = digit_map w f a n + (2 ^ w) ^ a * digit_map w f b (n div (2 ^ w) ^ a)"
proof (induction a arbitrary: n)
  case (Suc a)
  show ?case by (simp add: Suc.IH div_mult2_eq algebra_simps)
qed simp

lemma unat_add_small: "unat (a :: word_t) + unat b < 2 ^ 32 \<Longrightarrow> unat (a + b) = unat a + unat b"
  by (simp add: unat_add_lem [THEN iffD1])

lemma count_bound:
  assumes "n < 2 ^ 32"
  shows "digit_map 3 pop3 11 n < 3 * 2 ^ 30"
proof -
  have "digit_map 3 pop3 (10 + 1) n = digit_map 3 pop3 10 n + (2 ^ 3) ^ 10 * digit_map 3 pop3 1 (n div (2 ^ 3) ^ 10)"
    by (rule digit_map_split)
  moreover have "digit_map 3 pop3 10 n \<le> 460175067"
    using digit_map_bound [of pop3 3 3 10 n] digit_map_const [of 3 3 10 0] pop3_le by simp
  moreover have "n div 2 ^ 30 \<in> {0, 1, 2, 3}"
    using assms by (simp add: less_mult_imp_div_less) (use less_mult_imp_div_less [of n 4 "2 ^ 30"] in auto)
  then have "digit_map 3 pop3 1 (n div (2 ^ 3) ^ 10) \<le> 2"
    by (auto simp: pop3_def bit_iff_odd)
  ultimately show ?thesis by simp
qed

lemma and_take_bit:
  assumes "(v :: nat) < 2 ^ k"
  shows "v AND take_bit k m = v AND m"
proof -
  have "take_bit k v AND take_bit k m = take_bit k v AND m" by (auto simp: bit_eq_iff bit_simps)
  then show ?thesis using assms by (simp add: take_bit_nat_eq_self)
qed

lemma unat_add_mod: "unat (a + b :: word_t) mod 64 = (unat a + unat b) mod 64"
  using mod_mod_cancel [of 64 "2 ^ 32" "unat a + unat b"] by (simp add: unat_word_ariths)

lemma count_second:
  assumes x: "unat x = digit_map 3 pop3 11 n" and n: "n < 2 ^ 32"
  shows "unat ((x + drop_bit 3 x) AND 0xC71C71C7 :: word_t) = digit_map 6 (\<lambda>e. pop3 (e mod 8) + pop3 (e div 8)) 6 n"
proof -
  let ?v = "unat x + unat x div 8" and ?m = "digit_map 6 (\<lambda>_. 7) 6 0"
  have e: "digit_map 3 pop3 (2 * 6) n = unat x"
    using digit_map_top [of n 3 11 pop3] n x by (simp add: pop3_def)
  have v: "?v < 2 ^ 32" using count_bound [OF n] x by simp
  have "0xC71C71C7 = take_bit 32 ?m" using digit_map_const [of 6 7 6 0] by (simp add: take_bit_eq_mod)
  then have "unat ((x + drop_bit 3 x) AND 0xC71C71C7) = ?v AND take_bit 32 ?m"
    using unat_add_small [of x "drop_bit 3 x"] v by (simp add: unsigned_and_eq unat_drop)
  also have "\<dots> = ?v AND ?m" by (rule and_take_bit [OF v])
  also have "\<dots> = digit_map 6 (\<lambda>e. pop3 (e mod 8) + pop3 (e div 8)) 6 n"
    using add_digits [of pop3 6 n 0, OF pop3_le] unfolding e .
  finally show ?thesis .
qed

lemma unat_and_63: "unat ((w :: word_t) AND 0x3F) = unat w mod 64"
proof -
  have m: "w AND 0x3F = take_bit 6 w" by (simp add: take_bit_eq_mask mask_eq_exp_minus_1)
  show ?thesis unfolding m unsigned_take_bit_eq by (simp add: take_bit_eq_mod)
qed

lemma count_third:
  fixes e :: "nat \<Rightarrow> nat"
  assumes "\<And>i. i < 6 \<Longrightarrow> e i \<le> (6 :: nat)" and "e 5 \<le> 2"
    and "unat (y :: word_t) = e 0 + 64 * (e 1 + 64 * (e 2 + 64 * (e 3 + 64 * (e 4 + 64 * e 5))))"
  shows "unat (y + drop_bit 6 y) = (e 0 + e 1) + 64 * ((e 1 + e 2) + 64 * ((e 2 + e 3) + 64 * ((e 3 + e 4) + 64 * ((e 4 + e 5) + 64 * e 5))))"
proof -
  have b: "e 0 \<le> 6" "e 1 \<le> 6" "e 2 \<le> 6" "e 3 \<le> 6" "e 4 \<le> 6" by (simp_all add: assms(1))
  have "unat y div 64 = e 1 + 64 * (e 2 + 64 * (e 3 + 64 * (e 4 + 64 * e 5)))" using b(1) unfolding assms(3) by simp
  moreover have "unat y + unat y div 64 < 2 ^ 32" using b assms(2) unfolding calculation unfolding assms(3) by simp
  ultimately show ?thesis using unat_add_small [of y "drop_bit 6 y"] by (simp add: unat_drop assms(3))
qed

lemma count_fourth:
  fixes e :: "nat \<Rightarrow> nat"
  assumes "\<And>i. i < 6 \<Longrightarrow> e i \<le> (6 :: nat)"
    and "unat (z :: word_t) = (e 0 + e 1) + 64 * ((e 1 + e 2) + 64 * ((e 2 + e 3) + 64 * ((e 3 + e 4) + 64 * ((e 4 + e 5) + 64 * e 5))))"
  shows "unat ((z + drop_bit 12 z + drop_bit 24 z) AND 0x3F) = e 0 + e 1 + e 2 + e 3 + e 4 + e 5"
proof -
  have b: "e 0 \<le> 6" "e 1 \<le> 6" "e 2 \<le> 6" "e 3 \<le> 6" "e 4 \<le> 6" "e 5 \<le> 6" by (simp_all add: assms(1))
  have d1: "unat z div 64 = (e 1 + e 2) + 64 * ((e 2 + e 3) + 64 * ((e 3 + e 4) + 64 * ((e 4 + e 5) + 64 * e 5)))"
    using b unfolding assms(2) by simp
  have "unat z div 64 div 64 = (e 2 + e 3) + 64 * ((e 3 + e 4) + 64 * ((e 4 + e 5) + 64 * e 5))"
    using b unfolding d1 by simp
  then have d2: "unat z div 2 ^ 12 = (e 2 + e 3) + 64 * ((e 3 + e 4) + 64 * ((e 4 + e 5) + 64 * e 5))"
    by (simp flip: div_mult2_eq)
  have d3: "unat z div 2 ^ 12 div 64 = (e 3 + e 4) + 64 * ((e 4 + e 5) + 64 * e 5)"
    using b unfolding d2 by simp
  have "unat z div 2 ^ 12 div 64 div 64 = (e 4 + e 5) + 64 * e 5"
    using b unfolding d3 by simp
  then have d4: "unat z div 2 ^ 24 = (e 4 + e 5) + 64 * e 5" by (simp flip: div_mult2_eq)
  have "unat ((z + drop_bit 12 z + drop_bit 24 z) AND 0x3F) = unat (z + drop_bit 12 z + drop_bit 24 z) mod 64"
    by (rule unat_and_63)
  also have "\<dots> = (unat z + unat z div 2 ^ 12 + unat z div 2 ^ 24) mod 64"
    by (subst unat_add_mod, subst mod_add_left_eq [symmetric], subst unat_add_mod) (simp only: mod_add_left_eq unat_drop)
  also have "\<dots> = e 0 + e 1 + e 2 + e 3 + e 4 + e 5" 
  proof -
    have "unat z + unat z div 2 ^ 12 + unat z div 2 ^ 24 = (e 0 + e 1 + e 2 + e 3 + e 4 + e 5) +
        64 * ((e 1 + e 2) + 64 * ((e 2 + e 3) + 64 * ((e 3 + e 4) + 64 * ((e 4 + e 5) + 64 * e 5))) +
          ((e 3 + e 4) + 64 * ((e 4 + e 5) + 64 * e 5)) + e 5)"
      unfolding d2 d4 unfolding assms(2) by (simp only: distrib_left ac_simps)
    then show ?thesis by (simp only: mod_mult_self2) (use b in simp)
  qed
  finally show ?thesis .
qed


lemma count_bits_ok: "unat (count_bits x) = card {i. bit x i}"
proof -
  let ?n = "unat x"
  let ?h = "\<lambda>e. pop3 (e mod 8) + pop3 (e div 8)"
  define e where "e i = ?h (?n div 64 ^ i mod 64)" for i
  have six: "(6 :: nat) = Suc (Suc (Suc (Suc (Suc (Suc 0)))))" by simp
  have "digit_map 6 ?h (Suc (Suc (Suc (Suc (Suc (Suc 0)))))) ?n =
      e 0 + 64 * (e 1 + 64 * (e 2 + 64 * (e 3 + 64 * (e 4 + 64 * e 5))))"
    by (simp add: e_def div_mult2_eq [symmetric])
  then have "digit_map 6 ?h 6 ?n = e 0 + 64 * (e 1 + 64 * (e 2 + 64 * (e 3 + 64 * (e 4 + 64 * e 5))))"
    by (simp only: six)
  note second = trans [OF count_second [OF count_first [OF refl] unat_less_2p32] this]
  have e6: "e i \<le> 6" for i 
    unfolding e_def using pop3_le [of "?n div 64 ^ i mod 64 mod 8"] pop3_le [of "?n div 64 ^ i mod 64 div 8"] by simp
  have e5: "e 5 \<le> 2"
  proof -
    have "?n div 64 ^ 5 \<in> {0, 1, 2, 3}"
      using less_mult_imp_div_less [of ?n 4 "64 ^ 5"] unat_less_2p32 [of x] by auto
    then show ?thesis unfolding e_def by (auto simp: pop3_def bit_iff_odd)
  qed
  have "unat (count_bits x) = e 0 + e 1 + e 2 + e 3 + e 4 + e 5"
    unfolding count_bits_def Let_def by (rule count_fourth [OF e6 count_third [OF e6 e5 second]])
  also have "\<dots> = (\<Sum>i < 6. e i)" by (simp add: numeral_eq_Suc)
  also have "\<dots> = card {i. bit x i}"
    using digit_map_set_bits [of ?n 6] by (simp add: card_set_bits e_def)
  finally show ?thesis .
qed

section \<open>Properties\<close>

text \<open>C9. \<^verbatim>\<open>highest_bit\<close> returns the position of the highest set bit of every non-zero word.\<close>

theorem highest_bit_correct:
  assumes "x \<noteq> 0"
  shows "bit x (highest_bit x) \<and> (\<forall>i > highest_bit x. \<not> bit x i)"
proof -
  let ?h = "highest_bit x"
  note b = highest_bit_ok [OF assms]
  have "unat x div 2 ^ ?h = 1" using b by (intro div_nat_eqI) auto
  then have "bit (unat x) ?h" by (simp add: bit_iff_odd)
  moreover have "\<not> bit (unat x) i" if "i > ?h" for i
  proof -
    have "2 ^ Suc ?h \<le> (2 :: nat) ^ i" by (rule power_increasing) (use that in auto)
    then have "unat x div 2 ^ i = 0" using b by simp
    then show ?thesis by (simp add: bit_iff_odd)
  qed
  ultimately show ?thesis by (simp add: bit_unsigned_iff bit_imp_le_length)
qed

theorem highest_bit_correct_witness: "bit (0x00080123 :: word_t) 19 \<and> highest_bit 0x00080123 = 19"
  using highest_bit_correct [of "0x00080123"] by (simp add: highest_bit_def highest_bit_index_def nth_append)

text \<open>\<^verbatim>\<open>ilog2\<close> and the macro \<^verbatim>\<open>DO_ILOG2\<close>, which \<^verbatim>\<open>bitops.h\<close> documents as the same
  function, agree exactly on the words below \<open>2 ^ 16\<close>; on every larger word \<^verbatim>\<open>ilog2\<close> is one too
  small, because its first branch overwrites the initial 1.\<close>

theorem ilog2_agrees_iff:
  "DO_ILOG2 x = (if unat x < 2 ^ 16 then ilog2 x else ilog2 x + 1)"
proof (cases "x = 0")
  case True
  have "DO_ILOG2 0 = 0" by (simp add: DO_ILOG2_def DO_ILOG2_from.simps)
  then show ?thesis using True by (simp add: ilog2_def)
next
  case False
  note b = highest_bit_ok [OF False]
  have "highest_bit x < 32"
    using b unat_less_2p32 [of x] by (metis le_less_trans power_less_imp_less_exp one_less_numeral_iff semiring_norm(76))
  then show ?thesis using DO_ILOG2_from_ok [of "highest_bit x" x 0] b ilog2_highest [OF False]
    by (simp add: DO_ILOG2_def)
qed

text \<open>\<^verbatim>\<open>lowest_bit\<close> finds the lowest set bit when that bit lies in the low byte of a half word,
  and otherwise returns the position of the half word: the second test shifts by 8 instead of 24.\<close>

theorem lowest_bit_characterised:
  assumes "bit (x :: word_t) l" and "\<forall>i < l. \<not> bit x i"
  shows "lowest_bit x = (if l mod 16 < 8 then l else 16 * (l div 16))"
  by (rule lowest_bit_ok [OF assms])

theorem lowest_bit_characterised_witness:
  "lowest_bit 0x00100000 = 20 \<and> lowest_bit 0x00000100 = 0"
proof -
  have "\<forall>i < 20. \<not> bit (0x00100000 :: word_t) i" "\<forall>i < 8. \<not> bit (0x100 :: word_t) i"
    by (simp_all add: All_less_Suc eval_nat_numeral bit_simps)
  then show ?thesis
    using lowest_bit_characterised [of "0x00100000" 20] lowest_bit_characterised [of "0x00000100" 8] by simp
qed

text \<open>C8. \<^verbatim>\<open>count_bits\<close>, the branch-free population count with octal masks, returns the number
  of set bits of every word.\<close>

theorem count_bits_correct: "unat (count_bits x) = card {i. bit x i}"
  by (rule count_bits_ok)

text \<open>C10. \<^verbatim>\<open>swap_bytes\<close> moves byte \<open>i\<close> of the word to byte \<open>3 - i\<close>, and is its own inverse.\<close>

theorem swap_bytes_correct:
  "(\<forall>n < 32. bit (swap_bytes x) n = bit x (8 * (3 - n div 8) + n mod 8)) \<and> swap_bytes (swap_bytes x) = x"
proof
  show "\<forall>n < 32. bit (swap_bytes x) n = bit x (8 * (3 - n div 8) + n mod 8)"
    using swap_bytes_bit by blast
  show "swap_bytes (swap_bytes x) = x"
  proof (rule bit_word_eqI)
    fix n assume "n < LENGTH(32)"
    then have n: "n < 32" by simp
    have m: "8 * (3 - n div 8) + n mod 8 < 32" using mod_less_divisor [of 8 n] by linarith
    have "n div 8 \<le> 3" using n by simp
    then have "8 * (3 - (8 * (3 - n div 8) + n mod 8) div 8) + (8 * (3 - n div 8) + n mod 8) mod 8 = n" by simp
    then show "bit (swap_bytes (swap_bytes x)) n = bit x n"
      by (simp only: swap_bytes_bit [OF n] swap_bytes_bit [OF m])
  qed
qed

theorem swap_bytes_correct_witness: "swap_bytes 0x12345678 = 0x78563412 \<and> swap_bytes 0x78563412 = 0x12345678"
  using swap_bytes_correct [of "0x12345678"] by (simp add: swap_bytes_def)

end
