(* ===== verification/Map_Interface.thy ===== *)
theory Map_Interface
  imports Shades_Prelude
begin

text \<open>
  The contract of the keyed stores (AVL tree, 2-3-4 tree, tries and hash trie): a key is mapped to
  a word, the pointer to the data, and a key that is not in the store to \<open>NULL_WORD\<close>.
  \<open>same k' k\<close> says that two keys count as the same key.  \<open>map_run\<close> runs a sequence of operations,
  \<open>map_spec\<close> is the same sequence on a function from keys to words; inside the locale the two are
  shown to agree.  \<open>word_store\<close> is the part of the contract without deletion.
\<close>

datatype 'k map_op = Put 'k word_t | Remove 'k

fun map_run :: "('t \<Rightarrow> 'k \<Rightarrow> word_t \<Rightarrow> nat \<Rightarrow> ('t \<times> nat) option) \<Rightarrow> ('t \<Rightarrow> 'k \<Rightarrow> nat \<Rightarrow> ('t \<times> nat) option) \<Rightarrow>
    'k map_op list \<Rightarrow> 't \<Rightarrow> nat \<Rightarrow> ('t \<times> nat) option" where
  "map_run put remove [] t ap = Some (t, ap)"
| "map_run put remove (Put k d # ops) t ap =
    do { (t', ap') \<leftarrow> put t k d ap; map_run put remove ops t' ap' }"
| "map_run put remove (Remove k # ops) t ap =
    do { (t', ap') \<leftarrow> remove t k ap; map_run put remove ops t' ap' }"

fun map_spec :: "('k \<Rightarrow> 'k \<Rightarrow> bool) \<Rightarrow> 'k map_op list \<Rightarrow> ('k \<Rightarrow> word_t) \<Rightarrow> 'k \<Rightarrow> word_t" where
  "map_spec same [] f = f"
| "map_spec same (Put k d # ops) f = map_spec same ops (\<lambda>k'. if same k' k then d else f k')"
| "map_spec same (Remove k # ops) f = map_spec same ops (\<lambda>k'. if same k' k then NULL_WORD else f k')"

text \<open>
  \<open>fits n\<close> bounds the number of keys for which the fixed tables and the word size of the code
  suffice; \<open>max_put\<close> and \<open>max_remove\<close> bound the words that one operation allocates.
\<close>

locale word_store =
  fixes same :: "'k \<Rightarrow> 'k \<Rightarrow> bool"
    and null :: 't
    and find :: "'t \<Rightarrow> 'k \<Rightarrow> word_t"
    and put :: "'t \<Rightarrow> 'k \<Rightarrow> word_t \<Rightarrow> nat \<Rightarrow> ('t \<times> nat) option"
    and valid :: "'t \<Rightarrow> bool"
    and keys :: "'t \<Rightarrow> nat"
    and fits :: "nat \<Rightarrow> bool"
    and max_put :: nat
  assumes null_ok: "valid null" "keys null = 0" "find null k = NULL_WORD"
    and put_ok: "valid t \<Longrightarrow> fits (keys t) \<Longrightarrow>
      \<exists>t' ap'. put t k d ap = Some (t', ap') \<and> valid t' \<and> keys t' \<le> Suc (keys t) \<and>
        (\<forall>k'. find t' k' = (if same k' k then d else find t k')) \<and> ap \<le> ap' \<and> ap' \<le> ap + max_put"
begin

lemma puts_refine_spec:
  assumes "valid t" and "\<And>n. n \<le> keys t + length kds \<Longrightarrow> fits n"
  shows "\<exists>t' ap'. map_run put remove (map (\<lambda>(k, d). Put k d) kds) t ap = Some (t', ap') \<and> valid t' \<and>
    (\<forall>k. find t' k = map_spec same (map (\<lambda>(k, d). Put k d) kds) (find t) k) \<and>
    ap' \<le> ap + length kds * max_put"
  using assms
proof (induction kds arbitrary: t ap)
  case Nil
  then show ?case by simp
next
  case (Cons x kds)
  obtain k d where x: "x = (k, d)" by fastforce
  have "fits (keys t)" using Cons.prems(2) [of "keys t"] by simp
  then obtain t1 ap1 where t1: "put t k d ap = Some (t1, ap1)" "valid t1" "keys t1 \<le> Suc (keys t)"
      "\<forall>k'. find t1 k' = (if same k' k then d else find t k')" "ap1 \<le> ap + max_put"
    using put_ok [OF Cons.prems(1)] by blast
  have "find t1 = (\<lambda>k'. if same k' k then d else find t k')" using t1(4) by auto
  then show ?case using Cons.IH [OF t1(2), of ap1] Cons.prems(2) t1 x by fastforce
qed

end

text \<open>
  The weaker contract of a store that promises nothing when the data of an insertion is a pointer
  that the store already holds.  \<open>data t\<close> are the pointers that \<open>t\<close> holds; an insertion of other
  data, and every removal, behave as in a map.  \<open>fresh_puts D ops\<close>: the sequence only inserts
  pointers that are not in \<open>D\<close> and were not inserted before.
\<close>

fun fresh_puts :: "word_t set \<Rightarrow> 'k map_op list \<Rightarrow> bool" where
  "fresh_puts D [] \<longleftrightarrow> True"
| "fresh_puts D (Put k d # ops) \<longleftrightarrow> d \<notin> D \<and> fresh_puts (insert d D) ops"
| "fresh_puts D (Remove k # ops) \<longleftrightarrow> fresh_puts D ops"

lemma fresh_puts_mono: "fresh_puts D ops \<Longrightarrow> D' \<subseteq> D \<Longrightarrow> fresh_puts D' ops"
  by (induction D ops arbitrary: D' rule: fresh_puts.induct) (simp, simp, blast, simp)

locale fresh_map =
  fixes same :: "'k \<Rightarrow> 'k \<Rightarrow> bool"
    and null :: 't
    and find :: "'t \<Rightarrow> 'k \<Rightarrow> word_t"
    and put :: "'t \<Rightarrow> 'k \<Rightarrow> word_t \<Rightarrow> nat \<Rightarrow> ('t \<times> nat) option"
    and remove :: "'t \<Rightarrow> 'k \<Rightarrow> nat \<Rightarrow> ('t \<times> nat) option"
    and valid :: "'t \<Rightarrow> bool"
    and keys :: "'t \<Rightarrow> nat"
    and data :: "'t \<Rightarrow> word_t set"
    and fits :: "nat \<Rightarrow> bool"
    and max_put max_remove :: nat
  assumes empty_ok: "valid null" "keys null = 0" "find null k = NULL_WORD"
    and put_fresh: "valid t \<Longrightarrow> fits (keys t) \<Longrightarrow> d \<notin> data t \<Longrightarrow>
      \<exists>t' ap'. put t k d ap = Some (t', ap') \<and> valid t' \<and> keys t' \<le> Suc (keys t) \<and>
        (\<forall>k'. find t' k' = (if same k' k then d else find t k')) \<and> data t' \<subseteq> insert d (data t) \<and>
        ap \<le> ap' \<and> ap' \<le> ap + max_put"
    and remove_fresh: "valid t \<Longrightarrow> fits (keys t) \<Longrightarrow>
      \<exists>t' ap'. remove t k ap = Some (t', ap') \<and> valid t' \<and> keys t' \<le> keys t \<and>
        (\<forall>k'. find t' k' = (if same k' k then NULL_WORD else find t k')) \<and> data t' \<subseteq> data t \<and>
        ap \<le> ap' \<and> ap' \<le> ap + max_remove"
begin

text \<open>\<open>C\<close> is any condition on the rest of the sequence that makes its insertions admissible.\<close>

lemma run_refines:
  assumes "valid t" and "\<And>n. n \<le> keys t + length ops \<Longrightarrow> fits n" and "C (data t) ops"
    and Put: "\<And>t k d ops. C (data t) (Put k d # ops) \<Longrightarrow>
      d \<notin> data t \<and> (\<forall>t'. data t' \<subseteq> insert d (data t) \<longrightarrow> C (data t') ops)"
    and Remove: "\<And>t t' k ops. C (data t) (Remove k # ops) \<Longrightarrow> data t' \<subseteq> data t \<Longrightarrow> C (data t') ops"
  shows "\<exists>t' ap'. map_run put remove ops t ap = Some (t', ap') \<and> valid t' \<and>
    keys t' \<le> keys t + length ops \<and> (\<forall>k. find t' k = map_spec same ops (find t) k) \<and>
    ap' \<le> ap + length ops * max max_put max_remove"
  using assms(1-3)
proof (induction ops arbitrary: t ap)
  case Nil
  then show ?case by simp
next
  case (Cons x ops)
  have "fits (keys t)" using Cons.prems(2) [of "keys t"] by simp
  show ?case
  proof (cases x)
    case x: (Put k d)
    have d: "d \<notin> data t" "\<And>t'. data t' \<subseteq> insert d (data t) \<Longrightarrow> C (data t') ops"
      using Put [of t k d ops] Cons.prems(3) x by auto
    obtain t1 ap1 where t1: "put t k d ap = Some (t1, ap1)" "valid t1" "keys t1 \<le> Suc (keys t)"
        "\<forall>k'. find t1 k' = (if same k' k then d else find t k')" "data t1 \<subseteq> insert d (data t)" "ap1 \<le> ap + max_put"
      using put_fresh [OF Cons.prems(1) \<open>fits (keys t)\<close> d(1)] by blast
    have "find t1 = (\<lambda>k'. if same k' k then d else find t k')" using t1(4) by auto
    then show ?thesis using Cons.IH [OF t1(2) _ d(2) [OF t1(5)], of ap1] Cons.prems(2) t1 x by fastforce
  next
    case x: (Remove k)
    obtain t1 ap1 where t1: "remove t k ap = Some (t1, ap1)" "valid t1" "keys t1 \<le> keys t"
        "\<forall>k'. find t1 k' = (if same k' k then NULL_WORD else find t k')" "data t1 \<subseteq> data t" "ap1 \<le> ap + max_remove"
      using remove_fresh [OF Cons.prems(1) \<open>fits (keys t)\<close>] by blast
    have C: "C (data t1) ops" using Remove [OF _ t1(5)] Cons.prems(3) x by blast
    have "find t1 = (\<lambda>k'. if same k' k then NULL_WORD else find t k')" using t1(4) by auto
    then show ?thesis using Cons.IH [OF t1(2) _ C, of ap1] Cons.prems(2) t1 x by fastforce
  qed
qed

lemma fresh_run_from_null:
  assumes "\<And>n. n \<le> length ops \<Longrightarrow> fits n" and "fresh_puts (data null) ops"
  shows "\<exists>t' ap'. map_run put remove ops null ap = Some (t', ap') \<and> valid t' \<and>
    (\<forall>k. find t' k = map_spec same ops (\<lambda>_. NULL_WORD) k) \<and>
    ap' \<le> ap + length ops * max max_put max_remove"
proof -
  have "find null = (\<lambda>_. NULL_WORD)" using empty_ok(3) by auto
  moreover have "\<exists>t' ap'. map_run put remove ops null ap = Some (t', ap') \<and> valid t' \<and>
    keys t' \<le> keys null + length ops \<and> (\<forall>k. find t' k = map_spec same ops (find null) k) \<and>
    ap' \<le> ap + length ops * max max_put max_remove"
    using assms empty_ok(1,2) by (intro run_refines [where C = fresh_puts]) (auto intro: fresh_puts_mono)
  ultimately show ?thesis by auto
qed

end

text \<open>The data that a sequence inserts; a store that only refuses the data in \<open>D\<close> runs every sequence
  without them.\<close>

fun puts :: "'k map_op list \<Rightarrow> word_t set" where
  "puts [] = {}"
| "puts (Put k d # ops) = insert d (puts ops)"
| "puts (Remove k # ops) = puts ops"

context fresh_map
begin

lemma run_without:
  assumes "\<And>n. n \<le> length ops \<Longrightarrow> fits n" and "\<And>t. data t \<subseteq> D" and "puts ops \<inter> D = {}"
  shows "\<exists>t' ap'. map_run put remove ops null ap = Some (t', ap') \<and> valid t' \<and>
    (\<forall>k. find t' k = map_spec same ops (\<lambda>_. NULL_WORD) k) \<and>
    ap' \<le> ap + length ops * max max_put max_remove"
proof -
  have "find null = (\<lambda>_. NULL_WORD)" using empty_ok(3) by auto
  moreover have "\<exists>t' ap'. map_run put remove ops null ap = Some (t', ap') \<and> valid t' \<and>
    keys t' \<le> keys null + length ops \<and> (\<forall>k. find t' k = map_spec same ops (find null) k) \<and>
    ap' \<le> ap + length ops * max max_put max_remove"
    using assms empty_ok(1,2) by (intro run_refines [where C = "\<lambda>_ ops. puts ops \<inter> D = {}"]) auto
  ultimately show ?thesis by auto
qed

end

locale word_map = word_store same null find put valid keys fits max_put
  for same :: "'k \<Rightarrow> 'k \<Rightarrow> bool" and null :: 't and find :: "'t \<Rightarrow> 'k \<Rightarrow> word_t"
    and put :: "'t \<Rightarrow> 'k \<Rightarrow> word_t \<Rightarrow> nat \<Rightarrow> ('t \<times> nat) option"
    and valid :: "'t \<Rightarrow> bool" and keys :: "'t \<Rightarrow> nat" and fits :: "nat \<Rightarrow> bool" and max_put :: nat +
  fixes remove :: "'t \<Rightarrow> 'k \<Rightarrow> nat \<Rightarrow> ('t \<times> nat) option"
    and max_remove :: nat
  assumes remove_ok: "valid t \<Longrightarrow> fits (keys t) \<Longrightarrow>
      \<exists>t' ap'. remove t k ap = Some (t', ap') \<and> valid t' \<and> keys t' \<le> keys t \<and>
        (\<forall>k'. find t' k' = (if same k' k then NULL_WORD else find t k')) \<and> ap \<le> ap' \<and> ap' \<le> ap + max_remove"
begin

end

text \<open>Every map is such a store, whatever data it holds.\<close>

sublocale word_map \<subseteq> fresh: fresh_map same null find put remove valid keys "\<lambda>_. {}" fits max_put max_remove
proof
  show "\<exists>t' ap'. put t k d ap = Some (t', ap') \<and> valid t' \<and> keys t' \<le> Suc (keys t) \<and>
        (\<forall>k'. find t' k' = (if same k' k then d else find t k')) \<and> {} \<subseteq> insert d {} \<and> ap \<le> ap' \<and> ap' \<le> ap + max_put"
    if "valid t" "fits (keys t)" for t k d ap
    using put_ok [OF that] by simp
  show "\<exists>t' ap'. remove t k ap = Some (t', ap') \<and> valid t' \<and> keys t' \<le> keys t \<and>
        (\<forall>k'. find t' k' = (if same k' k then NULL_WORD else find t k')) \<and> {} \<subseteq> {} \<and> ap \<le> ap' \<and> ap' \<le> ap + max_remove"
    if "valid t" "fits (keys t)" for t k ap
    using remove_ok [OF that] by simp
qed (simp_all add: null_ok)

context word_map
begin

lemma run_refines_spec:
  assumes "valid t" and "\<And>n. n \<le> keys t + length ops \<Longrightarrow> fits n"
  shows "\<exists>t' ap'. map_run put remove ops t ap = Some (t', ap') \<and> valid t' \<and>
    keys t' \<le> keys t + length ops \<and> (\<forall>k. find t' k = map_spec same ops (find t) k) \<and>
    ap' \<le> ap + length ops * max max_put max_remove"
  using assms by (intro fresh.run_refines [where C = "\<lambda>_ _. True"]) auto

lemma run_from_null:
  assumes "\<And>n. n \<le> length ops \<Longrightarrow> fits n"
  shows "\<exists>t' ap'. map_run put remove ops null ap = Some (t', ap') \<and> valid t' \<and>
    (\<forall>k. find t' k = map_spec same ops (\<lambda>_. NULL_WORD) k) \<and>
    ap' \<le> ap + length ops * max max_put max_remove"
proof -
  have "find null = (\<lambda>_. NULL_WORD)" using null_ok(3) by auto
  then show ?thesis using run_refines_spec [OF null_ok(1), of ops ap] assms null_ok(2) by auto
qed

end

end
