(* ===== verification/Item_Lists.thy ===== *)
theory Item_Lists
  imports Map_Interface
begin

text \<open>
  Lists of items, pairs of a key and its data, as the search trees hold them from left to right.
  \<open>assoc\<close> is the lookup that every tree refines; \<open>increasing\<close> is the order of the internal search
  tree.  The lemmas say how a lookup changes when an item is replaced, added or removed.
\<close>

text \<open>The data of the key that compares equal, in a list of items.\<close>

definition assoc :: "('k \<Rightarrow> 'k \<Rightarrow> cmp_result_t) \<Rightarrow> ('k \<times> word_t) list \<Rightarrow> 'k \<Rightarrow> word_t" where
  "assoc cmp xs key = (case find (\<lambda>(k, d). cmp key k = CMP_EQUAL) xs of None \<Rightarrow> NULL_WORD | Some (k, d) \<Rightarrow> d)"

lemma assoc_simps [simp]:
  "assoc cmp [] key = NULL_WORD"
  "assoc cmp ((k, d) # xs) key = (if cmp key k = CMP_EQUAL then d else assoc cmp xs key)"
  by (simp_all add: assoc_def)

lemma assoc_absent: "(\<And>k. k \<in> fst ` set xs \<Longrightarrow> cmp key k \<noteq> CMP_EQUAL) \<Longrightarrow> assoc cmp xs key = NULL_WORD"
  by (induction xs) auto

lemma assoc_append_left:
  "(\<And>k. k \<in> fst ` set xs \<Longrightarrow> cmp key k \<noteq> CMP_EQUAL) \<Longrightarrow> assoc cmp (xs @ ys) key = assoc cmp ys key"
  by (induction xs) auto

lemma assoc_append_right:
  "(\<And>k. k \<in> fst ` set ys \<Longrightarrow> cmp key k \<noteq> CMP_EQUAL) \<Longrightarrow> assoc cmp (xs @ ys) key = assoc cmp xs key"
  by (induction xs) (auto intro: assoc_absent)

lemma assoc_append:
  "assoc cmp (xs @ ys) key =
    (if \<exists>k \<in> fst ` set xs. cmp key k = CMP_EQUAL then assoc cmp xs key else assoc cmp ys key)"
proof (cases "\<exists>k \<in> fst ` set xs. cmp key k = CMP_EQUAL")
  case True
  then show ?thesis by (induction xs) (auto, force)
next
  case False
  then have "assoc cmp (xs @ ys) key = assoc cmp ys key" by (intro assoc_append_left) blast
  then show ?thesis using False by simp
qed

text \<open>
  The list before and after an operation that found the leaf \<open>(k, d)\<close> for \<open>key\<close>: the other leaves
  have other keys, and \<open>X\<close> replaces that leaf.
\<close>

lemma assoc_replace:
  assumes cmp: "total_cmp cmp" and out: "\<And>x. x \<in> fst ` set (B @ A) \<Longrightarrow> cmp key x \<noteq> CMP_EQUAL"
    and X: "\<And>x. cmp x key = CMP_EQUAL \<Longrightarrow> assoc cmp X x = v"
      "\<And>x. cmp x key \<noteq> CMP_EQUAL \<Longrightarrow> assoc cmp X x = assoc cmp [(k, d)] x"
      "\<And>x. cmp x key \<noteq> CMP_EQUAL \<Longrightarrow> (\<exists>z \<in> fst ` set X. cmp x z = CMP_EQUAL) \<longleftrightarrow> cmp x k = CMP_EQUAL"
      "\<And>x. cmp x key = CMP_EQUAL \<Longrightarrow> (\<exists>z \<in> fst ` set X. cmp x z = CMP_EQUAL) \<or> v = NULL_WORD"
  shows "assoc cmp (B @ X @ A) x = (if cmp x key = CMP_EQUAL then v else assoc cmp (B @ (k, d) # A) x)"
proof (cases "cmp x key = CMP_EQUAL")
  case True
  then have "cmp x z = cmp key z" for z using total_cmpD(5) [OF cmp] by blast
  then have B: "\<And>z. z \<in> fst ` set B \<Longrightarrow> cmp x z \<noteq> CMP_EQUAL" and A: "\<And>z. z \<in> fst ` set A \<Longrightarrow> cmp x z \<noteq> CMP_EQUAL"
    using out by auto
  have "assoc cmp (B @ X @ A) x = assoc cmp (X @ A) x" using B by (rule assoc_append_left)
  also have "\<dots> = assoc cmp X x" using A by (rule assoc_append_right)
  finally show ?thesis using X(1) True by simp
next
  case False
  then show ?thesis using X(2,3) [of x] by (auto simp: assoc_append)
qed

lemma assoc_equal_keys:
  assumes "total_cmp cmp" and "cmp x key = CMP_EQUAL"
  shows "assoc cmp xs x = assoc cmp xs key"
  using total_cmpD(5) [OF assms(1,2)] by (induction xs) auto

section \<open>Lists in increasing order\<close>

definition increasing :: "('k \<Rightarrow> 'k \<Rightarrow> cmp_result_t) \<Rightarrow> ('k \<times> word_t) list \<Rightarrow> bool" where
  "increasing cmp xs \<longleftrightarrow> sorted_wrt (\<lambda>x y. cmp (fst x) (fst y) = CMP_LESS) xs"

text \<open>\<open>splits cmp key xs ys\<close>: the keys of \<open>xs\<close> are below \<open>key\<close> and those of \<open>ys\<close> above it.\<close>

definition splits :: "('k \<Rightarrow> 'k \<Rightarrow> cmp_result_t) \<Rightarrow> 'k \<Rightarrow> ('k \<times> word_t) list \<Rightarrow> ('k \<times> word_t) list \<Rightarrow> bool" where
  "splits cmp key xs ys \<longleftrightarrow> (\<forall>x \<in> fst ` set xs. cmp x key = CMP_LESS) \<and> (\<forall>y \<in> fst ` set ys. cmp key y = CMP_LESS)"

lemma increasing_simps [simp]:
  "increasing cmp []"
  "increasing cmp (x # xs) \<longleftrightarrow> (\<forall>y \<in> set xs. cmp (fst x) (fst y) = CMP_LESS) \<and> increasing cmp xs"
  "increasing cmp (xs @ ys) \<longleftrightarrow> increasing cmp xs \<and> increasing cmp ys \<and>
    (\<forall>x \<in> set xs. \<forall>y \<in> set ys. cmp (fst x) (fst y) = CMP_LESS)"
  by (auto simp: increasing_def sorted_wrt_append)

lemma splits_outside:
  assumes cmp: "total_cmp cmp" and s: "splits cmp key xs ys" and x: "x \<in> fst ` set (xs @ ys)"
  shows "cmp key x \<noteq> CMP_EQUAL"
proof (cases "x \<in> fst ` set ys")
  case True
  then show ?thesis using s by (auto simp: splits_def)
next
  case False
  then have "cmp x key = CMP_LESS" using s x by (auto simp: splits_def)
  then show ?thesis using total_cmpD(3) [OF cmp, of x key] by simp
qed

lemma splits_equal:
  assumes cmp: "total_cmp cmp" and e: "cmp key k = CMP_EQUAL" and i: "increasing cmp (xs @ (k, d) # ys)"
  shows "splits cmp key xs ys"
proof -
  have "cmp key y = cmp k y" for y using total_cmpD(5) [OF cmp e] .
  moreover have "cmp x key = CMP_LESS \<longleftrightarrow> cmp x k = CMP_LESS" for x
    using total_cmpD(3) [OF cmp] total_cmpD(5) [OF cmp e] by metis
  ultimately show ?thesis using i by (auto simp: splits_def)
qed

text \<open>Replacing, adding and removing an item of an increasing list.\<close>

lemma assoc_update:
  assumes cmp: "total_cmp cmp" and e: "cmp key k = CMP_EQUAL" and i: "increasing cmp (xs @ (k, d) # ys)"
  shows "assoc cmp (xs @ (k, d') # ys) x = (if cmp x key = CMP_EQUAL then d' else assoc cmp (xs @ (k, d) # ys) x)"
proof -
  have eq: "cmp x k = CMP_EQUAL \<longleftrightarrow> cmp x key = CMP_EQUAL" for x
    using cmp_sym [OF cmp] total_cmpD(5) [OF cmp] e by metis
  have "assoc cmp (xs @ [(k, d')] @ ys) x = (if cmp x key = CMP_EQUAL then d' else assoc cmp (xs @ (k, d) # ys) x)"
    using splits_outside [OF cmp splits_equal [OF cmp e i]] by (intro assoc_replace [OF cmp]) (auto simp: eq)
  then show ?thesis by simp
qed

lemma assoc_insert:
  assumes cmp: "total_cmp cmp" and s: "splits cmp key xs ys"
  shows "assoc cmp (xs @ (key, d) # ys) x = (if cmp x key = CMP_EQUAL then d else assoc cmp (xs @ ys) x)"
proof (cases "cmp x key = CMP_EQUAL")
  case True
  then have "cmp x z = cmp key z" for z using total_cmpD(5) [OF cmp] by blast
  then have "\<And>z. z \<in> fst ` set xs \<Longrightarrow> cmp x z \<noteq> CMP_EQUAL" using splits_outside [OF cmp s] by auto
  then have "assoc cmp (xs @ (key, d) # ys) x = assoc cmp ((key, d) # ys) x" by (rule assoc_append_left)
  then show ?thesis using True by simp
next
  case False
  then show ?thesis by (auto simp: assoc_append)
qed

lemma assoc_remove:
  assumes cmp: "total_cmp cmp" and e: "cmp key k = CMP_EQUAL" and i: "increasing cmp (xs @ (k, d) # ys)"
  shows "assoc cmp (xs @ ys) x = (if cmp x key = CMP_EQUAL then NULL_WORD else assoc cmp (xs @ (k, d) # ys) x)"
proof -
  have eq: "cmp x k = CMP_EQUAL \<longleftrightarrow> cmp x key = CMP_EQUAL" for x
    using cmp_sym [OF cmp] total_cmpD(5) [OF cmp] e by metis
  have "assoc cmp (xs @ [] @ ys) x = (if cmp x key = CMP_EQUAL then NULL_WORD else assoc cmp (xs @ (k, d) # ys) x)"
    using splits_outside [OF cmp splits_equal [OF cmp e i]] by (intro assoc_replace [OF cmp]) (auto simp: eq)
  then show ?thesis by simp
qed

lemma increasing_insert:
  "splits cmp key xs ys \<Longrightarrow> increasing cmp (xs @ ys) \<Longrightarrow> increasing cmp (xs @ (key, d) # ys)"
  by (auto simp: splits_def)

lemma splits_simps:
  "splits cmp key ((k, d) # xs) ys \<longleftrightarrow> cmp k key = CMP_LESS \<and> splits cmp key xs ys"
  "splits cmp key (xs @ xs') ys \<longleftrightarrow> splits cmp key xs ys \<and> splits cmp key xs' ys"
  "splits cmp key xs ((k, d) # ys) \<longleftrightarrow> cmp key k = CMP_LESS \<and> splits cmp key xs ys"
  "splits cmp key xs (ys @ ys') \<longleftrightarrow> splits cmp key xs ys \<and> splits cmp key xs ys'"
  "splits cmp key [] []"
  by (auto simp: splits_def)

lemma splits_join: "splits cmp key xs [] \<Longrightarrow> splits cmp key [] ys \<Longrightarrow> splits cmp key xs ys"
  by (simp add: splits_def)

text \<open>One comparison with the key of an item splits the list there.\<close>

lemma splits_below:
  assumes cmp: "total_cmp cmp" and i: "increasing cmp (xs @ (k, d) # ys)" and l: "cmp key k = CMP_LESS"
  shows "splits cmp key [] ((k, d) # ys)"
proof -
  have "cmp key y = CMP_LESS" if "(y, e) \<in> set ys" for y e
    using total_cmpD(4) [OF cmp l] i that by fastforce
  then show ?thesis using l by (auto simp: splits_def)
qed

lemma splits_above:
  assumes cmp: "total_cmp cmp" and i: "increasing cmp (xs @ (k, d) # ys)"
    and g: "cmp key k \<noteq> CMP_EQUAL" "cmp key k \<noteq> CMP_LESS"
  shows "splits cmp key (xs @ [(k, d)]) []"
proof -
  have l: "cmp k key = CMP_LESS" using g total_cmpD(2) [OF cmp, of key k] total_cmpD(3) [OF cmp, of k key] by auto
  have "cmp x key = CMP_LESS" if "(x, e) \<in> set xs" for x e
    using total_cmpD(4) [OF cmp _ l] i that by fastforce
  then show ?thesis using l by (auto simp: splits_def)
qed

lemma assoc_below:
  assumes "total_cmp cmp" and "increasing cmp (xs @ (k, d) # ys)" and "cmp key k = CMP_LESS"
  shows "assoc cmp (xs @ (k, d) # ys) key = assoc cmp xs key"
  using splits_outside [OF assms(1) splits_below [OF assms]] by (intro assoc_append_right) simp

lemma assoc_above:
  assumes "total_cmp cmp" and "increasing cmp (xs @ (k, d) # ys)"
    and "cmp key k \<noteq> CMP_EQUAL" and "cmp key k \<noteq> CMP_LESS"
  shows "assoc cmp (xs @ (k, d) # ys) key = assoc cmp ys key"
proof -
  have "assoc cmp ((xs @ [(k, d)]) @ ys) key = assoc cmp ys key"
    using splits_outside [OF assms(1) splits_above [OF assms]] by (intro assoc_append_left) simp
  then show ?thesis by simp
qed

lemma assoc_here:
  assumes "total_cmp cmp" and "increasing cmp (xs @ (k, d) # ys)" and "cmp key k = CMP_EQUAL"
  shows "assoc cmp (xs @ (k, d) # ys) key = d"
proof -
  have "assoc cmp (xs @ (k, d) # ys) key = assoc cmp ((k, d) # ys) key"
    using splits_outside [OF assms(1) splits_equal [OF assms(1,3,2)]]
    by (intro assoc_append_left) (simp add: image_Un)
  then show ?thesis using assms(3) by simp
qed

section \<open>Update functions\<close>

text \<open>The data that replaces \<open>old\<close>, when the caller gives the data and perhaps an update function.\<close>

definition updated :: "(word_t \<Rightarrow> word_t \<Rightarrow> word_t) option \<Rightarrow> word_t \<Rightarrow> word_t \<Rightarrow> word_t" where
  "updated f old data = (case f of None \<Rightarrow> data | Some f \<Rightarrow> f old data)"

lemma updated_None [simp]: "updated None old data = data"
  by (simp add: updated_def)

end
