(* ===== verification/Avl.thy ===== *)
theory Avl
  imports Item_Lists
begin

text \<open>
  The AVL tree of \<^verbatim>\<open>avl.c\<close>.  Items are in the leaves; an internal node has its height in
  the low 24 bits of its first word, a key that separates its sons, and the two sons.  A key goes
  left of a separator that is greater or equal.  Both operations copy the path from the root, so
  the destructive updates touch only cells allocated by the same call: a node on the table
  \<^verbatim>\<open>path\<close> is kept with the hole of the son that is still being built.  \<open>None\<close> as the
  result of an operation is a write behind the 50 entries of \<^verbatim>\<open>path\<close> or a read behind the end
  of a leaf cell.  Data are words, with \<open>NULL_WORD\<close> for \<open>NULL_PTR\<close>.

  \<^verbatim>\<open>avl_delete\<close> loses a rotated root (\<open>avl_delete_loses_rotated_root\<close>); the deletion by byte code,
  \<open>avl_bc_remove\<close>, keeps it and is the one that fulfils the contract of a keyed store.
\<close>

section \<open>Cells, heights and rotations\<close>

datatype 'k avl =
    CELL_avl_leaf 'k word_t
  | CELL_avl_internal nat 'k "'k avl" "'k avl"

definition AVL_MAX_ALLOCATION_IN_INSERT :: nat where
  "AVL_MAX_ALLOCATION_IN_INSERT = 207"

definition AVL_MAX_ALLOCATION_IN_DELETE :: nat where
  "AVL_MAX_ALLOCATION_IN_DELETE = 583"

definition AVL_BC_DELVE_MAX_ALLOCATION :: nat where
  "AVL_BC_DELVE_MAX_ALLOCATION = 3"

text \<open>The low 24 bits of the first word; \<^verbatim>\<open>HEIGHT(p)\<close> and \<^verbatim>\<open>BALANCE(p)\<close> read the sons.\<close>

fun stored_height :: "'k avl \<Rightarrow> nat" where
  "stored_height (CELL_avl_leaf _ _) = 0"
| "stored_height (CELL_avl_internal h _ _ _) = h"

definition HEIGHT_of :: "'k avl \<Rightarrow> 'k avl \<Rightarrow> nat" where
  "HEIGHT_of l r =
    (if stored_height l > stored_height r then stored_height l + 1 else stored_height r + 1)"

fun BALANCE :: "'k avl \<Rightarrow> int option" where
  "BALANCE (CELL_avl_leaf _ _) = None"
| "BALANCE (CELL_avl_internal _ _ l r) = Some (int (stored_height r) - int (stored_height l))"

definition new_node :: "'k \<Rightarrow> 'k avl \<Rightarrow> 'k avl \<Rightarrow> 'k avl" where
  "new_node k l r = CELL_avl_internal (HEIGHT_of l r) k l r"

fun simple_rotate_right :: "'k avl \<Rightarrow> nat \<Rightarrow> ('k avl \<times> nat) option" where
  "simple_rotate_right (CELL_avl_internal _ k2 (CELL_avl_internal _ k1 a b) c) ap =
    Some (new_node k1 a (new_node k2 b c), ap + 4)"
| "simple_rotate_right _ _ = None"

fun simple_rotate_left :: "'k avl \<Rightarrow> nat \<Rightarrow> ('k avl \<times> nat) option" where
  "simple_rotate_left (CELL_avl_internal _ k1 a (CELL_avl_internal _ k2 b c)) ap =
    Some (new_node k2 (new_node k1 a b) c, ap + 4)"
| "simple_rotate_left _ _ = None"

fun double_rotate_right :: "'k avl \<Rightarrow> nat \<Rightarrow> ('k avl \<times> nat) option" where
  "double_rotate_right (CELL_avl_internal _ k3 (CELL_avl_internal _ k1 a (CELL_avl_internal _ k2 b c)) d) ap =
    Some (new_node k2 (new_node k1 a b) (new_node k3 c d), ap + 8)"
| "double_rotate_right _ _ = None"

fun double_rotate_left :: "'k avl \<Rightarrow> nat \<Rightarrow> ('k avl \<times> nat) option" where
  "double_rotate_left (CELL_avl_internal _ k1 a (CELL_avl_internal _ k3 (CELL_avl_internal _ k2 b c) d)) ap =
    Some (new_node k2 (new_node k1 a b) (new_node k3 c d), ap + 8)"
| "double_rotate_left _ _ = None"

section \<open>Searching\<close>

fun avl_find_min_node :: "'k avl \<Rightarrow> word_t" where
  "avl_find_min_node (CELL_avl_internal _ _ l _) = avl_find_min_node l"
| "avl_find_min_node (CELL_avl_leaf _ d) = d"

definition avl_find_min :: "'k avl option \<Rightarrow> word_t" where
  "avl_find_min root = (case root of None \<Rightarrow> NULL_WORD | Some p \<Rightarrow> avl_find_min_node p)"

fun avl_find_node :: "('k \<Rightarrow> 'k \<Rightarrow> cmp_result_t) \<Rightarrow> 'k avl \<Rightarrow> 'k \<Rightarrow> word_t" where
  "avl_find_node cmp (CELL_avl_internal _ k l r) key =
    (let cmp_result = cmp key k
     in if cmp_result = CMP_ERROR then NULL_WORD
        else if cmp_result = CMP_LESS \<or> cmp_result = CMP_EQUAL then avl_find_node cmp l key
        else avl_find_node cmp r key)"
| "avl_find_node cmp (CELL_avl_leaf k d) key =
    (if cmp key k \<noteq> CMP_EQUAL then NULL_WORD else d)"

definition avl_find :: "('k \<Rightarrow> 'k \<Rightarrow> cmp_result_t) \<Rightarrow> 'k avl option \<Rightarrow> 'k \<Rightarrow> word_t" where
  "avl_find cmp root key = (case root of None \<Rightarrow> NULL_WORD | Some p \<Rightarrow> avl_find_node cmp p key)"

section \<open>The table of copied nodes\<close>

text \<open>
  An entry of \<^verbatim>\<open>path\<close>: the index \<^verbatim>\<open>son\<close> (2 is left, 3 is right) at which the next node is
  chained, and the other words of the copied node.  The list has the innermost entry first.
\<close>

datatype side = son_2 | son_3

datatype 'k path_entry = Path_entry (son: side) (p0: nat) (p1: 'k) (sibling: "'k avl")

definition chain :: "'k path_entry \<Rightarrow> 'k avl \<Rightarrow> 'k avl" where
  "chain e p =
    (case son e of
       son_2 \<Rightarrow> CELL_avl_internal (p0 e) (p1 e) p (sibling e)
     | son_3 \<Rightarrow> CELL_avl_internal (p0 e) (p1 e) (sibling e) p)"

text \<open>\<^verbatim>\<open>path[0].node\<close> once \<open>p\<close> is chained to the innermost entry.\<close>

fun path_0_node :: "'k path_entry list \<Rightarrow> 'k avl \<Rightarrow> 'k avl" where
  "path_0_node [] p = p"
| "path_0_node (e # path) p = path_0_node path (chain e p)"

text \<open>\<^verbatim>\<open>p[0] >>= 24; p[0] <<= 24; p[0] |= HEIGHT(p)\<close>\<close>

fun refresh_height :: "'k avl \<Rightarrow> 'k avl" where
  "refresh_height (CELL_avl_internal _ k l r) = new_node k l r"
| "refresh_height p = p"

fun left_son :: "'k avl \<Rightarrow> 'k avl option" where
  "left_son (CELL_avl_internal _ _ l _) = Some l"
| "left_son _ = None"

fun right_son :: "'k avl \<Rightarrow> 'k avl option" where
  "right_son (CELL_avl_internal _ _ _ r) = Some r"
| "right_son _ = None"

text \<open>
  The loop down the tree, common to both operations: \<open>Some (Inl ())\<close> is the return on
  \<open>CMP_ERROR\<close>, \<open>Some (Inr _)\<close> the leaf that was reached.
\<close>

fun descend :: "('k \<Rightarrow> 'k \<Rightarrow> cmp_result_t) \<Rightarrow> 'k \<Rightarrow> 'k avl \<Rightarrow> 'k path_entry list \<Rightarrow> nat \<Rightarrow>
    (unit + 'k \<times> word_t \<times> 'k path_entry list \<times> nat) option" where
  "descend cmp key (CELL_avl_internal h k l r) path ap =
    (if 50 \<le> length path then None
     else
       let cmp_result = cmp key k
       in if cmp_result = CMP_ERROR then Some (Inl ())
          else if cmp_result = CMP_LESS \<or> cmp_result = CMP_EQUAL
          then descend cmp key l (Path_entry son_2 h k r # path) (ap + 4)
          else descend cmp key r (Path_entry son_3 h k l # path) (ap + 4))"
| "descend cmp key (CELL_avl_leaf k d) path ap = Some (Inr (k, d, path, ap))"

section \<open>Insertion\<close>

definition rotate_insert_right :: "'k avl \<Rightarrow> nat \<Rightarrow> ('k avl \<times> nat) option" where
  "rotate_insert_right p ap = do {
     q \<leftarrow> left_son p;
     balance_of_son \<leftarrow> BALANCE q;
     (if balance_of_son = -1 then simple_rotate_right p ap
      else if balance_of_son = 1 then double_rotate_right p ap
      else Some (p, ap)) }"

definition rotate_insert_left :: "'k avl \<Rightarrow> nat \<Rightarrow> ('k avl \<times> nat) option" where
  "rotate_insert_left p ap = do {
     q \<leftarrow> right_son p;
     balance_of_son \<leftarrow> BALANCE q;
     (if balance_of_son = 1 then simple_rotate_left p ap
      else if balance_of_son = -1 then double_rotate_left p ap
      else Some (p, ap)) }"

fun insert_up :: "'k path_entry list \<Rightarrow> 'k avl \<Rightarrow> nat \<Rightarrow> ('k avl \<times> nat) option" where
  "insert_up [] p ap = Some (p, ap)"
| "insert_up (e # path) new_p ap = (let p = chain e new_p in do {
     balance \<leftarrow> BALANCE p;
     (if balance < -1 then do { (p', ap') \<leftarrow> rotate_insert_right p ap; Some (path_0_node path p', ap') }
      else if balance > 1 then do { (p', ap') \<leftarrow> rotate_insert_left p ap; Some (path_0_node path p', ap') }
      else insert_up path (refresh_height p) ap) })"

definition avl_insert :: "('k \<Rightarrow> 'k \<Rightarrow> cmp_result_t) \<Rightarrow> (word_t \<Rightarrow> word_t \<Rightarrow> word_t) option \<Rightarrow>
    'k avl option \<Rightarrow> 'k \<Rightarrow> word_t \<Rightarrow> nat \<Rightarrow> ('k avl option \<times> nat) option" where
  "avl_insert cmp update_fun root key data ap =
    (case root of
       None \<Rightarrow>
         (let data = (case update_fun of None \<Rightarrow> data | Some f \<Rightarrow> f NULL_WORD data)
          in Some (Some (CELL_avl_leaf key data), ap + 3))
     | Some p \<Rightarrow> do {
         result \<leftarrow> descend cmp key p [] ap;
         (case result of
            Inl _ \<Rightarrow> Some (root, ap)
          | Inr (k, d, path, ap1) \<Rightarrow>
              let cmp_result = cmp key k
              in if cmp_result = CMP_ERROR then Some (root, ap)
                 else
                   let data = (case update_fun of None \<Rightarrow> data | Some f \<Rightarrow> f d data)
                   in if cmp_result = CMP_EQUAL then
                        if d = data then Some (root, ap)
                        else Some (Some (path_0_node path (CELL_avl_leaf key data)), ap1 + 3)
                      else
                        let item = CELL_avl_leaf key data;
                            new_p = (if cmp_result = CMP_LESS
                                     then CELL_avl_internal 1 key item (CELL_avl_leaf k d)
                                     else CELL_avl_internal 1 k (CELL_avl_leaf k d) item)
                        in do { (new_root, ap2) \<leftarrow> insert_up path new_p (ap1 + 3 + 4);
                                Some (Some new_root, ap2) }) })"

section \<open>Deletion\<close>

definition rotate_delete_right :: "'k avl \<Rightarrow> nat \<Rightarrow> ('k avl \<times> nat) option" where
  "rotate_delete_right p ap = do {
     q \<leftarrow> left_son p;
     balance_of_son \<leftarrow> BALANCE q;
     (if balance_of_son = 1 then double_rotate_right p ap else simple_rotate_right p ap) }"

definition rotate_delete_left :: "'k avl \<Rightarrow> nat \<Rightarrow> ('k avl \<times> nat) option" where
  "rotate_delete_left p ap = do {
     q \<leftarrow> right_son p;
     balance_of_son \<leftarrow> BALANCE q;
     (if balance_of_son = -1 then double_rotate_left p ap else simple_rotate_left p ap) }"

text \<open>
  The loop upwards.  A rotation rewrites the cell \<^verbatim>\<open>p\<close> in place and returns a new cell that has \<^verbatim>\<open>p\<close>
  as its son: the right son after a rotation to the right, the left one after a rotation to the left.
  The new cell is chained to the entry above; at level 0 it is chained nowhere and the function
  returns \<^verbatim>\<open>path[0].node\<close>, which is the rewritten \<^verbatim>\<open>p\<close>.
\<close>

fun delete_up :: "'k path_entry list \<Rightarrow> 'k avl \<Rightarrow> nat \<Rightarrow> ('k avl \<times> nat) option" where
  "delete_up [] p ap = Some (p, ap)"
| "delete_up (e # path) new_p ap = (let p = chain e new_p in do {
     balance \<leftarrow> BALANCE p;
     (if balance < -1 then do {
        (p', ap') \<leftarrow> rotate_delete_right p ap;
        (if path = [] then do { path_0 \<leftarrow> right_son p'; Some (path_0, ap') } else delete_up path p' ap') }
      else if balance > 1 then do {
        (p', ap') \<leftarrow> rotate_delete_left p ap;
        (if path = [] then do { path_0 \<leftarrow> left_son p'; Some (path_0, ap') } else delete_up path p' ap') }
      else delete_up path (refresh_height p) ap) })"

definition avl_delete :: "('k \<Rightarrow> 'k \<Rightarrow> cmp_result_t) \<Rightarrow> (word_t \<Rightarrow> word_t \<Rightarrow> word_t) option \<Rightarrow>
    'k avl option \<Rightarrow> 'k \<Rightarrow> word_t \<Rightarrow> nat \<Rightarrow> ('k avl option \<times> nat) option" where
  "avl_delete cmp delete_fun root key data ap =
    (case root of
       None \<Rightarrow> Some (None, ap)
     | Some p \<Rightarrow> do {
         result \<leftarrow> descend cmp key p [] ap;
         (case result of
            Inl _ \<Rightarrow> Some (root, ap)
          | Inr (k, d, path, ap1) \<Rightarrow>
              if cmp key k \<noteq> CMP_EQUAL then Some (root, ap)
              else (case delete_fun of
                Some f \<Rightarrow>
                  (let data = f d data
                   in if d = data then Some (root, ap)
                      else Some (Some (path_0_node path (CELL_avl_leaf k data)), ap1 + 3))
              | None \<Rightarrow>
                  (case path of
                     [] \<Rightarrow> Some (None, ap1)
                   | e # path' \<Rightarrow> do {
                       (new_root, ap2) \<leftarrow> delete_up path' (sibling e) ap1;
                       Some (Some new_root, ap2) }))) })"

section \<open>Insertion and deletion driven by byte code\<close>

text \<open>
  A \<open>CELL_history\<close> has a node and, in its low bits, the son that was chosen (2 or 3) or 0 for a
  leaf with an equal key; a pointer to one is the list of the cells behind it.
\<close>

type_synonym 'k history = "(nat \<times> 'k avl) list"

definition avl_bc_delve_left :: "'k history \<Rightarrow> 'k avl \<Rightarrow> nat \<Rightarrow> 'k history \<times> nat" where
  "avl_bc_delve_left history node ap = ((2, node) # history, ap + 3)"

definition avl_bc_delve_right :: "'k history \<Rightarrow> 'k avl \<Rightarrow> nat \<Rightarrow> 'k history \<times> nat" where
  "avl_bc_delve_right history node ap = ((3, node) # history, ap + 3)"

definition avl_bc_delve_equal :: "'k history \<Rightarrow> 'k avl \<Rightarrow> nat \<Rightarrow> 'k history \<times> nat" where
  "avl_bc_delve_equal history node ap = ((0, node) # history, ap + 3)"

text \<open>A new node with the key of \<open>p\<close>, with \<open>new_path\<close> as son \<open>ix\<close> and the other son of \<open>p\<close>.\<close>

fun new_path_item :: "nat \<Rightarrow> 'k avl \<Rightarrow> 'k avl \<Rightarrow> 'k avl option" where
  "new_path_item ix (CELL_avl_internal _ k l r) new_path =
    (if ix = 2 then Some (new_node k new_path r)
     else if ix = 3 then Some (new_node k l new_path) else None)"
| "new_path_item ix (CELL_avl_leaf _ _) new_path = None"

fun bc_insert_up :: "'k history \<Rightarrow> 'k avl \<Rightarrow> nat \<Rightarrow> ('k avl \<times> nat) option" where
  "bc_insert_up [] new_path ap = Some (new_path, ap)"
| "bc_insert_up ((ix, p) # history) new_path ap = do {
     q \<leftarrow> new_path_item ix p new_path;
     balance \<leftarrow> BALANCE q;
     (q', ap') \<leftarrow>
       (if balance < -1 then rotate_insert_right q (ap + 4)
        else if balance > 1 then rotate_insert_left q (ap + 4)
        else Some (q, ap + 4));
     bc_insert_up history q' ap' }"

definition avl_bc_insert :: "'k history \<Rightarrow> 'k \<Rightarrow> word_t \<Rightarrow> nat \<Rightarrow> ('k avl \<times> nat) option" where
  "avl_bc_insert history key data ap =
    (let item = CELL_avl_leaf key data
     in case history of
          [] \<Rightarrow> Some (item, ap + 3)
        | (ix, p) # rest \<Rightarrow>
            if ix = 0 then bc_insert_up rest item (ap + 3)
            else if ix = 2 then bc_insert_up rest (CELL_avl_internal 1 key item p) (ap + 3 + 4)
            else
              let k = (case p of CELL_avl_leaf k _ \<Rightarrow> k | CELL_avl_internal _ k _ _ \<Rightarrow> k)
              in bc_insert_up rest (CELL_avl_internal 1 k p item) (ap + 3 + 4))"

fun bc_delete_up :: "'k history \<Rightarrow> 'k avl \<Rightarrow> nat \<Rightarrow> ('k avl \<times> nat) option" where
  "bc_delete_up history new_path ap = do {
     balance \<leftarrow> BALANCE new_path;
     (q, ap') \<leftarrow>
       (if balance < -1 then rotate_delete_right new_path ap
        else if balance > 1 then rotate_delete_left new_path ap
        else Some (new_path, ap));
     (case history of
        [] \<Rightarrow> Some (q, ap')
      | (ix, p) # rest \<Rightarrow> do { item \<leftarrow> new_path_item ix p q; bc_delete_up rest item (ap' + 4) }) }"

definition avl_bc_delete :: "'k history \<Rightarrow> nat \<Rightarrow> ('k avl option \<times> nat) option" where
  "avl_bc_delete history ap =
    (case history of
       [] \<Rightarrow> Some (None, ap)
     | (ix, p) # rest \<Rightarrow> do {
         new_path \<leftarrow> (if ix mod 2 = 0 then right_son p else left_son p);
         (case rest of
            [] \<Rightarrow> Some (Some new_path, ap)
          | (ix', p') # rest' \<Rightarrow> do {
              item \<leftarrow> new_path_item ix' p' new_path;
              (t, ap') \<leftarrow> bc_delete_up rest' item (ap + 4);
              Some (Some t, ap') }) })"

text \<open>
  The two builders of the tests; \<open>None\<close> stands for \<^verbatim>\<open>*result = 0\<close>, with which the history is
  not used.
\<close>

fun build_history :: "('k \<Rightarrow> 'k \<Rightarrow> cmp_result_t) \<Rightarrow> 'k \<Rightarrow> 'k avl \<Rightarrow> 'k history \<Rightarrow> nat \<Rightarrow>
    ('k history \<times> 'k \<times> word_t \<times> nat) option" where
  "build_history cmp key (CELL_avl_internal h k l r) history ap =
    (let cmp_result = cmp key k
     in if cmp_result = CMP_ERROR then None
        else if cmp_result = CMP_LESS \<or> cmp_result = CMP_EQUAL
        then (case avl_bc_delve_left history (CELL_avl_internal h k l r) ap of
                (history', ap') \<Rightarrow> build_history cmp key l history' ap')
        else (case avl_bc_delve_right history (CELL_avl_internal h k l r) ap of
                (history', ap') \<Rightarrow> build_history cmp key r history' ap'))"
| "build_history cmp key (CELL_avl_leaf k d) history ap = Some (history, k, d, ap)"

definition build_history_for_insert :: "('k \<Rightarrow> 'k \<Rightarrow> cmp_result_t) \<Rightarrow> 'k avl option \<Rightarrow> 'k \<Rightarrow> nat \<Rightarrow>
    ('k history \<times> nat) option" where
  "build_history_for_insert cmp root key ap =
    (case root of
       None \<Rightarrow> Some ([], ap)
     | Some t \<Rightarrow> do {
         (history, k, d, ap1) \<leftarrow> build_history cmp key t [] ap;
         let cmp_result = cmp key k;
         (if cmp_result = CMP_ERROR then None
          else if cmp_result = CMP_EQUAL then Some (avl_bc_delve_equal history (CELL_avl_leaf k d) ap1)
          else if cmp_result = CMP_LESS then Some (avl_bc_delve_left history (CELL_avl_leaf k d) ap1)
          else Some (avl_bc_delve_right history (CELL_avl_leaf k d) ap1)) })"

definition build_history_for_delete :: "('k \<Rightarrow> 'k \<Rightarrow> cmp_result_t) \<Rightarrow> 'k avl option \<Rightarrow> 'k \<Rightarrow> nat \<Rightarrow>
    ('k history \<times> nat) option" where
  "build_history_for_delete cmp root key ap =
    (case root of
       None \<Rightarrow> Some ([], ap)
     | Some t \<Rightarrow> do {
         (history, k, d, ap1) \<leftarrow> build_history cmp key t [] ap;
         (if cmp key k \<noteq> CMP_EQUAL then None else Some (history, ap1)) })"

text \<open>The deletion of the test of the byte code routines: the key is deleted when its data were found.\<close>

definition avl_bc_remove :: "('k \<Rightarrow> 'k \<Rightarrow> cmp_result_t) \<Rightarrow> 'k avl option \<Rightarrow> 'k \<Rightarrow> nat \<Rightarrow>
    ('k avl option \<times> nat) option" where
  "avl_bc_remove cmp root key ap =
    (if avl_find cmp root key = NULL_WORD then Some (root, ap)
     else do {
       (history, ap1) \<leftarrow> build_history_for_delete cmp root key ap;
       avl_bc_delete history ap1 })"

section \<open>The assertions of the tests\<close>

fun avl_rec_make_assertions :: "'k avl \<Rightarrow> bool" where
  "avl_rec_make_assertions (CELL_avl_internal h k l r) \<longleftrightarrow>
    avl_rec_make_assertions l \<and> avl_rec_make_assertions r \<and> HEIGHT_of l r \<le> 50 \<and> h \<le> 50 \<and>
    HEIGHT_of l r = h \<and>
    int (stored_height r) - int (stored_height l) > -2 \<and> int (stored_height r) - int (stored_height l) < 2"
| "avl_rec_make_assertions (CELL_avl_leaf _ _) \<longleftrightarrow> True"

definition avl_make_assertions :: "'k avl option \<Rightarrow> bool" where
  "avl_make_assertions root = (case root of None \<Rightarrow> True | Some p \<Rightarrow> avl_rec_make_assertions p)"

section \<open>Items, order and balance\<close>

fun entries :: "'k avl \<Rightarrow> ('k \<times> word_t) list" where
  "entries (CELL_avl_leaf k d) = [(k, d)]"
| "entries (CELL_avl_internal _ _ l r) = entries l @ entries r"

abbreviation avl_keys :: "'k avl \<Rightarrow> 'k set" where
  "avl_keys t \<equiv> fst ` set (entries t)"

text \<open>Which side of a separator a key belongs to.\<close>

definition goes :: "('k \<Rightarrow> 'k \<Rightarrow> cmp_result_t) \<Rightarrow> side \<Rightarrow> 'k \<Rightarrow> 'k \<Rightarrow> bool" where
  "goes cmp s key k \<longleftrightarrow> (case s of son_2 \<Rightarrow> cmp key k \<noteq> CMP_GREATER | son_3 \<Rightarrow> cmp key k = CMP_GREATER)"

lemma goes_simps [simp]:
  "goes cmp son_2 key k \<longleftrightarrow> cmp key k \<noteq> CMP_GREATER" "goes cmp son_3 key k \<longleftrightarrow> cmp key k = CMP_GREATER"
  by (simp_all add: goes_def)

fun ordered :: "('k \<Rightarrow> 'k \<Rightarrow> cmp_result_t) \<Rightarrow> 'k avl \<Rightarrow> bool" where
  "ordered cmp (CELL_avl_leaf _ _) \<longleftrightarrow> True"
| "ordered cmp (CELL_avl_internal _ k l r) \<longleftrightarrow> ordered cmp l \<and> ordered cmp r \<and>
    (\<forall>x \<in> avl_keys l. goes cmp son_2 x k) \<and> (\<forall>x \<in> avl_keys r. goes cmp son_3 x k)"

fun balanced :: "'k avl \<Rightarrow> bool" where
  "balanced (CELL_avl_leaf _ _) \<longleftrightarrow> True"
| "balanced (CELL_avl_internal h _ l r) \<longleftrightarrow> balanced l \<and> balanced r \<and> h = HEIGHT_of l r \<and>
    stored_height l \<le> stored_height r + 1 \<and> stored_height r \<le> stored_height l + 1"

lemma goes_apart:
  assumes "total_cmp cmp" and "goes cmp son_2 x k" and "goes cmp son_3 y k"
  shows "cmp x y = CMP_LESS" and "cmp y x = CMP_GREATER"
proof -
  have ky: "cmp k y = CMP_LESS" using assms(3) total_cmpD(3) [OF assms(1)] by simp
  show l: "cmp x y = CMP_LESS"
    using assms(2) total_cmpD(2) [OF assms(1), of x k] total_cmpD(4) [OF assms(1), of x k y, OF _ ky]
      total_cmpD(5) [OF assms(1), of x k y] ky by auto
  then show "cmp y x = CMP_GREATER" using total_cmpD(3) [OF assms(1)] by blast
qed

lemma goes_other_side:
  assumes "total_cmp cmp" and "goes cmp s key k" and "\<not> goes cmp s x k"
  shows "cmp key x \<noteq> CMP_EQUAL"
  using goes_apart [OF assms(1), of key k x] goes_apart [OF assms(1), of x k key] assms
  by (cases s) auto

lemma avl_find_node_assoc:
  assumes "total_cmp cmp"
  shows "ordered cmp t \<Longrightarrow> avl_find_node cmp t key = assoc cmp (entries t) key"
proof (induction t)
  case (CELL_avl_internal h k l r)
  show ?case
  proof (cases "goes cmp son_2 key k")
    case True
    then have "\<And>x. x \<in> avl_keys r \<Longrightarrow> cmp key x \<noteq> CMP_EQUAL"
      using goes_other_side [OF assms True] CELL_avl_internal.prems by auto
    then have "assoc cmp (entries l @ entries r) key = assoc cmp (entries l) key" by (rule assoc_append_right)
    then show ?thesis using CELL_avl_internal True total_cmpD(2) [OF assms, of key k] by (auto simp: Let_def)
  next
    case False
    then have "\<And>x. x \<in> avl_keys l \<Longrightarrow> cmp key x \<noteq> CMP_EQUAL"
      using goes_other_side [OF assms, of son_3 key k] CELL_avl_internal.prems by auto
    then have "assoc cmp (entries l @ entries r) key = assoc cmp (entries r) key" by (rule assoc_append_left)
    then show ?thesis using CELL_avl_internal False total_cmpD(2) [OF assms, of key k] by (auto simp: Let_def)
  qed
qed auto

section \<open>Paths\<close>

lemma chain_simps [simp]:
  "chain (Path_entry son_2 h k r) p = CELL_avl_internal h k p r"
  "chain (Path_entry son_3 h k l) p = CELL_avl_internal h k l p"
  by (simp_all add: chain_def)

text \<open>The items to the left and to the right of the hole of a path.\<close>

fun items_before :: "'k path_entry list \<Rightarrow> ('k \<times> word_t) list" where
  "items_before [] = []"
| "items_before (Path_entry s h k t # path) = items_before path @ (case s of son_2 \<Rightarrow> [] | son_3 \<Rightarrow> entries t)"

fun items_after :: "'k path_entry list \<Rightarrow> ('k \<times> word_t) list" where
  "items_after [] = []"
| "items_after (Path_entry s h k t # path) = (case s of son_2 \<Rightarrow> entries t | son_3 \<Rightarrow> []) @ items_after path"

lemma entries_path_0_node:
  "entries (path_0_node path p) = items_before path @ entries p @ items_after path"
proof (induction path arbitrary: p)
  case (Cons e path)
  then show ?case by (cases e) (auto split: side.split simp: chain_def)
qed simp

fun in_path :: "('k \<Rightarrow> 'k \<Rightarrow> cmp_result_t) \<Rightarrow> 'k path_entry list \<Rightarrow> 'k \<Rightarrow> bool" where
  "in_path cmp [] x \<longleftrightarrow> True"
| "in_path cmp (Path_entry s h k t # path) x \<longleftrightarrow> goes cmp s x k \<and> in_path cmp path x"

fun other :: "side \<Rightarrow> side" where
  "other son_2 = son_3" | "other son_3 = son_2"

fun path_ordered :: "('k \<Rightarrow> 'k \<Rightarrow> cmp_result_t) \<Rightarrow> 'k path_entry list \<Rightarrow> bool" where
  "path_ordered cmp [] \<longleftrightarrow> True"
| "path_ordered cmp (Path_entry s h k t # path) \<longleftrightarrow> ordered cmp t \<and>
    (\<forall>x \<in> avl_keys t. goes cmp (other s) x k \<and> in_path cmp path x) \<and> path_ordered cmp path"

lemma ordered_path_0_node:
  "ordered cmp (path_0_node path p) \<longleftrightarrow>
    ordered cmp p \<and> (\<forall>x \<in> avl_keys p. in_path cmp path x) \<and> path_ordered cmp path"
proof (induction path arbitrary: p)
  case (Cons e path)
  obtain s h k t where e: "e = Path_entry s h k t" by (cases e)
  show ?case unfolding e path_0_node.simps Cons.IH by (cases s) (auto simp: chain_def ball_Un image_Un)
qed simp

lemma outside_path:
  assumes "total_cmp cmp" and "path_ordered cmp path" and "in_path cmp path key"
    and "x \<in> fst ` set (items_before path @ items_after path)"
  shows "cmp key x \<noteq> CMP_EQUAL"
  using assms(2-4)
proof (induction path)
  case (Cons e path)
  obtain s h k t where e: "e = Path_entry s h k t" by (cases e)
  show ?case
  proof (cases "x \<in> avl_keys t")
    case True
    then have "\<not> goes cmp s x k" using Cons.prems(1) unfolding e by (cases s) auto
    then show ?thesis using goes_other_side [OF assms(1)] Cons.prems(2) unfolding e by auto
  next
    case False
    then show ?thesis using Cons unfolding e by (cases s) auto
  qed
qed simp

text \<open>\<open>path_balanced path n\<close>: a balanced tree of height \<open>n\<close> in the hole gives a balanced tree.\<close>

fun path_balanced :: "'k path_entry list \<Rightarrow> nat \<Rightarrow> bool" where
  "path_balanced [] n \<longleftrightarrow> True"
| "path_balanced (Path_entry s h k t # path) n \<longleftrightarrow> balanced t \<and> n \<le> stored_height t + 1 \<and>
    stored_height t \<le> n + 1 \<and> h = Suc (max n (stored_height t)) \<and> path_balanced path h"

lemma HEIGHT_of_max: "HEIGHT_of l r = Suc (max (stored_height l) (stored_height r))"
  by (simp add: HEIGHT_of_def max_def)

lemma stored_new_node [simp]: "stored_height (new_node k l r) = Suc (max (stored_height l) (stored_height r))"
  by (simp add: new_node_def HEIGHT_of_max)

lemma balanced_path_0_node:
  "balanced (path_0_node path p) \<longleftrightarrow> balanced p \<and> path_balanced path (stored_height p)"
proof (induction path arbitrary: p)
  case (Cons e path)
  obtain s h k t where e: "e = Path_entry s h k t" by (cases e)
  show ?case unfolding e path_0_node.simps Cons.IH by (cases s) (auto simp: HEIGHT_of_max max.commute)
qed simp

text \<open>The loop down the tree never leaves its table on a tree of height at most 50.\<close>

fun path_height :: "'k path_entry list \<Rightarrow> nat \<Rightarrow> nat" where
  "path_height [] n = n"
| "path_height (e # path) n = path_height path (p0 e)"

lemma descend_ok:
  assumes cmp: "total_cmp cmp"
  shows "balanced p \<Longrightarrow> length path + stored_height p \<le> 50 \<Longrightarrow> in_path cmp path key \<Longrightarrow>
    \<exists>k d path' ap'. descend cmp key p path ap = Some (Inr (k, d, path', ap')) \<and>
      path_0_node path' (CELL_avl_leaf k d) = path_0_node path p \<and> in_path cmp path' key \<and>
      length path' \<le> length path + stored_height p \<and> ap' + 4 * length path = ap + 4 * length path'"
proof (induction p arbitrary: path ap)
  case (CELL_avl_leaf k d)
  then show ?case by simp
next
  case (CELL_avl_internal h k l r)
  have h: "Suc (stored_height l) \<le> h" "Suc (stored_height r) \<le> h" "length path < 50"
    using CELL_avl_internal.prems by (auto simp: HEIGHT_of_max)
  show ?case
  proof (cases "goes cmp son_2 key k")
    case True
    then have c: "cmp key k = CMP_LESS \<or> cmp key k = CMP_EQUAL" "cmp key k \<noteq> CMP_ERROR"
      using total_cmpD(2) [OF cmp, of key k] by auto
    obtain k' d path' ap' where "descend cmp key l (Path_entry son_2 h k r # path) (ap + 4) = Some (Inr (k', d, path', ap'))"
        "path_0_node path' (CELL_avl_leaf k' d) = path_0_node (Path_entry son_2 h k r # path) l"
        "in_path cmp path' key" "length path' \<le> length (Path_entry son_2 h k r # path) + stored_height l"
        "ap' + 4 * length (Path_entry son_2 h k r # path) = ap + 4 + 4 * length path'"
      using CELL_avl_internal.IH(1) [of "Path_entry son_2 h k r # path" "ap + 4"] CELL_avl_internal.prems h True
      by auto
    then show ?thesis using h c by (auto simp: Let_def)
  next
    case False
    then have c: "\<not> (cmp key k = CMP_LESS \<or> cmp key k = CMP_EQUAL)" "cmp key k \<noteq> CMP_ERROR"
      by auto
    obtain k' d path' ap' where "descend cmp key r (Path_entry son_3 h k l # path) (ap + 4) = Some (Inr (k', d, path', ap'))"
        "path_0_node path' (CELL_avl_leaf k' d) = path_0_node (Path_entry son_3 h k l # path) r"
        "in_path cmp path' key" "length path' \<le> length (Path_entry son_3 h k l # path) + stored_height r"
        "ap' + 4 * length (Path_entry son_3 h k l # path) = ap + 4 + 4 * length path'"
      using CELL_avl_internal.IH(2) [of "Path_entry son_3 h k l # path" "ap + 4"] CELL_avl_internal.prems h False
      by auto
    then show ?thesis using h c by (auto simp: Let_def)
  qed
qed

section \<open>Rotations\<close>

text \<open>What a rotation keeps: the items in order, and the separators.\<close>

definition same_items :: "('k \<Rightarrow> 'k \<Rightarrow> cmp_result_t) \<Rightarrow> 'k avl \<Rightarrow> 'k avl \<Rightarrow> bool" where
  "same_items cmp p q \<longleftrightarrow> entries q = entries p \<and> (ordered cmp p \<longrightarrow> ordered cmp q)"

lemma same_items_refl [simp]: "same_items cmp p p"
  by (simp add: same_items_def)

lemma same_items_trans: "same_items cmp p q \<Longrightarrow> same_items cmp q r \<Longrightarrow> same_items cmp p r"
  by (simp add: same_items_def)

lemma same_items_path:
  assumes "same_items cmp p q"
  shows "same_items cmp (path_0_node path p) (path_0_node path q)"
  using assms by (auto simp: same_items_def entries_path_0_node ordered_path_0_node)

lemma new_node_items [simp]:
  "entries (new_node k l r) = entries l @ entries r"
  "ordered cmp (new_node k l r) \<longleftrightarrow> ordered cmp (CELL_avl_internal 0 k l r)"
  "balanced (new_node k l r) \<longleftrightarrow> balanced l \<and> balanced r \<and>
    stored_height l \<le> stored_height r + 1 \<and> stored_height r \<le> stored_height l + 1"
  "BALANCE (new_node k l r) = Some (int (stored_height r) - int (stored_height l))"
  by (simp_all add: new_node_def)

lemma refresh_height_items [simp]: "same_items cmp p (refresh_height p)"
  by (cases p) (simp_all add: same_items_def)

lemma goes_between:
  assumes "total_cmp cmp" and "goes cmp son_3 x k1" and "goes cmp son_2 x k2"
  shows "goes cmp son_2 y k1 \<Longrightarrow> goes cmp son_2 y k2" and "goes cmp son_3 y k2 \<Longrightarrow> goes cmp son_3 y k1"
proof -
  have yx: "goes cmp son_2 y k1 \<Longrightarrow> cmp y x = CMP_LESS" using goes_apart [OF assms(1) _ assms(2)] by blast
  have le: "goes cmp son_2 a b \<longleftrightarrow> cmp_le cmp a b" for a b by (simp add: cmp_le_def)
  show l: "goes cmp son_2 y k1 \<Longrightarrow> goes cmp son_2 y k2"
    using yx cmp_le_trans [OF assms(1), of y x k2] assms(3) unfolding le by (auto simp: cmp_le_def)
  show "goes cmp son_3 y k2 \<Longrightarrow> goes cmp son_3 y k1" using l by auto
qed

lemma avl_keys_nonempty: "\<exists>x. x \<in> avl_keys t"
proof -
  have "entries t \<noteq> []" by (induction t) auto
  then show ?thesis by (cases "entries t") auto
qed

lemma separators_between:
  assumes "total_cmp cmp" and "\<forall>x \<in> avl_keys t. goes cmp son_3 x k1" and "\<forall>x \<in> avl_keys t. goes cmp son_2 x k2"
  shows "goes cmp son_2 y k1 \<Longrightarrow> goes cmp son_2 y k2" and "goes cmp son_3 y k2 \<Longrightarrow> goes cmp son_3 y k1"
  using avl_keys_nonempty [of t] goes_between [OF assms(1)] assms(2,3) by blast+

lemma separators_ordered:
  assumes "total_cmp cmp" and "\<forall>x \<in> avl_keys t. goes cmp son_3 x k1 \<and> goes cmp son_2 x k2"
  shows "(\<forall>y. goes cmp son_2 y k1 \<longrightarrow> goes cmp son_2 y k2) \<and> (\<forall>y. goes cmp son_3 y k2 \<longrightarrow> goes cmp son_3 y k1)"
  using separators_between [OF assms(1), of t k1 k2] assms(2) by blast

lemma simple_rotate_items:
  assumes "total_cmp cmp"
  shows "simple_rotate_right p ap = Some (q, ap') \<Longrightarrow> same_items cmp p q \<and> ap' = ap + 4"
    and "simple_rotate_left p ap = Some (q, ap') \<Longrightarrow> same_items cmp p q \<and> ap' = ap + 4"
proof -
  have right: "same_items cmp (CELL_avl_internal h k2 (CELL_avl_internal h' k1 a b) c) (new_node k1 a (new_node k2 b c))"
    for h k2 h' k1 a b c
  proof (unfold same_items_def, intro conjI impI)
    assume o: "ordered cmp (CELL_avl_internal h k2 (CELL_avl_internal h' k1 a b) c)"
    have k: "\<forall>x \<in> avl_keys b. goes cmp son_3 x k1 \<and> goes cmp son_2 x k2"
      using o by (auto simp del: goes_simps)
    note s1 = separators_ordered [OF assms k]
    show "ordered cmp (new_node k1 a (new_node k2 b c))"
      using o s1 by (simp add: ball_Un image_Un del: goes_simps; blast)
  qed simp
  have left: "same_items cmp (CELL_avl_internal h k1 a (CELL_avl_internal h' k2 b c)) (new_node k2 (new_node k1 a b) c)"
    for h k1 a h' k2 b c
  proof (unfold same_items_def, intro conjI impI)
    assume o: "ordered cmp (CELL_avl_internal h k1 a (CELL_avl_internal h' k2 b c))"
    have k: "\<forall>x \<in> avl_keys b. goes cmp son_3 x k1 \<and> goes cmp son_2 x k2"
      using o by (auto simp del: goes_simps)
    note s1 = separators_ordered [OF assms k]
    show "ordered cmp (new_node k2 (new_node k1 a b) c)"
      using o s1 by (simp add: ball_Un image_Un del: goes_simps; blast)
  qed simp
  show "simple_rotate_right p ap = Some (q, ap') \<Longrightarrow> same_items cmp p q \<and> ap' = ap + 4"
    using right by (cases "(p, ap)" rule: simple_rotate_right.cases) auto
  show "simple_rotate_left p ap = Some (q, ap') \<Longrightarrow> same_items cmp p q \<and> ap' = ap + 4"
    using left by (cases "(p, ap)" rule: simple_rotate_left.cases) auto
qed

lemma double_rotate_items:
  assumes "total_cmp cmp"
  shows "double_rotate_right p ap = Some (q, ap') \<Longrightarrow> same_items cmp p q \<and> ap' = ap + 8"
    and "double_rotate_left p ap = Some (q, ap') \<Longrightarrow> same_items cmp p q \<and> ap' = ap + 8"
proof -
  have right: "same_items cmp (CELL_avl_internal h k3 (CELL_avl_internal h1 k1 a (CELL_avl_internal h2 k2 b c)) d)
      (new_node k2 (new_node k1 a b) (new_node k3 c d))" for h k3 h1 k1 a h2 k2 b c d
  proof (unfold same_items_def, intro conjI impI)
    assume o: "ordered cmp (CELL_avl_internal h k3 (CELL_avl_internal h1 k1 a (CELL_avl_internal h2 k2 b c)) d)"
    have k: "\<forall>x \<in> avl_keys b. goes cmp son_3 x k1 \<and> goes cmp son_2 x k2" "\<forall>x \<in> avl_keys c. goes cmp son_3 x k2 \<and> goes cmp son_2 x k3"
      using o by (auto simp del: goes_simps)
    note s1 = separators_ordered [OF assms k(1)]
    note s2 = separators_ordered [OF assms k(2)]
    show "ordered cmp (new_node k2 (new_node k1 a b) (new_node k3 c d))"
      using o s1 s2 by (simp add: ball_Un image_Un del: goes_simps; blast)
  qed simp
  have left: "same_items cmp (CELL_avl_internal h k1 a (CELL_avl_internal h3 k3 (CELL_avl_internal h2 k2 b c) d))
      (new_node k2 (new_node k1 a b) (new_node k3 c d))" for h k1 a h3 k3 h2 k2 b c d
  proof (unfold same_items_def, intro conjI impI)
    assume o: "ordered cmp (CELL_avl_internal h k1 a (CELL_avl_internal h3 k3 (CELL_avl_internal h2 k2 b c) d))"
    have k: "\<forall>x \<in> avl_keys b. goes cmp son_3 x k1 \<and> goes cmp son_2 x k2" "\<forall>x \<in> avl_keys c. goes cmp son_3 x k2 \<and> goes cmp son_2 x k3"
      using o by (auto simp del: goes_simps)
    note s1 = separators_ordered [OF assms k(1)]
    note s2 = separators_ordered [OF assms k(2)]
    show "ordered cmp (new_node k2 (new_node k1 a b) (new_node k3 c d))"
      using o s1 s2 by (simp add: ball_Un image_Un del: goes_simps; blast)
  qed simp
  show "double_rotate_right p ap = Some (q, ap') \<Longrightarrow> same_items cmp p q \<and> ap' = ap + 8"
    using right by (cases "(p, ap)" rule: double_rotate_right.cases) auto
  show "double_rotate_left p ap = Some (q, ap') \<Longrightarrow> same_items cmp p q \<and> ap' = ap + 8"
    using left by (cases "(p, ap)" rule: double_rotate_left.cases) auto
qed

text \<open>
  A node whose sons are balanced but differ in height by two is balanced by a rotation.  After an
  insertion the higher son itself leans to a side, and the height is again what it was before.
\<close>

lemma rotate_insert_right_ok:
  assumes cmp: "total_cmp cmp" and "balanced l" and "balanced r" and "stored_height l = Suc (Suc (stored_height r))"
    and "BALANCE l \<noteq> Some 0"
  shows "\<exists>q ap'. rotate_insert_right (CELL_avl_internal h k l r) ap = Some (q, ap') \<and> balanced q \<and>
    stored_height q = stored_height l \<and> same_items cmp (CELL_avl_internal h k l r) q \<and> ap \<le> ap' \<and> ap' \<le> ap + 8"
proof -
  obtain hl kl a b where l: "l = CELL_avl_internal hl kl a b" using assms(4) by (cases l) auto
  consider "stored_height a = Suc (stored_height b)" | "stored_height b = Suc (stored_height a)"
    using assms(2,5) unfolding l by force
  then show ?thesis
  proof cases
    case 1
    then show ?thesis using assms simple_rotate_items(1) [OF cmp, of "CELL_avl_internal h k l r" ap]
      unfolding l by (auto simp: rotate_insert_right_def HEIGHT_of_max)
  next
    case 2
    then obtain hb kb b1 b2 where b: "b = CELL_avl_internal hb kb b1 b2" by (cases b) auto
    then show ?thesis using 2 assms double_rotate_items(1) [OF cmp, of "CELL_avl_internal h k l r" ap]
      unfolding l b by (auto simp: rotate_insert_right_def HEIGHT_of_max)
  qed
qed

lemma rotate_insert_left_ok:
  assumes cmp: "total_cmp cmp" and "balanced l" and "balanced r" and "stored_height r = Suc (Suc (stored_height l))"
    and "BALANCE r \<noteq> Some 0"
  shows "\<exists>q ap'. rotate_insert_left (CELL_avl_internal h k l r) ap = Some (q, ap') \<and> balanced q \<and>
    stored_height q = stored_height r \<and> same_items cmp (CELL_avl_internal h k l r) q \<and> ap \<le> ap' \<and> ap' \<le> ap + 8"
proof -
  obtain hr kr a b where r: "r = CELL_avl_internal hr kr a b" using assms(4) by (cases r) auto
  consider "stored_height b = Suc (stored_height a)" | "stored_height a = Suc (stored_height b)"
    using assms(3,5) unfolding r by force
  then show ?thesis
  proof cases
    case 1
    then show ?thesis using assms simple_rotate_items(2) [OF cmp, of "CELL_avl_internal h k l r" ap]
      unfolding r by (auto simp: rotate_insert_left_def HEIGHT_of_max)
  next
    case 2
    then obtain ha ka a1 a2 where a: "a = CELL_avl_internal ha ka a1 a2" by (cases a) auto
    then show ?thesis using 2 assms double_rotate_items(2) [OF cmp, of "CELL_avl_internal h k l r" ap]
      unfolding r a by (auto simp: rotate_insert_left_def HEIGHT_of_max)
  qed
qed

lemma rotate_delete_right_ok:
  assumes cmp: "total_cmp cmp" and "balanced l" and "balanced r" and "stored_height l = Suc (Suc (stored_height r))"
  shows "\<exists>q ap'. rotate_delete_right (CELL_avl_internal h k l r) ap = Some (q, ap') \<and> balanced q \<and>
    (stored_height q = stored_height l \<or> stored_height q = Suc (stored_height l)) \<and>
    same_items cmp (CELL_avl_internal h k l r) q \<and> ap \<le> ap' \<and> ap' \<le> ap + 8"
proof -
  obtain hl kl a b where l: "l = CELL_avl_internal hl kl a b" using assms(4) by (cases l) auto
  show ?thesis
  proof (cases "stored_height b = Suc (stored_height a)")
    case False
    then have "int (stored_height b) - int (stored_height a) \<noteq> 1" by simp
    then show ?thesis using False assms simple_rotate_items(1) [OF cmp, of "CELL_avl_internal h k l r" ap]
      unfolding l by (auto simp: rotate_delete_right_def HEIGHT_of_max)
  next
    case True
    then obtain hb kb b1 b2 where b: "b = CELL_avl_internal hb kb b1 b2" by (cases b) auto
    then show ?thesis using True assms double_rotate_items(1) [OF cmp, of "CELL_avl_internal h k l r" ap]
      unfolding l b by (auto simp: rotate_delete_right_def HEIGHT_of_max)
  qed
qed

lemma rotate_delete_left_ok:
  assumes cmp: "total_cmp cmp" and "balanced l" and "balanced r" and "stored_height r = Suc (Suc (stored_height l))"
  shows "\<exists>q ap'. rotate_delete_left (CELL_avl_internal h k l r) ap = Some (q, ap') \<and> balanced q \<and>
    (stored_height q = stored_height r \<or> stored_height q = Suc (stored_height r)) \<and>
    same_items cmp (CELL_avl_internal h k l r) q \<and> ap \<le> ap' \<and> ap' \<le> ap + 8"
proof -
  obtain hr kr a b where r: "r = CELL_avl_internal hr kr a b" using assms(4) by (cases r) auto
  show ?thesis
  proof (cases "stored_height a = Suc (stored_height b)")
    case False
    then have "int (stored_height b) - int (stored_height a) \<noteq> -1" by simp
    then show ?thesis using False assms simple_rotate_items(2) [OF cmp, of "CELL_avl_internal h k l r" ap]
      unfolding r by (auto simp: rotate_delete_left_def HEIGHT_of_max)
  next
    case True
    then obtain ha ka a1 a2 where a: "a = CELL_avl_internal ha ka a1 a2" by (cases a) auto
    then show ?thesis using True assms double_rotate_items(2) [OF cmp, of "CELL_avl_internal h k l r" ap]
      unfolding r a by (auto simp: rotate_delete_left_def HEIGHT_of_max)
  qed
qed


section \<open>The way back to the root\<close>

text \<open>The deletion loop with a rotated root that is kept, as \<^verbatim>\<open>avl_bc_delete\<close> keeps it.\<close>

fun rebalance_up :: "'k path_entry list \<Rightarrow> 'k avl \<Rightarrow> nat \<Rightarrow> ('k avl \<times> nat) option" where
  "rebalance_up [] p ap = Some (p, ap)"
| "rebalance_up (e # path) new_p ap = (let p = chain e new_p in do {
     balance \<leftarrow> BALANCE p;
     (p', ap') \<leftarrow>
       (if balance < -1 then rotate_delete_right p ap
        else if balance > 1 then rotate_delete_left p ap
        else Some (refresh_height p, ap));
     rebalance_up path p' ap' })"

lemma path_0_node_same:
  "same_items cmp (chain e t) q \<Longrightarrow> same_items cmp (path_0_node (e # path) t) (path_0_node path q)"
  using same_items_path by simp

lemma insert_up_ok:
  assumes cmp: "total_cmp cmp"
  shows "path_balanced path n \<Longrightarrow> balanced t \<Longrightarrow>
    stored_height t = n \<or> stored_height t = Suc n \<and> (n = 0 \<or> BALANCE t \<noteq> Some 0) \<Longrightarrow>
    \<exists>q ap'. insert_up path t ap = Some (q, ap') \<and> balanced q \<and> same_items cmp (path_0_node path t) q \<and>
      ap \<le> ap' \<and> ap' \<le> ap + 8"
proof (induction path arbitrary: n t ap)
  case Nil
  then show ?case by simp
next
  case (Cons e path)
  obtain s h k u where e: "e = Path_entry s h k u" by (cases e)
  have u: "balanced u" "n \<le> stored_height u + 1" "stored_height u \<le> n + 1" "h = Suc (max n (stored_height u))"
      "path_balanced path h"
    using Cons.prems(1) unfolding e by auto
  let ?p = "chain e t"
  show ?case
  proof (cases "stored_height t = Suc (Suc (stored_height u))")
    case True
    then have t: "BALANCE t \<noteq> Some 0" "stored_height t = h" using Cons.prems(3) u by auto
    obtain q ap' where q: "(case s of son_2 \<Rightarrow> rotate_insert_right ?p ap | son_3 \<Rightarrow> rotate_insert_left ?p ap) = Some (q, ap')"
        "balanced q" "stored_height q = h" "same_items cmp ?p q" "ap \<le> ap'" "ap' \<le> ap + 8"
      using rotate_insert_right_ok [OF cmp Cons.prems(2) u(1) True t(1), of h k ap]
        rotate_insert_left_ok [OF cmp u(1) Cons.prems(2) True t(1), of h k ap] t(2) e
      by (cases s) auto
    have "insert_up (e # path) t ap = Some (path_0_node path q, ap')"
      using q(1) True unfolding e by (cases s) simp_all
    then show ?thesis using q u(5) path_0_node_same [OF q(4)] by (simp add: balanced_path_0_node)
  next
    case False
    have le: "stored_height t \<le> stored_height u + 1" "stored_height u \<le> stored_height t + 1"
      using Cons.prems(3) u False by auto
    have b: "balanced (refresh_height ?p)" "stored_height (refresh_height ?p) = Suc (max (stored_height t) (stored_height u))"
      using Cons.prems(2) u(1) le unfolding e by (cases s; simp add: max.commute)+
    have g: "stored_height (refresh_height ?p) = h \<or>
        stored_height (refresh_height ?p) = Suc h \<and> (h = 0 \<or> BALANCE (refresh_height ?p) \<noteq> Some 0)"
      using Cons.prems(3) u le unfolding b(2) e by (cases s) auto
    have "insert_up (e # path) t ap = insert_up path (refresh_height ?p) ap"
      using le unfolding e by (cases s) simp_all
    then show ?thesis using Cons.IH [OF u(5) b(1) g, of ap]
        same_items_trans [OF path_0_node_same [OF refresh_height_items]]
      by (metis)
  qed
qed

lemma rebalance_up_ok:
  assumes cmp: "total_cmp cmp"
  shows "path_balanced path n \<Longrightarrow> balanced t \<Longrightarrow> stored_height t = n \<or> Suc (stored_height t) = n \<Longrightarrow>
    \<exists>q ap'. rebalance_up path t ap = Some (q, ap') \<and> balanced q \<and> same_items cmp (path_0_node path t) q \<and>
      ap \<le> ap' \<and> ap' \<le> ap + 8 * length path"
proof (induction path arbitrary: n t ap)
  case Nil
  then show ?case by simp
next
  case (Cons e path)
  obtain s h k u where e: "e = Path_entry s h k u" by (cases e)
  have u: "balanced u" "n \<le> stored_height u + 1" "stored_height u \<le> n + 1" "h = Suc (max n (stored_height u))"
      "path_balanced path h"
    using Cons.prems(1) unfolding e by auto
  let ?p = "chain e t"
  obtain q ap1 where q: "rebalance_up (e # path) t ap = rebalance_up path q ap1" "balanced q"
      "stored_height q = h \<or> Suc (stored_height q) = h" "same_items cmp ?p q" "ap \<le> ap1" "ap1 \<le> ap + 8"
  proof (cases "stored_height u = Suc (Suc (stored_height t))")
    case True
    then have "stored_height u = h \<or> Suc (stored_height u) = h" using Cons.prems(3) u by auto
    then obtain q ap' where q: "(case s of son_2 \<Rightarrow> rotate_delete_left ?p ap | son_3 \<Rightarrow> rotate_delete_right ?p ap) = Some (q, ap')"
        "balanced q" "stored_height q = h \<or> Suc (stored_height q) = h" "same_items cmp ?p q" "ap \<le> ap'" "ap' \<le> ap + 8"
      using rotate_delete_right_ok [OF cmp u(1) Cons.prems(2) True, of h k ap] Cons.prems(3) u
        rotate_delete_left_ok [OF cmp Cons.prems(2) u(1) True, of h k ap] e True
      by (cases s) auto
    have "rebalance_up (e # path) t ap = rebalance_up path q ap'"
      using q(1) True unfolding e by (cases s) simp_all
    then show ?thesis using q that by blast
  next
    case False
    have le: "stored_height t \<le> stored_height u + 1" "stored_height u \<le> stored_height t + 1"
      using Cons.prems(3) u False by auto
    have b: "balanced (refresh_height ?p)" "stored_height (refresh_height ?p) = Suc (max (stored_height t) (stored_height u))"
      using Cons.prems(2) u(1) le unfolding e by (cases s; simp add: max.commute)+
    have g: "stored_height (refresh_height ?p) = h \<or> Suc (stored_height (refresh_height ?p)) = h"
      using Cons.prems(3) u(2-4) le unfolding b(2) by auto
    have "rebalance_up (e # path) t ap = rebalance_up path (refresh_height ?p) ap"
      using le unfolding e by (cases s) simp_all
    then show ?thesis using that [OF _ b(1) g] by simp
  qed
  obtain r ap2 where r: "rebalance_up path q ap1 = Some (r, ap2)" "balanced r" "same_items cmp (path_0_node path q) r"
      "ap1 \<le> ap2" "ap2 \<le> ap1 + 8 * length path"
    using Cons.IH [OF u(5) q(2,3), of ap1] by blast
  show ?case using q r same_items_trans [OF path_0_node_same [OF q(4)] r(3)] by auto
qed

section \<open>The height of a balanced tree\<close>

fun min_leaves :: "nat \<Rightarrow> nat" where
  "min_leaves 0 = 1"
| "min_leaves (Suc 0) = 2"
| "min_leaves (Suc (Suc h)) = min_leaves (Suc h) + min_leaves h"

lemma min_leaves_mono: "h \<le> h' \<Longrightarrow> min_leaves h \<le> min_leaves h'"
proof (induction h' rule: min_leaves.induct)
  case (3 h')
  then show ?case by (cases "h = Suc (Suc h')") (auto simp: le_Suc_eq)
qed (auto simp: le_Suc_eq)

lemma balanced_leaves: "balanced t \<Longrightarrow> min_leaves (stored_height t) \<le> length (entries t)"
proof (induction t)
  case (CELL_avl_internal h k l r)
  then have hyp: "min_leaves (stored_height l) \<le> length (entries l)" "min_leaves (stored_height r) \<le> length (entries r)"
      "h = Suc (max (stored_height l) (stored_height r))"
      "stored_height l \<le> stored_height r + 1" "stored_height r \<le> stored_height l + 1"
    by (auto simp: HEIGHT_of_max)
  have "min_leaves (Suc (max a b)) \<le> min_leaves a + min_leaves b" if "a \<le> b + 1" "b \<le> a + 1" for a b
  proof -
    have "min_leaves (Suc (Suc c)) \<le> min_leaves (Suc c) + min_leaves c" for c by simp
    moreover have "min_leaves (Suc c) \<le> min_leaves c + min_leaves c" for c
      by (cases c) (use min_leaves_mono in \<open>auto simp: le_SucI\<close>)
    ultimately show ?thesis using that by (cases "a = b") (auto simp: max_def le_Suc_eq add.commute)
  qed
  then show ?case using hyp by fastforce
qed simp

lemma min_leaves_add_5:
  "min_leaves (h + 5) = 3 * min_leaves h + 5 * min_leaves (h + 1) \<and>
   min_leaves (h + 6) = 5 * min_leaves h + 8 * min_leaves (h + 1)"
proof -
  have "h + 5 = Suc (Suc (Suc (Suc (Suc h))))" "h + 6 = Suc (Suc (Suc (Suc (Suc (Suc h)))))" by simp_all
  then show ?thesis by (simp only: min_leaves.simps) simp
qed

lemma min_leaves_46: "min_leaves 46 = 4807526976"
proof -
  have m1: "min_leaves 5 = 13 \<and> min_leaves 6 = 21"
    using min_leaves_add_5 [of 0] by simp
  have m2: "min_leaves 10 = 144 \<and> min_leaves 11 = 233"
    using min_leaves_add_5 [of 5] m1 by simp
  have m3: "min_leaves 15 = 1597 \<and> min_leaves 16 = 2584"
    using min_leaves_add_5 [of 10] m2 by simp
  have m4: "min_leaves 20 = 17711 \<and> min_leaves 21 = 28657"
    using min_leaves_add_5 [of 15] m3 by simp
  have m5: "min_leaves 25 = 196418 \<and> min_leaves 26 = 317811"
    using min_leaves_add_5 [of 20] m4 by simp
  have m6: "min_leaves 30 = 2178309 \<and> min_leaves 31 = 3524578"
    using min_leaves_add_5 [of 25] m5 by simp
  have m7: "min_leaves 35 = 24157817 \<and> min_leaves 36 = 39088169"
    using min_leaves_add_5 [of 30] m6 by simp
  have m8: "min_leaves 40 = 267914296 \<and> min_leaves 41 = 433494437"
    using min_leaves_add_5 [of 35] m7 by simp
  have m9: "min_leaves 45 = 2971215073 \<and> min_leaves 46 = 4807526976"
    using min_leaves_add_5 [of 40] m8 by simp
  show ?thesis using m9 by simp
qed

text \<open>A tree with fewer than \<open>2 ^ 32\<close> items has height at most 45.\<close>

lemma balanced_height:
  assumes "balanced t" and "length (entries t) < 2 ^ 32"
  shows "stored_height t \<le> 45"
proof (rule ccontr)
  assume "\<not> stored_height t \<le> 45"
  then have "min_leaves 46 \<le> length (entries t)"
    using balanced_leaves [OF assms(1)] min_leaves_mono [of 46 "stored_height t"] by simp
  moreover note min_leaves_46
  ultimately show False using assms(2) by simp
qed

section \<open>Correctness of the operations\<close>

definition avl_entries :: "'k avl option \<Rightarrow> ('k \<times> word_t) list" where
  "avl_entries root = (case root of None \<Rightarrow> [] | Some t \<Rightarrow> entries t)"

definition avl_valid :: "('k \<Rightarrow> 'k \<Rightarrow> cmp_result_t) \<Rightarrow> 'k avl option \<Rightarrow> bool" where
  "avl_valid cmp root = (case root of None \<Rightarrow> True | Some t \<Rightarrow> ordered cmp t \<and> balanced t)"

lemma avl_simps [simp]:
  "avl_entries None = []" "avl_entries (Some t) = entries t"
  "avl_valid cmp None" "avl_valid cmp (Some t) \<longleftrightarrow> ordered cmp t \<and> balanced t"
  by (simp_all add: avl_entries_def avl_valid_def)

lemma avl_find_assoc:
  "total_cmp cmp \<Longrightarrow> avl_valid cmp root \<Longrightarrow> avl_find cmp root key = assoc cmp (avl_entries root) key"
  by (cases root) (simp_all add: avl_find_def avl_find_node_assoc)

text \<open>What the loop down a valid tree finds.\<close>

lemma descend_valid:
  assumes cmp: "total_cmp cmp" and v: "ordered cmp t" "balanced t" and n: "length (entries t) < 2 ^ 32"
  obtains k d path ap1 where "descend cmp key t [] ap = Some (Inr (k, d, path, ap1))"
    "path_0_node path (CELL_avl_leaf k d) = t" "in_path cmp path key" "in_path cmp path k" "path_ordered cmp path"
    "path_balanced path 0" "length path \<le> 45" "ap1 = ap + 4 * length path"
    "entries t = items_before path @ (k, d) # items_after path"
    "\<And>x. x \<in> fst ` set (items_before path @ items_after path) \<Longrightarrow> cmp key x \<noteq> CMP_EQUAL"
proof -
  have h: "stored_height t \<le> 45" by (rule balanced_height [OF v(2) n])
  then obtain k d path ap1 where d: "descend cmp key t [] ap = Some (Inr (k, d, path, ap1))"
    "path_0_node path (CELL_avl_leaf k d) = t" "in_path cmp path key" "length path \<le> stored_height t"
    "ap1 = ap + 4 * length path"
    using descend_ok [OF cmp v(2), of "[]" key ap] by auto
  have "in_path cmp path k" "path_ordered cmp path"
    using v(1) ordered_path_0_node [of cmp path "CELL_avl_leaf k d"] d(2) by auto
  moreover have "path_balanced path 0" using v(2) balanced_path_0_node [of path "CELL_avl_leaf k d"] d(2) by simp
  moreover have "entries t = items_before path @ (k, d) # items_after path"
    using entries_path_0_node [of path "CELL_avl_leaf k d"] d(2) by simp
  moreover have "\<And>x. x \<in> fst ` set (items_before path @ items_after path) \<Longrightarrow> cmp key x \<noteq> CMP_EQUAL"
    using outside_path [OF cmp \<open>path_ordered cmp path\<close> d(3)] by blast
  ultimately show ?thesis using that d h by auto
qed

lemma avl_insert_ok:
  assumes cmp: "total_cmp cmp" and v: "avl_valid cmp root" and n: "length (avl_entries root) < 2 ^ 32"
  shows "\<exists>root' ap' old. avl_insert cmp f root key data ap = Some (root', ap') \<and> avl_valid cmp root' \<and>
    length (avl_entries root') \<le> Suc (length (avl_entries root)) \<and>
    (\<forall>x. avl_find cmp root' x = (if cmp x key = CMP_EQUAL then updated f old data else avl_find cmp root x)) \<and>
    ((\<exists>x \<in> fst ` set (avl_entries root). cmp key x = CMP_EQUAL) \<longrightarrow> old = avl_find cmp root key) \<and>
    ap \<le> ap' \<and> ap' \<le> ap + 195"
proof (cases root)
  case None
  then show ?thesis
    by (auto simp: avl_insert_def avl_find_def updated_def split: option.splits)
next
  case (Some t)
  have t: "ordered cmp t" "balanced t" "length (entries t) < 2 ^ 32" using v n Some by auto
  obtain k d path ap1 where D: "descend cmp key t [] ap = Some (Inr (k, d, path, ap1))"
    "path_0_node path (CELL_avl_leaf k d) = t" "in_path cmp path key" "in_path cmp path k" "path_ordered cmp path"
    "path_balanced path 0" "length path \<le> 45" "ap1 = ap + 4 * length path"
    "entries t = items_before path @ (k, d) # items_after path"
    "\<And>x. x \<in> fst ` set (items_before path @ items_after path) \<Longrightarrow> cmp key x \<noteq> CMP_EQUAL"
    using descend_valid [OF cmp t, of key ap] by blast
  let ?B = "items_before path" and ?A = "items_after path" and ?new = "updated f d data"
  have find: "avl_find cmp root x = assoc cmp (?B @ (k, d) # ?A) x" for x
    using avl_find_assoc [OF cmp v] Some D(9) by simp
  have nerr: "cmp key k \<noteq> CMP_ERROR" by (rule cmp_no_error [OF cmp])
  note sym = cmp_sym [OF cmp] and eq = total_cmpD(5) [OF cmp]
  show ?thesis
  proof (cases "cmp key k = CMP_EQUAL")
    case True
    have old: "avl_find cmp root key = d" using D(10) True by (simp add: find assoc_append)
    have q: "avl_valid cmp (Some (path_0_node path (CELL_avl_leaf key ?new)))"
      using D(3,5,6) by (simp add: ordered_path_0_node balanced_path_0_node)
    have f: "avl_find cmp (Some (path_0_node path (CELL_avl_leaf key ?new))) x =
        (if cmp x key = CMP_EQUAL then ?new else avl_find cmp root x)" for x
      unfolding avl_find_assoc [OF cmp q] find avl_simps entries_path_0_node entries.simps
      by (rule assoc_replace [OF cmp D(10)]) (use True sym eq in \<open>auto, metis+\<close>)
    show ?thesis
    proof (cases "d = ?new")
      case same: True
      then have "avl_insert cmp f root key data ap = Some (root, ap)"
        using D(1) Some nerr True by (simp add: avl_insert_def updated_def)
      moreover have "avl_find cmp root x = ?new" if "cmp x key = CMP_EQUAL" for x
        using assoc_equal_keys [OF cmp that] old same by (simp add: find)
      ultimately show ?thesis using v old by (intro exI [of _ root] exI [of _ ap] exI [of _ d]) auto
    next
      case False
      then have "avl_insert cmp f root key data ap = Some (Some (path_0_node path (CELL_avl_leaf key ?new)), ap1 + 3)"
        using D(1) Some nerr True by (simp add: avl_insert_def updated_def)
      then show ?thesis using q f old D(7-9) Some
        by (intro exI [of _ "Some (path_0_node path (CELL_avl_leaf key ?new))"] exI [of _ "ap1 + 3"] exI [of _ d])
          (auto simp: entries_path_0_node)
    qed
  next
    case False
    define u where "u = (if cmp key k = CMP_LESS then CELL_avl_internal 1 key (CELL_avl_leaf key ?new) (CELL_avl_leaf k d)
        else CELL_avl_internal 1 k (CELL_avl_leaf k d) (CELL_avl_leaf key ?new))"
    have "cmp key k = CMP_LESS \<or> cmp key k = CMP_GREATER" using total_cmpD(2) [OF cmp] False by blast
    then have ou: "ordered cmp u"
      using total_cmpD(1,3) [OF cmp] unfolding u_def by auto
    have eu: "entries u = [(key, ?new), (k, d)] \<or> entries u = [(k, d), (key, ?new)]" by (simp add: u_def)
    have xk: "cmp x key = CMP_EQUAL \<Longrightarrow> cmp x k \<noteq> CMP_EQUAL" for x using eq [of x key k] False by simp
    have bu: "balanced u" "stored_height u = Suc 0" by (auto simp: u_def HEIGHT_of_def)
    obtain q ap2 where q: "insert_up path u (7 + ap1) = Some (q, ap2)" "balanced q"
        "same_items cmp (path_0_node path u) q" "ap1 + 7 \<le> ap2" "ap2 \<le> ap1 + 7 + 8"
      using insert_up_ok [OF cmp D(6) bu(1), of "7 + ap1"] bu(2) by auto
    have res: "avl_insert cmp f root key data ap = Some (Some q, ap2)"
      using D(1) Some nerr False q(1) unfolding u_def
      by (cases "cmp key k = CMP_LESS") (simp_all add: avl_insert_def updated_def Let_def)
    have "ordered cmp (path_0_node path u)"
      using ou D(3-5) by (auto simp: ordered_path_0_node u_def)
    then have qv: "avl_valid cmp (Some q)" and qe: "entries q = ?B @ entries u @ ?A"
      using q(2,3) by (auto simp: same_items_def entries_path_0_node)
    have f: "avl_find cmp (Some q) x = (if cmp x key = CMP_EQUAL then ?new else avl_find cmp root x)" for x
      unfolding avl_find_assoc [OF cmp qv] find avl_simps qe
      by (rule assoc_replace [OF cmp D(10)]) (use eu xk in auto)
    have absent: "\<not> (\<exists>x \<in> fst ` set (avl_entries root). cmp key x = CMP_EQUAL)"
      using D(9,10) False Some by auto
    have "length (entries q) = Suc (length (entries t))" unfolding qe D(9) by (simp add: u_def)
    then show ?thesis using res qv f absent q(4,5) D(7,8) Some
      by (intro exI [of _ "Some q"] exI [of _ ap2] exI [of _ d]) auto
  qed
qed

lemma deletion_ok:
  assumes cmp: "total_cmp cmp" and v: "avl_valid cmp (Some t)" and n: "length (entries t) < 2 ^ 32"
  obtains k d path ap1 where "descend cmp key t [] ap = Some (Inr (k, d, path, ap1))" and "length path \<le> 45"
    and "ap1 = ap + 4 * length path" and "path_0_node path (CELL_avl_leaf k d) = t"
    and "path_balanced path 0"
    and "cmp key k \<noteq> CMP_EQUAL \<Longrightarrow> \<forall>x \<in> avl_keys t. cmp key x \<noteq> CMP_EQUAL"
    and "\<And>e path'. cmp key k = CMP_EQUAL \<Longrightarrow> path = e # path' \<Longrightarrow>
      \<exists>q ap2. rebalance_up path' (sibling e) ap1 = Some (q, ap2) \<and> avl_valid cmp (Some q) \<and>
        Suc (length (entries q)) = length (entries t) \<and>
        set (entries q) \<subseteq> set (entries t) \<and> (\<forall>x \<in> avl_keys q. cmp key x \<noteq> CMP_EQUAL) \<and>
        (\<forall>x. avl_find cmp (Some q) x = (if cmp x key = CMP_EQUAL then NULL_WORD else avl_find cmp (Some t) x)) \<and>
        ap1 \<le> ap2 \<and> ap2 \<le> ap1 + 8 * length path'"
proof -
  have t: "ordered cmp t" "balanced t" "length (entries t) < 2 ^ 32" using v n by auto
  obtain k d path ap1 where D: "descend cmp key t [] ap = Some (Inr (k, d, path, ap1))"
    "path_0_node path (CELL_avl_leaf k d) = t" "in_path cmp path key" "in_path cmp path k" "path_ordered cmp path"
    "path_balanced path 0" "length path \<le> 45" "ap1 = ap + 4 * length path"
    "entries t = items_before path @ (k, d) # items_after path"
    "\<And>x. x \<in> fst ` set (items_before path @ items_after path) \<Longrightarrow> cmp key x \<noteq> CMP_EQUAL"
    using descend_valid [OF cmp t, of key ap] by blast
  let ?B = "items_before path" and ?A = "items_after path"
  note sym = cmp_sym [OF cmp] and eq = total_cmpD(5) [OF cmp]
  have absent: "\<forall>x \<in> avl_keys t. cmp key x \<noteq> CMP_EQUAL" if "cmp key k \<noteq> CMP_EQUAL"
    using that D(10) unfolding D(9) by auto
  have f: "assoc cmp (?B @ [] @ ?A) x = (if cmp x key = CMP_EQUAL then NULL_WORD else avl_find cmp (Some t) x)"
    if "cmp key k = CMP_EQUAL" for x
    unfolding avl_find_assoc [OF cmp v] avl_simps D(9)
    by (rule assoc_replace [OF cmp D(10)]) (use that sym eq in \<open>auto, metis+\<close>)
  have present: "\<exists>q ap2. rebalance_up path' (sibling e) ap1 = Some (q, ap2) \<and> avl_valid cmp (Some q) \<and>
        Suc (length (entries q)) = length (entries t) \<and>
        set (entries q) \<subseteq> set (entries t) \<and> (\<forall>x \<in> avl_keys q. cmp key x \<noteq> CMP_EQUAL) \<and>
        (\<forall>x. avl_find cmp (Some q) x = (if cmp x key = CMP_EQUAL then NULL_WORD else avl_find cmp (Some t) x)) \<and>
        ap1 \<le> ap2 \<and> ap2 \<le> ap1 + 8 * length path'" if key: "cmp key k = CMP_EQUAL" "path = e # path'" for e path'
  proof -
    obtain s h k' u where e: "e = Path_entry s h k' u" by (cases e)
    have u: "balanced u" "h = Suc (stored_height u)" "path_balanced path' h" "ordered cmp u"
        "\<forall>x \<in> avl_keys u. in_path cmp path' x" "path_ordered cmp path'"
      using D(5,6) unfolding key(2) e by auto
    obtain q ap2 where q: "rebalance_up path' u ap1 = Some (q, ap2)" "balanced q"
        "same_items cmp (path_0_node path' u) q" "ap1 \<le> ap2" "ap2 \<le> ap1 + 8 * length path'"
      using rebalance_up_ok [OF cmp u(3,1), of ap1] u(2) by auto
    have "ordered cmp (path_0_node path' u)" using u by (simp add: ordered_path_0_node)
    then have qv: "avl_valid cmp (Some q)" using q(2,3) by (simp add: same_items_def)
    moreover have qe: "entries q = ?B @ ?A"
      using q(3) unfolding same_items_def key(2) e by (cases s) (simp_all add: entries_path_0_node)
    moreover have "avl_find cmp (Some q) x = (if cmp x key = CMP_EQUAL then NULL_WORD else avl_find cmp (Some t) x)" for x
      using f [OF key(1), of x] unfolding avl_find_assoc [OF cmp qv] avl_simps qe by simp
    ultimately show ?thesis using q D(9,10) key(2) e by auto
  qed
  show thesis by (rule that [OF D(1,7,8,2,6) absent present])
qed

text \<open>What the lost root of \<^verbatim>\<open>avl_delete\<close> means: the result is the rebalanced tree or a son of it.\<close>

lemma son_cases:
  assumes "left_son q = Some q' \<or> right_son q = Some q'" and "avl_valid cmp (Some q)"
  shows "avl_valid cmp (Some q')" and "length (entries q') < length (entries q)"
    and "set (entries q') \<subseteq> set (entries q)"
proof -
  obtain h k l r where q: "q = CELL_avl_internal h k l r" using assms(1) by (cases q) auto
  have "entries t \<noteq> []" for t :: "'a avl" by (induction t) simp_all
  then show "length (entries q') < length (entries q)" using assms(1) unfolding q by auto
  show "avl_valid cmp (Some q')" "set (entries q') \<subseteq> set (entries q)" using assms unfolding q by auto
qed

lemma rotate_delete_sons:
  "rotate_delete_right p ap = Some (q, ap') \<Longrightarrow> \<exists>t. right_son q = Some t"
  "rotate_delete_left p ap = Some (q, ap') \<Longrightarrow> \<exists>t. left_son q = Some t"
  by (auto simp: rotate_delete_right_def rotate_delete_left_def new_node_def bind_eq_Some split: if_splits
      elim!: simple_rotate_right.elims simple_rotate_left.elims double_rotate_right.elims double_rotate_left.elims)

lemma delete_up_rebalance:
  "rebalance_up path t ap = Some (q, ap') \<Longrightarrow>
    \<exists>q'. delete_up path t ap = Some (q', ap') \<and> (q' = q \<or> left_son q = Some q' \<or> right_son q = Some q')"
proof (induction path arbitrary: t ap)
  case (Cons e path)
  obtain b where b: "BALANCE (chain e t) = Some b" using Cons.prems by (auto simp: bind_eq_Some Let_def)
  obtain p' ap1 where p': "(if b < -1 then rotate_delete_right (chain e t) ap
        else if b > 1 then rotate_delete_left (chain e t) ap
        else Some (refresh_height (chain e t), ap)) = Some (p', ap1)" "rebalance_up path p' ap1 = Some (q, ap')"
    using Cons.prems b by (auto simp: bind_eq_Some Let_def)
  then show ?case using b Cons.IH [OF p'(2)] rotate_delete_sons [of "chain e t" ap p' ap1]
    by (cases "path = []") (auto split: if_splits)
qed simp

lemma avl_delete_ok:
  assumes cmp: "total_cmp cmp" and v: "avl_valid cmp root" and n: "length (avl_entries root) < 2 ^ 32"
  shows "\<exists>root' ap'. avl_delete cmp None root key data ap = Some (root', ap') \<and> avl_valid cmp root' \<and>
    set (avl_entries root') \<subseteq> {(x, d) \<in> set (avl_entries root). cmp x key \<noteq> CMP_EQUAL} \<and>
    ap \<le> ap' \<and> ap' \<le> ap + 540"
proof (cases root)
  case None
  then show ?thesis by (simp add: avl_delete_def)
next
  case (Some t)
  have sym: "cmp x key = CMP_EQUAL \<longleftrightarrow> cmp key x = CMP_EQUAL" for x using cmp_sym [OF cmp] by blast
  have t: "avl_valid cmp (Some t)" "length (entries t) < 2 ^ 32" using v n Some by simp_all
  show ?thesis
  proof (rule deletion_ok [OF cmp t, of key ap])
    fix k d path ap1
    assume D: "descend cmp key t [] ap = Some (Inr (k, d, path, ap1))" "length path \<le> 45" "ap1 = ap + 4 * length path"
      and absent: "cmp key k \<noteq> CMP_EQUAL \<Longrightarrow> \<forall>x \<in> avl_keys t. cmp key x \<noteq> CMP_EQUAL"
      and present: "\<And>e path'. cmp key k = CMP_EQUAL \<Longrightarrow> path = e # path' \<Longrightarrow>
        \<exists>q ap2. rebalance_up path' (sibling e) ap1 = Some (q, ap2) \<and> avl_valid cmp (Some q) \<and>
          Suc (length (entries q)) = length (entries t) \<and>
          set (entries q) \<subseteq> set (entries t) \<and> (\<forall>x \<in> avl_keys q. cmp key x \<noteq> CMP_EQUAL) \<and>
          (\<forall>x. avl_find cmp (Some q) x = (if cmp x key = CMP_EQUAL then NULL_WORD else avl_find cmp (Some t) x)) \<and>
          ap1 \<le> ap2 \<and> ap2 \<le> ap1 + 8 * length path'"
    show ?thesis
    proof (cases "cmp key k = CMP_EQUAL")
      case False
      then show ?thesis using D(1) Some v absent by (fastforce simp: avl_delete_def sym)
    next
      case True
      show ?thesis
      proof (cases path)
        case Nil
        then show ?thesis using D Some True by (simp add: avl_delete_def)
      next
        case (Cons e path')
        obtain q ap2 where q: "rebalance_up path' (sibling e) ap1 = Some (q, ap2)" "avl_valid cmp (Some q)"
            "set (entries q) \<subseteq> set (entries t)" "\<forall>x \<in> avl_keys q. cmp key x \<noteq> CMP_EQUAL"
            "ap1 \<le> ap2" "ap2 \<le> ap1 + 8 * length path'"
          using present [OF True Cons] by blast
        obtain q' where q': "delete_up path' (sibling e) ap1 = Some (q', ap2)"
            "q' = q \<or> left_son q = Some q' \<or> right_son q = Some q'"
          using delete_up_rebalance [OF q(1)] by blast
        have v': "avl_valid cmp (Some q')" "set (entries q') \<subseteq> set (entries q)"
          using q'(2) q(2) son_cases [of q q' cmp] by auto
        have "avl_delete cmp None root key data ap = Some (Some q', ap2)"
          using D(1) Some True q'(1) unfolding Cons by (simp add: avl_delete_def)
        moreover have "set (entries q') \<subseteq> {(x, d) \<in> set (entries t). cmp x key \<noteq> CMP_EQUAL}"
          using q(3,4) v'(2) by (fastforce simp: sym)
        ultimately show ?thesis using v'(1) q(5,6) D(2,3) Cons Some by simp
      qed
    qed
  qed
qed


text \<open>With \<^verbatim>\<open>delete_fun\<close> the data of a key that exists are updated.\<close>

lemma avl_delete_update_ok:
  assumes cmp: "total_cmp cmp" and v: "avl_valid cmp root" and n: "length (avl_entries root) < 2 ^ 32"
  shows "\<exists>root' ap'. avl_delete cmp (Some f) root key data ap = Some (root', ap') \<and> avl_valid cmp root' \<and>
    length (avl_entries root') = length (avl_entries root) \<and>
    (\<forall>x. avl_find cmp root' x =
      (if cmp x key = CMP_EQUAL \<and> (\<exists>z \<in> fst ` set (avl_entries root). cmp key z = CMP_EQUAL)
       then f (avl_find cmp root key) data else avl_find cmp root x)) \<and>
    ap \<le> ap' \<and> ap' \<le> ap + 183"
proof (cases root)
  case None
  then show ?thesis by (simp add: avl_delete_def avl_find_def)
next
  case (Some t)
  have t: "ordered cmp t" "balanced t" "length (entries t) < 2 ^ 32" using v n Some by auto
  obtain k d path ap1 where D: "descend cmp key t [] ap = Some (Inr (k, d, path, ap1))"
    "path_0_node path (CELL_avl_leaf k d) = t" "in_path cmp path key" "in_path cmp path k" "path_ordered cmp path"
    "path_balanced path 0" "length path \<le> 45" "ap1 = ap + 4 * length path"
    "entries t = items_before path @ (k, d) # items_after path"
    "\<And>x. x \<in> fst ` set (items_before path @ items_after path) \<Longrightarrow> cmp key x \<noteq> CMP_EQUAL"
    using descend_valid [OF cmp t, of key ap] by blast
  let ?B = "items_before path" and ?A = "items_after path" and ?t = "path_0_node path (CELL_avl_leaf k (f d data))"
  have find: "avl_find cmp root x = assoc cmp (?B @ (k, d) # ?A) x" for x
    using avl_find_assoc [OF cmp v] Some D(9) by simp
  note sym = cmp_sym [OF cmp] and eq = total_cmpD(5) [OF cmp]
  have mem: "(\<exists>z \<in> fst ` set (avl_entries root). cmp key z = CMP_EQUAL) \<longleftrightarrow> cmp key k = CMP_EQUAL"
    using D(9,10) Some by auto
  show ?thesis
  proof (cases "cmp key k = CMP_EQUAL")
    case False
    then have "avl_delete cmp (Some f) root key data ap = Some (root, ap)"
      using D(1) Some by (simp add: avl_delete_def)
    then show ?thesis using v False unfolding mem by auto
  next
    case True
    have old: "avl_find cmp root key = d" using D(10) True by (simp add: find assoc_append)
    have q: "avl_valid cmp (Some ?t)"
      using D(4-6) by (simp add: ordered_path_0_node balanced_path_0_node)
    have fnd: "avl_find cmp (Some ?t) x = (if cmp x key = CMP_EQUAL then f d data else avl_find cmp root x)" for x
      unfolding avl_find_assoc [OF cmp q] find avl_simps entries_path_0_node entries.simps
      by (rule assoc_replace [OF cmp D(10)]) (use True sym eq in \<open>auto, metis+\<close>)
    show ?thesis
    proof (cases "d = f d data")
      case same: True
      then have "avl_delete cmp (Some f) root key data ap = Some (root, ap)"
        using D(1) Some True by (simp add: avl_delete_def)
      moreover have "avl_find cmp root x = d" if "cmp x key = CMP_EQUAL" for x
        using assoc_equal_keys [OF cmp that] old by (simp add: find)
      ultimately show ?thesis using v old same True unfolding mem by auto
    next
      case False
      then have "avl_delete cmp (Some f) root key data ap = Some (Some ?t, ap1 + 3)"
        using D(1) Some True by (simp add: avl_delete_def)
      then show ?thesis using q fnd old D(7-9) Some True unfolding mem
        by (intro exI [of _ "Some ?t"] exI [of _ "ap1 + 3"]) (auto simp: entries_path_0_node)
    qed
  qed
qed

section \<open>The byte code variant\<close>

text \<open>The history that corresponds to a path with \<open>p\<close> in its hole.\<close>

fun side_index :: "side \<Rightarrow> nat" where
  "side_index son_2 = 2" | "side_index son_3 = 3"

fun history_of :: "'k path_entry list \<Rightarrow> 'k avl \<Rightarrow> 'k history" where
  "history_of [] p = []"
| "history_of (e # path) p = (side_index (son e), chain e p) # history_of path (chain e p)"

lemma build_history_descend:
  "descend cmp key p path ap = Some (Inr (k, d, path', ap')) \<Longrightarrow>
    \<exists>hap'. build_history cmp key p (history_of path p) hap =
      Some (history_of path' (CELL_avl_leaf k d), k, d, hap') \<and> hap' + 3 * length path = hap + 3 * length path'"
proof (induction p arbitrary: path ap hap)
  case (CELL_avl_internal h k' l r)
  show ?case
  proof (cases "cmp key k' = CMP_LESS \<or> cmp key k' = CMP_EQUAL")
    case True
    then show ?thesis
      using CELL_avl_internal.prems CELL_avl_internal.IH(1) [of "Path_entry son_2 h k' r # path" "ap + 4" "hap + 3"]
      by (auto simp: avl_bc_delve_left_def Let_def split: if_splits)
  next
    case False
    then show ?thesis
      using CELL_avl_internal.prems CELL_avl_internal.IH(2) [of "Path_entry son_3 h k' l # path" "ap + 4" "hap + 3"]
      by (auto simp: avl_bc_delve_right_def Let_def split: if_splits)
  qed
qed auto

lemma new_path_item_chain [simp]:
  "new_path_item (side_index (son e)) (chain e p) t = Some (refresh_height (chain e t))"
  by (cases e; cases "son e") (auto simp: chain_def)

lemma BALANCE_refresh [simp]: "BALANCE (refresh_height p) = BALANCE p"
  by (cases p) simp_all

lemma stored_refresh_le:
  "BALANCE (chain e t) = Some b \<longleftrightarrow> b = (case son e of
      son_2 \<Rightarrow> int (stored_height (sibling e)) - int (stored_height t)
    | son_3 \<Rightarrow> int (stored_height t) - int (stored_height (sibling e)))"
  by (auto simp: chain_def split: side.split)

text \<open>Above a rotation nothing changes any more.\<close>

lemma bc_insert_up_settled:
  "path_balanced path (stored_height t) \<Longrightarrow> balanced t \<Longrightarrow>
    \<exists>ap'. bc_insert_up (history_of path p) t ap = Some (path_0_node path t, ap')"
proof (induction path arbitrary: t p ap)
  case (Cons e path)
  obtain s h k u where e: "e = Path_entry s h k u" by (cases e)
  have u: "balanced u" "stored_height t \<le> stored_height u + 1" "stored_height u \<le> stored_height t + 1"
      "h = Suc (max (stored_height t) (stored_height u))" "path_balanced path h"
    using Cons.prems(1) unfolding e by auto
  have c: "refresh_height (chain e t) = chain e t" "stored_height (chain e t) = h" "balanced (chain e t)"
    using u Cons.prems(2) unfolding e by (cases s; auto simp: new_node_def HEIGHT_of_max max.commute)+
  obtain b where b: "BALANCE (chain e t) = Some b" "-1 \<le> b" "b \<le> 1"
    using u(2,3) by (cases s) (auto simp: stored_refresh_le e)
  obtain ap' where "bc_insert_up (history_of path (chain e p)) (chain e t) (ap + 4) =
      Some (path_0_node path (chain e t), ap')"
    using Cons.IH [of "chain e t" "chain e p" "ap + 4"] u(5) c by auto
  then show ?case using b c(1) by auto
qed simp

lemma rotate_insert_refresh:
  "rotate_insert_right p ap = Some (q, ap') \<Longrightarrow> q \<noteq> p \<Longrightarrow>
    \<exists>ap2. rotate_insert_right (refresh_height p) hap = Some (q, ap2)" (is "?r \<Longrightarrow> _ \<Longrightarrow> ?R")
  "rotate_insert_left p ap = Some (q, ap') \<Longrightarrow> q \<noteq> p \<Longrightarrow>
    \<exists>ap2. rotate_insert_left (refresh_height p) hap = Some (q, ap2)" (is "?l \<Longrightarrow> _ \<Longrightarrow> ?L")
proof -
  assume a: ?r "q \<noteq> p"
  obtain h k l r where p: "p = CELL_avl_internal h k l r"
    using a(1) by (cases p) (auto simp: rotate_insert_right_def)
  obtain hl kl la lb where l: "l = CELL_avl_internal hl kl la lb"
    using a(1) unfolding p by (cases l) (auto simp: rotate_insert_right_def)
  show ?R using a unfolding p l
    by (cases lb) (auto simp: rotate_insert_right_def new_node_def split: if_splits)
next
  assume a: ?l "q \<noteq> p"
  obtain h k l r where p: "p = CELL_avl_internal h k l r"
    using a(1) by (cases p) (auto simp: rotate_insert_left_def)
  obtain hr kr ra rb where r: "r = CELL_avl_internal hr kr ra rb"
    using a(1) unfolding p by (cases r) (auto simp: rotate_insert_left_def)
  show ?L using a unfolding p r
    by (cases ra) (auto simp: rotate_insert_left_def new_node_def split: if_splits)
qed

lemma rotate_delete_refresh:
  "rotate_delete_right p ap = Some (q, ap') \<Longrightarrow>
    \<exists>ap2. rotate_delete_right (refresh_height p) hap = Some (q, ap2) \<and> hap \<le> ap2 \<and> ap2 \<le> hap + 8" (is "?r \<Longrightarrow> ?R")
  "rotate_delete_left p ap = Some (q, ap') \<Longrightarrow>
    \<exists>ap2. rotate_delete_left (refresh_height p) hap = Some (q, ap2) \<and> hap \<le> ap2 \<and> ap2 \<le> hap + 8" (is "?l \<Longrightarrow> ?L")
proof -
  assume a: ?r
  obtain h k l r where p: "p = CELL_avl_internal h k l r"
    using a(1) by (cases p) (auto simp: rotate_delete_right_def)
  obtain hl kl la lb where l: "l = CELL_avl_internal hl kl la lb"
    using a(1) unfolding p by (cases l) (auto simp: rotate_delete_right_def)
  show ?R using a unfolding p l
    by (cases lb) (auto simp: rotate_delete_right_def new_node_def split: if_splits)
next
  assume a: ?l
  obtain h k l r where p: "p = CELL_avl_internal h k l r"
    using a(1) by (cases p) (auto simp: rotate_delete_left_def)
  obtain hr kr ra rb where r: "r = CELL_avl_internal hr kr ra rb"
    using a(1) unfolding p by (cases r) (auto simp: rotate_delete_left_def)
  show ?L using a unfolding p r
    by (cases ra) (auto simp: rotate_delete_left_def new_node_def split: if_splits)
qed

lemma bc_insert_up_eq:
  fixes cmp :: "'k \<Rightarrow> 'k \<Rightarrow> cmp_result_t" and path :: "'k path_entry list"
  assumes cmp: "total_cmp cmp"
  shows "path_balanced path n \<Longrightarrow> balanced t \<Longrightarrow>
    stored_height t = n \<or> stored_height t = Suc n \<and> (n = 0 \<or> BALANCE t \<noteq> Some 0) \<Longrightarrow>
    insert_up path t ap = Some (q, ap') \<Longrightarrow>
    \<exists>ap2. bc_insert_up (history_of path p) t hap = Some (q, ap2)"
proof (induction path arbitrary: n t ap p hap)
  case Nil
  then show ?case by simp
next
  case (Cons e path)
  obtain s h k u where e: "e = Path_entry s h k u" by (cases e)
  have u: "balanced u" "n \<le> stored_height u + 1" "stored_height u \<le> n + 1" "h = Suc (max n (stored_height u))"
      "path_balanced path h"
    using Cons.prems(1) unfolding e by auto
  let ?p = "chain e t"
  show ?case
  proof (cases "stored_height t = Suc (Suc (stored_height u))")
    case True
    then have t: "BALANCE t \<noteq> Some 0" "stored_height t = h" using Cons.prems(3) u by auto
    obtain q' ap1 where q': "(case s of son_2 \<Rightarrow> rotate_insert_right ?p ap | son_3 \<Rightarrow> rotate_insert_left ?p ap) = Some (q', ap1)"
        "balanced q'" "stored_height q' = h"
      using rotate_insert_right_ok [OF cmp Cons.prems(2) u(1) True t(1), of h k ap]
        rotate_insert_left_ok [OF cmp u(1) Cons.prems(2) True t(1), of h k ap] t(2) e
      by (cases s) auto
    have q: "q = path_0_node path q'"
      using q'(1) True Cons.prems(4) unfolding e by (cases s) simp_all
    have "q' \<noteq> ?p" using q'(2) True unfolding e by (cases s) auto
    then obtain ap2 where "(case s of son_2 \<Rightarrow> rotate_insert_right (refresh_height ?p) (hap + 4)
        | son_3 \<Rightarrow> rotate_insert_left (refresh_height ?p) (hap + 4)) = Some (q', ap2)"
      using q'(1) rotate_insert_refresh [of ?p ap q' ap1 "hap + 4"] by (cases s) auto
    moreover obtain ap3 where "bc_insert_up (history_of path (chain e p)) q' ap2 = Some (path_0_node path q', ap3)"
      using bc_insert_up_settled [of path q'] q'(2,3) u(5) by blast
    moreover have "BALANCE ?p = Some (case s of son_2 \<Rightarrow> -2 | son_3 \<Rightarrow> 2)"
      using True by (cases s) (auto simp: stored_refresh_le e)
    ultimately show ?thesis unfolding q by (cases s) (auto simp: e)
  next
    case False
    have le: "stored_height t \<le> stored_height u + 1" "stored_height u \<le> stored_height t + 1"
      using Cons.prems(3) u False by auto
    have b: "balanced (refresh_height ?p)" "stored_height (refresh_height ?p) = Suc (max (stored_height t) (stored_height u))"
      using Cons.prems(2) u(1) le unfolding e by (cases s; simp add: max.commute)+
    have g: "stored_height (refresh_height ?p) = h \<or>
        stored_height (refresh_height ?p) = Suc h \<and> (h = 0 \<or> BALANCE (refresh_height ?p) \<noteq> Some 0)"
      using Cons.prems(3) u le unfolding b(2) e by (cases s) auto
    obtain bl where bl: "BALANCE ?p = Some bl" "-1 \<le> bl" "bl \<le> 1"
      using le by (cases s) (auto simp: stored_refresh_le e)
    have "insert_up path (refresh_height ?p) ap = Some (q, ap')" using Cons.prems(4) bl by simp
    from Cons.IH [OF u(5) b(1) g this, of "chain e p" "hap + 4"] show ?thesis using bl by auto
  qed
qed

lemma bc_delete_up_eq:
  "rebalance_up (e # path) t ap = Some (q, ap') \<Longrightarrow>
    \<exists>ap2. bc_delete_up (history_of path p) (refresh_height (chain e t)) hap = Some (q, ap2) \<and>
      hap \<le> ap2 \<and> ap2 \<le> hap + 8 + 12 * length path"
proof (induction path arbitrary: e t ap p hap)
  case Nil
  obtain bl where bl: "BALANCE (chain e t) = Some bl" by (simp add: stored_refresh_le)
  show ?case using Nil rotate_delete_refresh [of "chain e t" ap q ap' hap]
    by (subst bc_delete_up.simps) (auto simp: bl bind_eq_Some split: if_splits simp del: refresh_height.simps bc_delete_up.simps)
next
  case (Cons e' path)
  obtain bl where bl: "BALANCE (chain e t) = Some bl" by (simp add: stored_refresh_le)
  obtain p' ap1 where p': "(if bl < -1 then rotate_delete_right (chain e t) ap
        else if bl > 1 then rotate_delete_left (chain e t) ap
        else Some (refresh_height (chain e t), ap)) = Some (p', ap1)" "rebalance_up (e' # path) p' ap1 = Some (q, ap')"
    using Cons.prems bl
    by (auto simp: bind_eq_Some simp del: rebalance_up.simps(2) simp: Let_def rebalance_up.simps(2) [of e "e' # path"])
  obtain ap2 where ap2: "(if bl < -1 then rotate_delete_right (refresh_height (chain e t)) hap
        else if bl > 1 then rotate_delete_left (refresh_height (chain e t)) hap
        else Some (refresh_height (chain e t), hap)) = Some (p', ap2)" "hap \<le> ap2" "ap2 \<le> hap + 8"
    using p'(1) rotate_delete_refresh [of "chain e t" ap p' ap1 hap] by (auto split: if_splits)
  obtain ap3 where "bc_delete_up (history_of path (chain e' p)) (refresh_height (chain e' p')) (ap2 + 4) = Some (q, ap3)"
      "ap2 + 4 \<le> ap3" "ap3 \<le> ap2 + 4 + 8 + 12 * length path"
    using Cons.IH [OF p'(2)] by blast
  then show ?case using ap2 bl by (subst bc_delete_up.simps) (simp del: bc_delete_up.simps)
qed

lemma avl_insert_not_None: "avl_insert cmp f root key data ap \<noteq> Some (None, ap')"
  by (cases root)
    (auto simp: avl_insert_def bind_eq_Some Let_def split: sum.split_asm prod.split_asm if_split_asm)

lemma avl_bc_insert_ok:
  assumes cmp: "total_cmp cmp" and v: "avl_valid cmp root" and n: "length (avl_entries root) < 2 ^ 32"
    and new: "avl_find cmp root key \<noteq> data"
    and ins: "avl_insert cmp None root key data ap = Some (Some t', ap1)"
  shows "\<exists>history ap2 ap3. build_history_for_insert cmp root key ap = Some (history, ap2) \<and>
    avl_bc_insert history key data ap2 = Some (t', ap3)"
proof (cases root)
  case None
  then show ?thesis using ins
    by (simp add: build_history_for_insert_def avl_bc_insert_def avl_insert_def)
next
  case (Some t)
  have t: "ordered cmp t" "balanced t" "length (entries t) < 2 ^ 32" using v n Some by auto
  obtain k d path a1 where D: "descend cmp key t [] ap = Some (Inr (k, d, path, a1))"
    "path_0_node path (CELL_avl_leaf k d) = t" "in_path cmp path key" "in_path cmp path k" "path_ordered cmp path"
    "path_balanced path 0" "length path \<le> 45" "a1 = ap + 4 * length path"
    "entries t = items_before path @ (k, d) # items_after path"
    "\<And>x. x \<in> fst ` set (items_before path @ items_after path) \<Longrightarrow> cmp key x \<noteq> CMP_EQUAL"
    using descend_valid [OF cmp t, of key ap] by blast
  obtain hap where h: "build_history cmp key t [] ap = Some (history_of path (CELL_avl_leaf k d), k, d, hap)"
    using build_history_descend [OF D(1), of ap] by auto
  have nerr: "cmp key k \<noteq> CMP_ERROR" by (rule cmp_no_error [OF cmp])
  show ?thesis
  proof (cases "cmp key k = CMP_EQUAL")
    case True
    have "avl_find cmp root key = d"
      using avl_find_assoc [OF cmp v] Some D(9,10) True by (simp add: assoc_append)
    then have "t' = path_0_node path (CELL_avl_leaf key data)"
      using ins new D(1) Some True by (simp add: avl_insert_def)
    moreover obtain ap3 where "bc_insert_up (history_of path (CELL_avl_leaf k d)) (CELL_avl_leaf key data) (hap + 3 + 3) =
        Some (path_0_node path (CELL_avl_leaf key data), ap3)"
      using bc_insert_up_settled [of path "CELL_avl_leaf key data"] D(6) by auto
    ultimately show ?thesis using Some h True
      by (simp add: build_history_for_insert_def avl_bc_delve_equal_def avl_bc_insert_def)
  next
    case False
    define u where "u = (if cmp key k = CMP_LESS then CELL_avl_internal 1 key (CELL_avl_leaf key data) (CELL_avl_leaf k d)
        else CELL_avl_internal 1 k (CELL_avl_leaf k d) (CELL_avl_leaf key data))"
    have bu: "balanced u" "stored_height u = Suc 0" by (auto simp: u_def HEIGHT_of_def)
    have "insert_up path u (7 + a1) = Some (t', ap1)"
      using ins D(1) Some nerr False unfolding u_def
      by (cases "cmp key k = CMP_LESS") (auto simp: avl_insert_def Let_def bind_eq_Some)
    from bc_insert_up_eq [OF cmp D(6) bu(1) _ this, of "CELL_avl_leaf k d" "7 + (hap + 3)"] bu(2)
    obtain ap3 where "bc_insert_up (history_of path (CELL_avl_leaf k d)) u (7 + (hap + 3)) = Some (t', ap3)" by auto
    then show ?thesis using Some h False nerr unfolding u_def
      by (auto simp: build_history_for_insert_def avl_bc_delve_left_def avl_bc_delve_right_def avl_bc_insert_def
          split: if_splits)
  qed
qed

lemma build_history_for_delete_eq:
  assumes "descend cmp key t [] ap = Some (Inr (k, d, path, ap1))" and "cmp key k = CMP_EQUAL"
  shows "build_history_for_delete cmp (Some t) key hap =
    Some (history_of path (CELL_avl_leaf k d), hap + 3 * length path)"
  using build_history_descend [OF assms(1), of hap] assms(2)
  by (auto simp: build_history_for_delete_def)

lemma avl_bc_delete_eq:
  assumes "rebalance_up path (sibling e) ap = Some (q, ap')"
  shows "\<exists>ap2. avl_bc_delete (history_of (e # path) p) hap = Some (Some q, ap2) \<and>
    hap \<le> ap2 \<and> ap2 \<le> hap + 12 * length path"
proof -
  obtain s h k u where e: "e = Path_entry s h k u" by (cases e)
  have sib: "(if side_index s mod 2 = 0 then right_son (chain e p) else left_son (chain e p)) = Some u"
    unfolding e by (cases s) simp_all
  show ?thesis
  proof (cases path)
    case Nil
    then show ?thesis using assms by (cases s) (simp_all add: avl_bc_delete_def e)
  next
    case (Cons e' path')
    have "rebalance_up (e' # path') u ap = Some (q, ap')" using assms unfolding Cons e path_entry.sel .
    then obtain ap3 where "bc_delete_up (history_of path' (chain e' (chain e p))) (refresh_height (chain e' u)) (hap + 4) =
        Some (q, ap3)" "hap + 4 \<le> ap3" "ap3 \<le> hap + 4 + 8 + 12 * length path'"
      using bc_delete_up_eq by blast
    then show ?thesis using sib unfolding Cons e
      by (cases s) (simp_all add: avl_bc_delete_def del: bc_delete_up.simps)
  qed
qed

lemma avl_bc_remove_ok:
  assumes cmp: "total_cmp cmp" and v: "avl_valid cmp root" and n: "length (avl_entries root) < 2 ^ 32"
  shows "\<exists>root' ap'. avl_bc_remove cmp root key ap = Some (root', ap') \<and> avl_valid cmp root' \<and>
    length (avl_entries root') \<le> length (avl_entries root) \<and>
    (\<forall>x. avl_find cmp root' x = (if cmp x key = CMP_EQUAL then NULL_WORD else avl_find cmp root x)) \<and>
    ap \<le> ap' \<and> ap' \<le> ap + AVL_MAX_ALLOCATION_IN_DELETE + 48 * AVL_BC_DELVE_MAX_ALLOCATION"
proof (cases "avl_find cmp root key = NULL_WORD")
  case True
  have "avl_find cmp root x = NULL_WORD" if "cmp x key = CMP_EQUAL" for x
    using True assoc_equal_keys [OF cmp that] avl_find_assoc [OF cmp v] by simp
  then show ?thesis using True v by (simp add: avl_bc_remove_def)
next
  case found: False
  then obtain t where root: "root = Some t" by (cases root) (auto simp: avl_find_def)
  have t: "avl_valid cmp (Some t)" "length (entries t) < 2 ^ 32" using v n root by simp_all
  show ?thesis
  proof (rule deletion_ok [OF cmp t, of key ap])
    fix k d path ap1
    assume D: "descend cmp key t [] ap = Some (Inr (k, d, path, ap1))" "length path \<le> 45"
        "path_0_node path (CELL_avl_leaf k d) = t"
      and absent: "cmp key k \<noteq> CMP_EQUAL \<Longrightarrow> \<forall>x \<in> avl_keys t. cmp key x \<noteq> CMP_EQUAL"
      and present: "\<And>e path'. cmp key k = CMP_EQUAL \<Longrightarrow> path = e # path' \<Longrightarrow>
        \<exists>q ap2. rebalance_up path' (sibling e) ap1 = Some (q, ap2) \<and> avl_valid cmp (Some q) \<and>
          Suc (length (entries q)) = length (entries t) \<and>
          set (entries q) \<subseteq> set (entries t) \<and> (\<forall>x \<in> avl_keys q. cmp key x \<noteq> CMP_EQUAL) \<and>
          (\<forall>x. avl_find cmp (Some q) x = (if cmp x key = CMP_EQUAL then NULL_WORD else avl_find cmp (Some t) x)) \<and>
          ap1 \<le> ap2 \<and> ap2 \<le> ap1 + 8 * length path'"
    have key: "cmp key k = CMP_EQUAL"
      using found absent assoc_absent avl_find_assoc [OF cmp v] unfolding root by fastforce
    note h = build_history_for_delete_eq [OF D(1) key, of ap]
    show ?thesis
    proof (cases path)
      case Nil
      then have "avl_find cmp (Some t) x = NULL_WORD" if "cmp x key \<noteq> CMP_EQUAL" for x
        using D(3) that total_cmpD(5) [OF cmp] cmp_sym [OF cmp] key by (auto simp: avl_find_def)
      then show ?thesis using found h Nil unfolding root
        by (auto simp: avl_bc_remove_def avl_bc_delete_def) (auto simp: avl_find_def)
    next
      case (Cons e path')
      obtain q ap2 where q: "rebalance_up path' (sibling e) ap1 = Some (q, ap2)" "avl_valid cmp (Some q)"
          "Suc (length (entries q)) = length (entries t)"
          "\<forall>x. avl_find cmp (Some q) x = (if cmp x key = CMP_EQUAL then NULL_WORD else avl_find cmp (Some t) x)"
        using present [OF key Cons] by blast
      obtain ap3 where "avl_bc_delete (history_of path (CELL_avl_leaf k d)) (ap + 3 * length path) = Some (Some q, ap3)"
          "ap + 3 * length path \<le> ap3" "ap3 \<le> ap + 3 * length path + 12 * length path'"
        using avl_bc_delete_eq [OF q(1)] unfolding Cons by blast
      then show ?thesis using q(2-4) found h D(2) Cons unfolding root
        by (simp add: avl_bc_remove_def AVL_MAX_ALLOCATION_IN_DELETE_def AVL_BC_DELVE_MAX_ALLOCATION_def)
    qed
  qed
qed

text \<open>
  Does the deletion rotate the root?  It does when the heights of the sons of the root differ by more
  than one after the deletion in one of them.
\<close>

fun root_rotates :: "('k \<Rightarrow> 'k \<Rightarrow> cmp_result_t) \<Rightarrow> 'k avl \<Rightarrow> 'k \<Rightarrow> bool" where
  "root_rotates cmp (CELL_avl_internal h k l r) key =
    (let (t, u) = (if cmp key k = CMP_LESS \<or> cmp key k = CMP_EQUAL then (l, r) else (r, l))
     in case do { (history, ap) \<leftarrow> build_history_for_delete cmp (Some t) key 0; avl_bc_delete history ap } of
          Some (Some t', _) \<Rightarrow> stored_height t' + 1 < stored_height u \<or> stored_height u + 1 < stored_height t'
        | _ \<Rightarrow> False)"
| "root_rotates cmp (CELL_avl_leaf _ _) key = False"

lemma descend_base:
  "descend cmp key t (p @ base) ap = Some (Inr (k, d, path, ap')) \<Longrightarrow>
    \<exists>p' ap2. path = p' @ base \<and> descend cmp key t p hap = Some (Inr (k, d, p', ap2))"
proof (induction t arbitrary: p ap hap)
  case (CELL_avl_internal h k' l r)
  show ?case
  proof (cases "cmp key k' = CMP_LESS \<or> cmp key k' = CMP_EQUAL")
    case True
    then show ?thesis
      using CELL_avl_internal.prems CELL_avl_internal.IH(1) [of "Path_entry son_2 h k' r # p" "ap + 4" "hap + 4"]
      by (auto simp: Let_def split: if_splits)
  next
    case False
    then show ?thesis
      using CELL_avl_internal.prems CELL_avl_internal.IH(2) [of "Path_entry son_3 h k' l # p" "ap + 4" "hap + 4"]
      by (auto simp: Let_def split: if_splits)
  qed
qed auto

lemma rebalance_up_snoc:
  "rebalance_up (path @ [e]) t ap = do { (t', ap') \<leftarrow> rebalance_up path t ap; rebalance_up [e] t' ap' }"
  by (induction path arbitrary: t ap)
    (auto simp: Let_def case_prod_unfold simp del: rebalance_up.simps(2) simp: rebalance_up.simps(2) [of _ "_ @ [e]"]
      rebalance_up.simps(2) intro!: Option.bind_cong)

lemma delete_up_snoc:
  "delete_up (path @ [e]) t ap = do { (t', ap') \<leftarrow> rebalance_up path t ap; delete_up [e] t' ap' }"
proof (induction path arbitrary: t ap)
  case (Cons e' path)
  show ?case
    by (subst append_Cons, subst delete_up.simps(2))
      (auto simp: Let_def Cons.IH case_prod_unfold simp del: delete_up.simps(2) intro!: Option.bind_cong)
qed (simp del: delete_up.simps(2))

section \<open>The AVL tree as a keyed store\<close>

sublocale ordered_items \<subseteq> avl: word_map "\<lambda>k' k. cmp k' k = CMP_EQUAL" None "avl_find cmp"
  "\<lambda>t k d. avl_insert cmp None t k d" "avl_valid cmp" "\<lambda>t. length (avl_entries t)" "\<lambda>n. n < 2 ^ 32"
  AVL_MAX_ALLOCATION_IN_INSERT "avl_bc_remove cmp" "AVL_MAX_ALLOCATION_IN_DELETE + 48 * AVL_BC_DELVE_MAX_ALLOCATION"
proof
  show "avl_find cmp None k = NULL_WORD" for k by (simp add: avl_find_def)
  show "\<exists>t' ap'. avl_insert cmp None t k d ap = Some (t', ap') \<and> avl_valid cmp t' \<and>
      length (avl_entries t') \<le> Suc (length (avl_entries t)) \<and>
      (\<forall>k'. avl_find cmp t' k' = (if cmp k' k = CMP_EQUAL then d else avl_find cmp t k')) \<and>
      ap \<le> ap' \<and> ap' \<le> ap + AVL_MAX_ALLOCATION_IN_INSERT"
    if "avl_valid cmp t" "length (avl_entries t) < 2 ^ 32" for t k d ap
    using avl_insert_ok [OF total that, of None k d ap] unfolding AVL_MAX_ALLOCATION_IN_INSERT_def updated_None
    by fastforce
  show "\<exists>t' ap'. avl_bc_remove cmp t k ap = Some (t', ap') \<and> avl_valid cmp t' \<and>
      length (avl_entries t') \<le> length (avl_entries t) \<and>
      (\<forall>k'. avl_find cmp t' k' = (if cmp k' k = CMP_EQUAL then NULL_WORD else avl_find cmp t k')) \<and>
      ap \<le> ap' \<and> ap' \<le> ap + (AVL_MAX_ALLOCATION_IN_DELETE + 48 * AVL_BC_DELVE_MAX_ALLOCATION)"
    if "avl_valid cmp t" "length (avl_entries t) < 2 ^ 32" for t k ap
    using avl_bc_remove_ok [OF total that, of k ap] by (simp add: add.assoc)
qed simp_all

context ordered_items
begin

lemma avl_run:
  assumes "length ops < 2 ^ 32"
  shows "\<exists>t ap'. map_run (\<lambda>t k d. avl_insert cmp None t k d) (avl_bc_remove cmp) ops None ap = Some (t, ap') \<and>
    avl_valid cmp t \<and>
    (\<forall>k. avl_find cmp t k = map_spec (\<lambda>k' k. cmp k' k = CMP_EQUAL) ops (\<lambda>_. NULL_WORD) k) \<and>
    ap' \<le> ap + length ops * (AVL_MAX_ALLOCATION_IN_DELETE + 48 * AVL_BC_DELVE_MAX_ALLOCATION)"
  using avl.run_from_null [of ops ap] assms
  by (simp add: AVL_MAX_ALLOCATION_IN_DELETE_def AVL_MAX_ALLOCATION_IN_INSERT_def AVL_BC_DELVE_MAX_ALLOCATION_def)

end

section \<open>Properties\<close>

lemma balanced_assertions:
  "balanced t \<Longrightarrow> stored_height t \<le> 50 \<Longrightarrow> avl_rec_make_assertions t"
  by (induction t) (auto simp: HEIGHT_of_max)

lemma avl_delete_root:
  assumes cmp: "total_cmp cmp" and v: "avl_valid cmp (Some t)" and n: "length (entries t) < 2 ^ 32"
    and old: "\<exists>x \<in> avl_keys t. cmp key x = CMP_EQUAL"
  shows "\<exists>root' ap1 history ap2 t' ap3. avl_delete cmp None (Some t) key data ap = Some (root', ap1) \<and>
    build_history_for_delete cmp (Some t) key ap = Some (history, ap2) \<and>
    avl_bc_delete history ap2 = Some (t', ap3) \<and> Suc (length (avl_entries t')) = length (entries t) \<and>
    (if root_rotates cmp t key
     then \<exists>q q'. t' = Some q \<and> root' = Some q' \<and> (left_son q = Some q' \<or> right_son q = Some q') \<and>
       length (entries q') < length (entries q)
     else root' = t')"
proof (rule deletion_ok [OF cmp v n, of key ap])
  fix k d path ap1
  assume D: "descend cmp key t [] ap = Some (Inr (k, d, path, ap1))" "path_0_node path (CELL_avl_leaf k d) = t"
    and absent: "cmp key k \<noteq> CMP_EQUAL \<Longrightarrow> \<forall>x \<in> avl_keys t. cmp key x \<noteq> CMP_EQUAL"
    and present: "\<And>e path'. cmp key k = CMP_EQUAL \<Longrightarrow> path = e # path' \<Longrightarrow>
      \<exists>q ap2. rebalance_up path' (sibling e) ap1 = Some (q, ap2) \<and> avl_valid cmp (Some q) \<and>
        Suc (length (entries q)) = length (entries t) \<and>
        set (entries q) \<subseteq> set (entries t) \<and> (\<forall>x \<in> avl_keys q. cmp key x \<noteq> CMP_EQUAL) \<and>
        (\<forall>x. avl_find cmp (Some q) x = (if cmp x key = CMP_EQUAL then NULL_WORD else avl_find cmp (Some t) x)) \<and>
        ap1 \<le> ap2 \<and> ap2 \<le> ap1 + 8 * length path'"
  have key: "cmp key k = CMP_EQUAL" using old absent by blast
  note h = build_history_for_delete_eq [OF D(1) key, of ap]
  show ?thesis
  proof (cases t)
    case (CELL_avl_leaf k' d')
    then have "path = []" "\<not> root_rotates cmp t key" using D(1) by simp_all
    then show ?thesis using h D(1) key CELL_avl_leaf by (simp add: avl_delete_def avl_bc_delete_def)
  next
    case (CELL_avl_internal h0 k0 l r)
    let ?left = "cmp key k0 = CMP_LESS \<or> cmp key k0 = CMP_EQUAL"
    define e0 where "e0 = (if ?left then Path_entry son_2 h0 k0 r else Path_entry son_3 h0 k0 l)"
    define u where "u = (if ?left then l else r)"
    have "descend cmp key u ([] @ [e0]) (ap + 4) = Some (Inr (k, d, path, ap1))"
      using D(1) unfolding CELL_avl_internal e0_def u_def by (auto simp: Let_def split: if_splits)
    from descend_base [OF this, of 0] obtain p ap' where p: "path = p @ [e0]"
        "descend cmp key u [] 0 = Some (Inr (k, d, p, ap'))" by blast
    note hu = build_history_for_delete_eq [OF p(2) key, of 0]
    have sib: "sibling e0 = (if ?left then r else l)" by (simp add: e0_def)
    have rot: "root_rotates cmp t key \<longleftrightarrow>
        (case avl_bc_delete (history_of p (CELL_avl_leaf k d)) (3 * length p) of
          Some (Some t', _) \<Rightarrow> stored_height t' + 1 < stored_height (sibling e0) \<or> stored_height (sibling e0) + 1 < stored_height t'
        | _ \<Rightarrow> False)"
      using hu unfolding CELL_avl_internal sib u_def by (cases ?left) simp_all
    show ?thesis
    proof (cases p)
      case Nil
      then have path: "path = [e0]" using p(1) by simp
      obtain q where q: "rebalance_up [] (sibling e0) ap1 = Some (q, ap1)" "Suc (length (entries q)) = length (entries t)"
        using present [OF key path] by auto
      have "\<not> root_rotates cmp t key" unfolding rot Nil by (simp add: avl_bc_delete_def)
      moreover obtain ap2 where "avl_bc_delete (history_of path (CELL_avl_leaf k d)) (ap + 3 * length path) = Some (Some q, ap2)"
        using avl_bc_delete_eq [OF q(1)] unfolding path by blast
      moreover have "avl_delete cmp None (Some t) key data ap = Some (Some q, ap1)"
        using D(1) key q(1) unfolding path by (simp add: avl_delete_def)
      ultimately show ?thesis using h q(2) by simp
    next
      case (Cons e p')
      then have path: "path = e # (p' @ [e0])" using p(1) by simp
      obtain q ap2 where q: "rebalance_up (p' @ [e0]) (sibling e) ap1 = Some (q, ap2)" "avl_valid cmp (Some q)"
          "Suc (length (entries q)) = length (entries t)"
        using present [OF key path] by blast
      obtain t1 a1 where t1: "rebalance_up p' (sibling e) ap1 = Some (t1, a1)" "rebalance_up [e0] t1 a1 = Some (q, ap2)"
        using q(1) unfolding rebalance_up_snoc by (auto simp: bind_eq_Some simp del: rebalance_up.simps)
      have up: "delete_up (p' @ [e0]) (sibling e) ap1 = delete_up [e0] t1 a1"
        unfolding delete_up_snoc t1(1) by simp
      obtain b where b1: "BALANCE (chain e0 t1) = Some b" by (simp add: stored_refresh_le)
      have b2: "(stored_height t1 + 1 < stored_height (sibling e0) \<or> stored_height (sibling e0) + 1 < stored_height t1) \<longleftrightarrow>
            b < -1 \<or> 1 < b"
        using b1 by (cases "son e0") (auto simp: stored_refresh_le)
      note b = b1 b2
      have rot': "root_rotates cmp t key \<longleftrightarrow> b < -1 \<or> 1 < b"
        using avl_bc_delete_eq [OF t1(1), of "CELL_avl_leaf k d" "3 * length p"] b(2) unfolding rot Cons by auto
      obtain ap4 where bc: "avl_bc_delete (history_of path (CELL_avl_leaf k d)) (ap + 3 * length path) = Some (Some q, ap4)"
        using avl_bc_delete_eq [OF q(1)] unfolding path by blast
      obtain q' where q': "delete_up [e0] t1 a1 = Some (q', ap2)"
          "if b < -1 \<or> 1 < b then left_son q = Some q' \<or> right_son q = Some q' else q' = q"
        using t1(2) b(1) rotate_delete_sons [of "chain e0 t1" a1 q ap2]
        by (cases "b < -1"; cases "1 < b") (auto simp: Let_def bind_eq_Some)
      have "avl_delete cmp None (Some t) key data ap = Some (Some q', ap2)"
        using D(1) key q'(1) up unfolding path by (simp add: avl_delete_def)
      then show ?thesis using h bc q(2,3) q'(2) rot' son_cases [of q q' cmp] by (auto split: if_splits)
    qed
  qed
qed

text \<open>C11. Any sequence of insertions by \<^verbatim>\<open>avl_insert\<close> and deletions by the byte code routines
  (\<^verbatim>\<open>build_history_for_delete\<close> and \<^verbatim>\<open>avl_bc_delete\<close>) of fewer than \<open>2^32\<close> operations, with any
  comparison function that orders the keys, runs without a write behind the table of 50 path entries,
  leaves a balanced and ordered tree, makes \<^verbatim>\<open>avl_find\<close> agree with the function from keys to data
  that the sequence describes, and allocates in all at most \<^verbatim>\<open>AVL_MAX_ALLOCATION_IN_DELETE\<close> and 48
  \<^verbatim>\<open>AVL_BC_DELVE_MAX_ALLOCATION\<close> words times the number of operations.\<close>

theorem avl_run_correct:
  assumes "total_cmp cmp" and "length ops < 2 ^ 32"
  shows "\<exists>t ap'. map_run (\<lambda>t k d. avl_insert cmp None t k d) (avl_bc_remove cmp) ops None ap = Some (t, ap') \<and>
    avl_valid cmp t \<and>
    (\<forall>k. avl_find cmp t k = map_spec (\<lambda>k' k. cmp k' k = CMP_EQUAL) ops (\<lambda>_. NULL_WORD) k) \<and>
    ap' \<le> ap + length ops * (AVL_MAX_ALLOCATION_IN_DELETE + 48 * AVL_BC_DELVE_MAX_ALLOCATION)"
  by (rule ordered_items.avl_run [OF _ assms(2)]) (unfold_locales, rule assms(1))

theorem avl_run_correct_witness:
  "\<exists>t ap'. map_run (\<lambda>t k d. avl_insert item_cmp None t k d) (avl_bc_remove item_cmp)
      [Put 3 30, Put 1 10, Put 2 20, Remove 3, Put 1 11] None 0 = Some (t, ap') \<and> avl_valid item_cmp t \<and>
    avl_find item_cmp t 1 = 11 \<and> avl_find item_cmp t 2 = 20 \<and> avl_find item_cmp t 3 = NULL_WORD \<and> ap' \<le> 5 * 727"
proof -
  obtain t ap' where t: "map_run (\<lambda>t k d. avl_insert item_cmp None t k d) (avl_bc_remove item_cmp)
      [Put 3 30, Put 1 10, Put 2 20, Remove 3, Put 1 11] None 0 = Some (t, ap')" "avl_valid item_cmp t"
    "\<forall>k. avl_find item_cmp t k = map_spec (\<lambda>k' k. item_cmp k' k = CMP_EQUAL)
        [Put 3 30, Put 1 10, Put 2 20, Remove 3, Put 1 11] (\<lambda>_. NULL_WORD) k"
    "ap' \<le> 0 + length [Put 3 30, Put 1 10, Put 2 20, Remove 3, Put (1 :: word_t) 11] *
      (AVL_MAX_ALLOCATION_IN_DELETE + 48 * AVL_BC_DELVE_MAX_ALLOCATION)"
    using avl_run_correct [OF total_item_cmp, of "[Put 3 30, Put 1 10, Put 2 20, Remove 3, Put 1 11]" 0] by auto
  then show ?thesis
    by (simp add: item_cmp_def AVL_MAX_ALLOCATION_IN_DELETE_def AVL_BC_DELVE_MAX_ALLOCATION_def)
qed

text \<open>C12. A single insertion by \<^verbatim>\<open>avl_insert\<close>, deletion by \<^verbatim>\<open>avl_delete\<close> or deletion by the byte
  code routines on a valid tree of fewer than \<open>2^32\<close> items keeps the tree balanced and ordered and
  allocates at most 195, 540 and 727 words; the first two are within
  \<^verbatim>\<open>AVL_MAX_ALLOCATION_IN_INSERT\<close> and \<^verbatim>\<open>AVL_MAX_ALLOCATION_IN_DELETE\<close>.  \<^verbatim>\<open>avl_delete\<close> leaves
  no other items than those with other keys (it may lose some of them), and a valid tree passes
  \<^verbatim>\<open>avl_make_assertions\<close>.\<close>

theorem avl_step_bounded:
  assumes "total_cmp cmp" and "avl_valid cmp root" and "length (avl_entries root) < 2 ^ 32"
  shows "avl_make_assertions root \<and>
    (\<exists>root' ap'. avl_insert cmp None root key data ap = Some (root', ap') \<and> avl_valid cmp root' \<and>
      (\<forall>x. avl_find cmp root' x = (if cmp x key = CMP_EQUAL then data else avl_find cmp root x)) \<and>
      ap \<le> ap' \<and> ap' \<le> ap + 195) \<and>
    (\<exists>root' ap'. avl_delete cmp None root key NULL_WORD ap = Some (root', ap') \<and> avl_valid cmp root' \<and>
      set (avl_entries root') \<subseteq> {(x, d) \<in> set (avl_entries root). cmp x key \<noteq> CMP_EQUAL} \<and>
      ap \<le> ap' \<and> ap' \<le> ap + 540) \<and>
    (\<exists>root' ap'. avl_bc_remove cmp root key ap = Some (root', ap') \<and> avl_valid cmp root' \<and>
      (\<forall>x. avl_find cmp root' x = (if cmp x key = CMP_EQUAL then NULL_WORD else avl_find cmp root x)) \<and>
      ap \<le> ap' \<and> ap' \<le> ap + 727)"
proof -
  have "avl_make_assertions root"
    using assms(2,3) balanced_height [of "the root"] balanced_assertions [of "the root"]
    by (cases root) (auto simp: avl_make_assertions_def)
  moreover have "\<exists>root' ap'. avl_insert cmp None root key data ap = Some (root', ap') \<and> avl_valid cmp root' \<and>
      (\<forall>x. avl_find cmp root' x = (if cmp x key = CMP_EQUAL then data else avl_find cmp root x)) \<and>
      ap \<le> ap' \<and> ap' \<le> ap + 195"
    using avl_insert_ok [OF assms, of None key data ap] unfolding updated_None by fastforce
  moreover have "\<exists>root' ap'. avl_bc_remove cmp root key ap = Some (root', ap') \<and> avl_valid cmp root' \<and>
      (\<forall>x. avl_find cmp root' x = (if cmp x key = CMP_EQUAL then NULL_WORD else avl_find cmp root x)) \<and>
      ap \<le> ap' \<and> ap' \<le> ap + 727"
    using avl_bc_remove_ok [OF assms, of key ap]
    unfolding AVL_MAX_ALLOCATION_IN_DELETE_def AVL_BC_DELVE_MAX_ALLOCATION_def by fastforce
  ultimately show ?thesis using avl_delete_ok [OF assms, of key NULL_WORD ap] by blast
qed

theorem avl_step_bounded_witness:
  "\<exists>root' ap'. avl_delete item_cmp None
      (Some (CELL_avl_internal 1 4 (CELL_avl_leaf 4 40) (CELL_avl_leaf 9 90))) 4 NULL_WORD 0 = Some (root', ap') \<and>
    avl_valid item_cmp root' \<and> ap' \<le> 0 + 540"
proof -
  let ?root = "Some (CELL_avl_internal 1 (4 :: word_t) (CELL_avl_leaf 4 40) (CELL_avl_leaf 9 90))"
  have "avl_valid item_cmp ?root" "length (avl_entries ?root) < 2 ^ 32" by (simp_all add: item_cmp_def HEIGHT_of_def)
  from avl_step_bounded [OF total_item_cmp this, of 4 NULL_WORD 0] show ?thesis by blast
qed

text \<open>C13. Byte code that collects the path in a history and then calls \<^verbatim>\<open>avl_bc_insert\<close> builds the
  tree that \<^verbatim>\<open>avl_insert\<close> builds, whenever the insertion changes something.\<close>

theorem avl_bc_insert_agrees:
  assumes "total_cmp cmp" and "avl_valid cmp root" and "length (avl_entries root) < 2 ^ 32"
    and "avl_find cmp root key \<noteq> data"
  shows "\<exists>t' ap1 history ap2 ap3. avl_insert cmp None root key data ap = Some (Some t', ap1) \<and>
    build_history_for_insert cmp root key ap = Some (history, ap2) \<and>
    avl_bc_insert history key data ap2 = Some (t', ap3)"
proof -
  obtain root' ap1 where i: "avl_insert cmp None root key data ap = Some (root', ap1)"
      "\<forall>x. avl_find cmp root' x = (if cmp x key = CMP_EQUAL then data else avl_find cmp root x)"
    using avl_insert_ok [OF assms(1-3), of None key data ap] by auto
  show ?thesis
  proof (cases root')
    case None
    then show ?thesis using i(1) avl_insert_not_None by metis
  next
    case (Some t')
    then show ?thesis using avl_bc_insert_ok [OF assms] i(1) by blast
  qed
qed

theorem avl_bc_insert_agrees_witness:
  "\<exists>t' ap1 history ap2 ap3. avl_insert item_cmp None (Some (CELL_avl_leaf 4 40)) 9 90 0 = Some (Some t', ap1) \<and>
    build_history_for_insert item_cmp (Some (CELL_avl_leaf 4 40)) 9 0 = Some (history, ap2) \<and>
    avl_bc_insert history 9 90 ap2 = Some (t', ap3)"
  by (rule avl_bc_insert_agrees [OF total_item_cmp]) (simp_all add: avl_find_def item_cmp_def)

text \<open>C14. \<^verbatim>\<open>avl_delete\<close> of a key that exists gives the tree of the byte code routines, which has just
  the key deleted, unless the root is rotated on the way back (\<open>root_rotates\<close>: after the deletion in
  one son of the root, the heights of the two sons differ by more than one).  Then the rotated root is
  chained nowhere, the function returns the cell that was the root before, and the items of the other
  son of the rotated root are lost.\<close>

theorem avl_delete_loses_rotated_root:
  assumes "total_cmp cmp" and "avl_valid cmp (Some t)" and "length (entries t) < 2 ^ 32"
    and "\<exists>x \<in> avl_keys t. cmp key x = CMP_EQUAL"
  shows "\<exists>root' ap1 history ap2 t' ap3. avl_delete cmp None (Some t) key NULL_WORD ap = Some (root', ap1) \<and>
    build_history_for_delete cmp (Some t) key ap = Some (history, ap2) \<and>
    avl_bc_delete history ap2 = Some (t', ap3) \<and> Suc (length (avl_entries t')) = length (entries t) \<and>
    (if root_rotates cmp t key
     then \<exists>q q'. t' = Some q \<and> root' = Some q' \<and> (left_son q = Some q' \<or> right_son q = Some q') \<and>
       length (entries q') < length (entries q)
     else root' = t')"
  by (rule avl_delete_root [OF assms])

text \<open>Deleting 1 from the tree with 1 and 2 on the left and 3, 4 and 5 on the right rotates the root;
  of the four other keys at most three are left (2 and 3, in fact).\<close>

theorem avl_delete_loses_rotated_root_witness:
  "\<exists>q' ap1. avl_delete item_cmp None
      (Some (CELL_avl_internal 3 2
        (CELL_avl_internal 1 1 (CELL_avl_leaf 1 10) (CELL_avl_leaf 2 20))
        (CELL_avl_internal 2 3 (CELL_avl_leaf 3 30)
          (CELL_avl_internal 1 4 (CELL_avl_leaf 4 40) (CELL_avl_leaf 5 50))))) 1 NULL_WORD 0 = Some (Some q', ap1) \<and>
    length (entries q') < 4"
proof -
  let ?t = "CELL_avl_internal 3 (2 :: word_t)
        (CELL_avl_internal 1 1 (CELL_avl_leaf 1 10) (CELL_avl_leaf 2 20))
        (CELL_avl_internal 2 3 (CELL_avl_leaf 3 30)
          (CELL_avl_internal 1 4 (CELL_avl_leaf 4 40) (CELL_avl_leaf 5 50)))"
  have v: "avl_valid item_cmp (Some ?t)" by (simp add: item_cmp_def HEIGHT_of_def)
  have "root_rotates item_cmp ?t 1"
    by (simp add: item_cmp_def build_history_for_delete_def avl_bc_delete_def avl_bc_delve_left_def)
  then show ?thesis
    using avl_delete_loses_rotated_root [OF total_item_cmp v, of 1 0] by (auto simp: item_cmp_def)
qed

text \<open>With a user supplied update function, \<^verbatim>\<open>avl_insert\<close> of a key that is not in a non-empty
  tree applies the function to the data of the neighbouring leaf, not to \<open>NULL_PTR\<close>: the function is
  called before the comparison result is looked at.\<close>

theorem avl_insert_updates_with_neighbour:
  assumes "cmp key k = CMP_GREATER"
  shows "avl_insert cmp (Some f) (Some (CELL_avl_leaf k d)) key data ap =
    Some (Some (CELL_avl_internal 1 k (CELL_avl_leaf k d) (CELL_avl_leaf key (f d data))), ap + 7)"
  using assms by (simp add: avl_insert_def)

theorem avl_insert_updates_with_neighbour_witness:
  "avl_insert item_cmp (Some (\<lambda>old new. if old = NULL_WORD then new else old))
      (Some (CELL_avl_leaf 1 10)) 2 20 0 =
    Some (Some (CELL_avl_internal 1 1 (CELL_avl_leaf 1 10) (CELL_avl_leaf 2 10)), 7)"
  using avl_insert_updates_with_neighbour [of item_cmp 2 1 "\<lambda>old new. if old = NULL_WORD then new else old" 10 20 0]
  by (simp add: item_cmp_def)

end
