(* ===== verification/Dh.thy ===== *)
theory Dh
  imports Map_Interface Bitops
begin

text \<open>
  The dynamic hash trie of \<^verbatim>\<open>dh.c\<close>: an internal node has \<^verbatim>\<open>INTERNAL_NODE_SIZE\<close> sons
  that two bits of the key select, highest bits first, and a leaf has up to \<^verbatim>\<open>MAX_KEYS_IN_LEAF\<close>
  keys with their data.  The pointer \<^verbatim>\<open>pp\<close> through which the code chains a new cell to its
  copied parent is the return value of the recursion.  A result \<open>None\<close> is a failed assertion or a
  shift by the width of the word; inside it, \<open>None\<close> is the nilpotent insertion, for which
  \<^verbatim>\<open>dh_insert\<close> gives the words back.
\<close>

section \<open>The cells and the operations\<close>

definition INTERNAL_NODE_SIZE :: nat where
  "INTERNAL_NODE_SIZE = 4"

definition MAX_KEYS_IN_LEAF :: nat where
  "MAX_KEYS_IN_LEAF = 32"

definition offset :: nat where
  "offset = DO_ILOG2 (word_of_nat INTERNAL_NODE_SIZE) - 1"

lemma DO_ILOG2_node_size: "DO_ILOG2 (word_of_nat INTERNAL_NODE_SIZE) = 3"
  by (simp add: INTERNAL_NODE_SIZE_def DO_ILOG2_def DO_ILOG2_from.simps)

lemma offset_eq: "offset = 2"
  by (simp add: offset_def DO_ILOG2_node_size)

definition DH_MAX_ALLOCATION :: nat where
  "DH_MAX_ALLOCATION =
    ((INTERNAL_NODE_SIZE + 1) * 32) div (DO_ILOG2 (word_of_nat INTERNAL_NODE_SIZE) - 1) + 4 * 2 + 1"

datatype dh =
    CELL_leaf "(word_t \<times> word_t) list"
  | CELL_internal "dh option list"

text \<open>\<^verbatim>\<open>(key << bits_compared) >> (32 - offset)\<close>\<close>

definition digit :: "word_t \<Rightarrow> nat \<Rightarrow> nat" where
  "digit key bits_compared = unat (drop_bit (32 - offset) (push_bit bits_compared key))"

fun leaf_find :: "(word_t \<times> word_t) list \<Rightarrow> word_t \<Rightarrow> word_t option" where
  "leaf_find [] key = None"
| "leaf_find ((k, d) # kds) key = (if k = key then Some d else leaf_find kds key)"

lemma dh_son_size [termination_simp]: "i < length ps \<Longrightarrow> ps ! i = Some t \<Longrightarrow> size t < Suc (size_list (size_option size) ps)"
  using size_list_estimation' [of "Some t" ps "Suc (size t)" "size_option size"] nth_mem [of i ps] by simp

lemma dh_son_size_option [termination_simp]:
  "i < length ps \<Longrightarrow> size_option size (ps ! i) < Suc (Suc (size_list (size_option size) ps))"
  using size_list_estimation' [of "ps ! i" ps "size_option size (ps ! i)" "size_option size"] nth_mem [of i ps] by simp

fun dh_find_node :: "dh \<Rightarrow> word_t \<Rightarrow> nat \<Rightarrow> word_t" where
  "dh_find_node (CELL_leaf kds) key bits_compared =
    (case leaf_find kds key of None \<Rightarrow> NULL_WORD | Some d \<Rightarrow> d)"
| "dh_find_node (CELL_internal ps) key bits_compared =
    (let i = digit key bits_compared
     in if i < length ps
        then (case ps ! i of None \<Rightarrow> NULL_WORD | Some p \<Rightarrow> dh_find_node p key (bits_compared + offset))
        else NULL_WORD)"

definition dh_find :: "dh option \<Rightarrow> word_t \<Rightarrow> word_t" where
  "dh_find root key = (case root of None \<Rightarrow> NULL_WORD | Some p \<Rightarrow> dh_find_node p key 0)"

text \<open>
  \<^verbatim>\<open>dh_find_min\<close> returns the smallest key through \<^verbatim>\<open>key_p\<close> and the word \<^verbatim>\<open>p[4]\<close>; with a
  single key in the leaf that word is behind the end of the cell.
\<close>

fun first_son :: "dh option list \<Rightarrow> nat option" where
  "first_son [] = None"
| "first_son (p # ps) = (if p = None then map_option Suc (first_son ps) else Some 0)"

lemma first_son_nth: "first_son ps = Some i \<Longrightarrow> i < length ps \<and> ps ! i \<noteq> None"
  by (induction ps arbitrary: i) (auto split: if_splits)

function dh_find_min_node :: "dh \<Rightarrow> (word_t \<times> word_t) option" where
  "dh_find_min_node (CELL_leaf kds) =
    (case kds of
       [] \<Rightarrow> None
     | (k, _) # rest \<Rightarrow>
         (case rest of
            [] \<Rightarrow> None
          | (_, d2) # _ \<Rightarrow> Some (fold (\<lambda>(k', _) key. if k' < key then k' else key) rest k, d2)))"
| "dh_find_min_node (CELL_internal ps) =
    (case first_son ps of
       None \<Rightarrow> None
     | Some i \<Rightarrow> (case ps ! i of None \<Rightarrow> None | Some p \<Rightarrow> dh_find_min_node p))"
  by pat_completeness auto
termination
  by (relation "measure size") (auto dest!: first_son_nth intro: dh_son_size)

definition dh_find_min :: "dh option \<Rightarrow> (word_t \<times> word_t) option option" where
  "dh_find_min root = (case root of None \<Rightarrow> Some None | Some p \<Rightarrow> map_option Some (dh_find_min_node p))"

section \<open>Insertion\<close>

definition apply_f :: "(word_t \<Rightarrow> word_t \<Rightarrow> word_t) option \<Rightarrow> word_t \<Rightarrow> word_t \<Rightarrow> word_t" where
  "apply_f f old data = (case f of None \<Rightarrow> data | Some f \<Rightarrow> f old data)"

text \<open>The first pair with the key gets new data.\<close>

fun leaf_update :: "(word_t \<times> word_t) list \<Rightarrow> word_t \<Rightarrow> word_t \<Rightarrow> (word_t \<times> word_t) list" where
  "leaf_update [] key data = []"
| "leaf_update ((k, d) # kds) key data =
    (if k = key then (k, data) # kds else (k, d) # leaf_update kds key data)"

text \<open>
  The split of a full leaf: an internal node whose son \<open>i\<close> is a new leaf with the keys of digit
  \<open>i\<close>, the new key first.
\<close>

definition split_leaf :: "(word_t \<times> word_t) list \<Rightarrow> word_t \<Rightarrow> word_t \<Rightarrow> nat \<Rightarrow> nat \<Rightarrow> dh \<times> nat" where
  "split_leaf kds key data bits_compared ap =
    (let new_leaf = (\<lambda>i. (if digit key bits_compared = i then [(key, data)] else []) @
           filter (\<lambda>(k, d). digit k bits_compared = i) kds);
         leaves = map new_leaf [0..<INTERNAL_NODE_SIZE]
     in (CELL_internal (map (\<lambda>l. if l = [] then None else Some (CELL_leaf l)) leaves),
         ap + sum_list (map (\<lambda>l. if l = [] then 0 else 2 * length l + 1) leaves)))"

text \<open>
  The loop on a full leaf: as long as the new key and all keys of the leaf have the same digit, a
  further internal node is put above the leaf.
\<close>

function overflow :: "(word_t \<times> word_t) list \<Rightarrow> word_t \<Rightarrow> (word_t \<Rightarrow> word_t \<Rightarrow> word_t) option \<Rightarrow> word_t \<Rightarrow>
    nat \<Rightarrow> nat \<Rightarrow> (dh \<times> nat) option" where
  "overflow kds key f data bits_compared ap =
    (if 32 \<le> bits_compared then None
     else
       let ap1 = ap + (INTERNAL_NODE_SIZE + 1)
       in if list_all (\<lambda>(k, d). digit k bits_compared = digit key bits_compared) kds
          then do {
            (p, ap2) \<leftarrow> overflow kds key f data (bits_compared + offset) ap1;
            Some (CELL_internal ((replicate INTERNAL_NODE_SIZE None)[digit key bits_compared := Some p]), ap2) }
          else Some (split_leaf kds key (apply_f f NULL_WORD data) bits_compared ap1))"
  by pat_completeness auto
termination
  by (relation "measure (\<lambda>(kds, key, f, data, bits_compared, ap). 32 - bits_compared)") (auto simp: offset_eq)

declare overflow.simps [simp del]

fun dh_insert_node :: "dh option \<Rightarrow> word_t \<Rightarrow> (word_t \<Rightarrow> word_t \<Rightarrow> word_t) option \<Rightarrow> word_t \<Rightarrow> nat \<Rightarrow> nat \<Rightarrow>
    (dh \<times> nat) option option" where
  "dh_insert_node None key f data bits_compared ap =
    Some (Some (CELL_leaf [(key, apply_f f NULL_WORD data)], ap + 3))"
| "dh_insert_node (Some (CELL_leaf kds)) key f data bits_compared ap =
    (case leaf_find kds key of
       Some old \<Rightarrow>
         (let data = apply_f f old data
          in if old = data then Some None
             else Some (Some (CELL_leaf (leaf_update kds key data), ap + (2 * length kds + 1))))
     | None \<Rightarrow>
         if length kds < MAX_KEYS_IN_LEAF
         then Some (Some (CELL_leaf (kds @ [(key, data)]), ap + (2 * length kds + 1) + 2))
         else if length kds \<noteq> MAX_KEYS_IN_LEAF then None
         else map_option Some (overflow kds key f data bits_compared ap))"
| "dh_insert_node (Some (CELL_internal ps)) key f data bits_compared ap =
    (let i = digit key bits_compared
     in if i < length ps then do {
          result \<leftarrow> dh_insert_node (ps ! i) key f data (bits_compared + offset) (ap + (INTERNAL_NODE_SIZE + 1));
          Some (case result of
                  None \<Rightarrow> None
                | Some (p, ap') \<Rightarrow> Some (CELL_internal (ps[i := Some p]), ap')) }
        else None)"

definition dh_insert :: "dh option \<Rightarrow> word_t \<Rightarrow> (word_t \<Rightarrow> word_t \<Rightarrow> word_t) option \<Rightarrow> word_t \<Rightarrow> nat \<Rightarrow>
    (dh option \<times> nat) option" where
  "dh_insert root key f data ap = do {
     result \<leftarrow> dh_insert_node root key f data 0 ap;
     Some (case result of None \<Rightarrow> (root, ap) | Some (p, ap') \<Rightarrow> (Some p, ap')) }"

definition dh_delete :: "dh option \<Rightarrow> word_t \<Rightarrow> dh option" where
  "dh_delete root key = None"

text \<open>
  \<^verbatim>\<open>dh_make_assertions\<close>: every key below a node has the bits on the way to the node.
\<close>

fun dh_make_assertions :: "dh option \<Rightarrow> nat \<Rightarrow> word_t \<Rightarrow> bool" where
  "dh_make_assertions None bits_compared prefix \<longleftrightarrow> bits_compared \<le> 32"
| "dh_make_assertions (Some (CELL_leaf kds)) bits_compared prefix \<longleftrightarrow> bits_compared \<le> 32 \<and>
    (\<forall>(k, d) \<in> set kds. bits_compared > 0 \<longrightarrow> drop_bit (32 - bits_compared) k = prefix)"
| "dh_make_assertions (Some (CELL_internal ps)) bits_compared prefix \<longleftrightarrow> bits_compared \<le> 32 \<and>
    length ps = INTERNAL_NODE_SIZE \<and>
    (\<forall>i < length ps. dh_make_assertions (ps ! i) (bits_compared + offset)
      (push_bit offset prefix OR word_of_nat i))"

section \<open>Digits and prefixes\<close>

text \<open>The top \<open>b\<close> bits of a key as a number.\<close>

definition top_bits :: "nat \<Rightarrow> word_t \<Rightarrow> nat" where
  "top_bits b key = unat key div 2 ^ (32 - b)"

lemma digit_div:
  assumes "b \<le> 30"
  shows "digit key b = unat key div 2 ^ (30 - b) mod 4"
proof -
  have "digit key b = take_bit 2 (drop_bit (30 - b) (unat key))"
  proof (rule bit_eqI)
    fix n
    have "\<not> bit key (30 + n - b)" if "2 \<le> n" "n < 2 \<and> False \<or> 32 \<le> 30 + n - b"
      using that bit_imp_le_length [of key "30 + n - b"] by auto
    show "bit (digit key b) n = bit (take_bit 2 (drop_bit (30 - b) (unat key))) n"
      using assms by (auto simp: digit_def offset_eq bit_simps add.commute)
  qed
  then show ?thesis by (simp add: take_bit_eq_mod drop_bit_eq_div)
qed

lemma digit_less: "b \<le> 30 \<Longrightarrow> digit key b < 4"
  by (simp add: digit_div)

lemma top_bits_step: "b \<le> 30 \<Longrightarrow> top_bits (b + 2) key = 4 * top_bits b key + digit key b"
proof -
  assume b: "b \<le> 30"
  then have "32 - b = (30 - b) + 2" by simp
  then have "unat key div 2 ^ (32 - b) = unat key div 2 ^ (30 - b) div 4"
    by (simp only: power_add div_mult2_eq) simp
  then show ?thesis using digit_div [OF b, of key] b
    by (simp add: top_bits_def mod_mult_div_eq)
qed

lemma top_bits_0: "top_bits 0 key = 0"
  using unat_less_2p32 [of key] by (simp add: top_bits_def)

lemma top_bits_32: "top_bits 32 k = top_bits 32 k' \<Longrightarrow> k = k'"
  by (simp add: top_bits_def word_unat_eq_iff)

section \<open>Leaves\<close>

lemma leaf_find_map_of: "leaf_find kds = map_of kds"
proof
  show "leaf_find kds key = map_of kds key" for key by (induction kds) auto
qed

lemma leaf_update_ok:
  "map fst (leaf_update kds key data) = map fst kds" "length (leaf_update kds key data) = length kds"
  "map_of kds key = Some old \<Longrightarrow> map_of (leaf_update kds key data) = (map_of kds)(key \<mapsto> data)"
proof -
  show "map fst (leaf_update kds key data) = map fst kds" "length (leaf_update kds key data) = length kds"
    by (induction kds) auto
  show "map_of kds key = Some old \<Longrightarrow> map_of (leaf_update kds key data) = (map_of kds)(key \<mapsto> data)"
    by (induction kds) (auto split: if_splits simp: fun_eq_iff)
qed

lemma map_of_filter_key:
  "map_of (filter (\<lambda>(k, d). P k) kds) key = (if P key then map_of kds key else None)"
  by (induction kds) auto

section \<open>Validity\<close>

fun dh_ok :: "nat \<Rightarrow> nat \<Rightarrow> dh option \<Rightarrow> bool" where
  "dh_ok b prefix None \<longleftrightarrow> b \<le> 32"
| "dh_ok b prefix (Some (CELL_leaf kds)) \<longleftrightarrow> b \<le> 32 \<and> distinct (map fst kds) \<and>
    length kds \<le> MAX_KEYS_IN_LEAF \<and> (\<forall>k \<in> fst ` set kds. top_bits b k = prefix)"
| "dh_ok b prefix (Some (CELL_internal ps)) \<longleftrightarrow> b \<le> 30 \<and> length ps = INTERNAL_NODE_SIZE \<and>
    (\<forall>i < length ps. dh_ok (b + 2) (4 * prefix + i) (ps ! i))"

definition find_at :: "dh option \<Rightarrow> word_t \<Rightarrow> nat \<Rightarrow> word_t" where
  "find_at root key b = (case root of None \<Rightarrow> NULL_WORD | Some p \<Rightarrow> dh_find_node p key b)"

lemma find_at_simps [simp]:
  "find_at None key b = NULL_WORD"
  "find_at (Some (CELL_leaf kds)) key b = (case map_of kds key of None \<Rightarrow> NULL_WORD | Some d \<Rightarrow> d)"
  by (simp_all add: find_at_def leaf_find_map_of)

lemma find_at_internal:
  "b \<le> 30 \<Longrightarrow> length ps = INTERNAL_NODE_SIZE \<Longrightarrow>
    find_at (Some (CELL_internal ps)) key b = find_at (ps ! digit key b) key (b + 2)"
  using digit_less [of b key]
  by (auto simp: find_at_def INTERNAL_NODE_SIZE_def offset_eq Let_def split: option.split)

section \<open>Splitting a full leaf\<close>

lemma split_leaf_ok:
  assumes b: "b \<le> 30" and kds: "distinct (map fst kds)" "length kds = MAX_KEYS_IN_LEAF"
    and pre: "\<forall>k \<in> insert key (fst ` set kds). top_bits b k = prefix"
    and new: "key \<notin> fst ` set kds"
    and two: "\<not> list_all (\<lambda>(k, d). digit k b = digit key b) kds"
  shows "dh_ok b prefix (Some (fst (split_leaf kds key data b ap))) \<and>
    (\<forall>k. find_at (Some (fst (split_leaf kds key data b ap))) k b =
      (if k = key then data else find_at (Some (CELL_leaf kds)) k b)) \<and>
    ap \<le> snd (split_leaf kds key data b ap) \<and> snd (split_leaf kds key data b ap) \<le> ap + 70"
proof -
  define new_leaf where "new_leaf i = (if digit key b = i then [(key, data)] else []) @
     filter (\<lambda>(k, d). digit k b = i) kds" for i
  let ?ps = "map (\<lambda>l. if l = [] then None else Some (CELL_leaf l)) (map new_leaf [0..<INTERNAL_NODE_SIZE])"
  have split: "split_leaf kds key data b ap = (CELL_internal ?ps,
      ap + sum_list (map (\<lambda>l. if l = [] then 0 else 2 * length l + 1) (map new_leaf [0..<INTERNAL_NODE_SIZE])))"
    by (simp add: split_leaf_def new_leaf_def [abs_def] Let_def)
  have nth: "?ps ! i = (if new_leaf i = [] then None else Some (CELL_leaf (new_leaf i)))" if "i < INTERNAL_NODE_SIZE" for i
    using that by simp
  obtain k0 where k0: "k0 \<in> fst ` set kds" "digit k0 b \<noteq> digit key b" using two by (force simp: list_all_iff)
  have size: "length (new_leaf i) \<le> MAX_KEYS_IN_LEAF" for i
  proof (cases "digit key b = i")
    case True
    have "length (filter (\<lambda>(k, d). digit k b = i) kds) < length kds"
      using k0 True by (intro length_filter_less [of "(k0, the (map_of kds k0))"]) (use kds(1) in \<open>auto simp: map_of_eq_Some_iff\<close>)
    then show ?thesis using True kds(2) by (simp add: new_leaf_def)
  next
    case False
    then show ?thesis using kds(2) length_filter_le [of _ kds] by (simp add: new_leaf_def)
  qed
  have ok: "dh_ok (b + 2) (4 * prefix + i) (?ps ! i)" if "i < INTERNAL_NODE_SIZE" for i
  proof -
    have "distinct (map fst (new_leaf i))"
      using kds(1) new by (auto simp: new_leaf_def distinct_map_filter)
    moreover have "\<forall>k \<in> fst ` set (new_leaf i). top_bits (b + 2) k = 4 * prefix + i"
      using pre top_bits_step [OF b] by (auto simp: new_leaf_def split: if_splits)
    ultimately show ?thesis using nth [OF that] size [of i] b by simp
  qed
  have find: "find_at (Some (CELL_internal ?ps)) k b = (if k = key then data else find_at (Some (CELL_leaf kds)) k b)" for k
  proof -
    have d: "digit k b < INTERNAL_NODE_SIZE" using digit_less [OF b] by (simp add: INTERNAL_NODE_SIZE_def)
    have "map_of (new_leaf (digit k b)) k = (if k = key then Some data else map_of kds k)"
      by (auto simp: new_leaf_def map_of_filter_key)
    moreover have "find_at (Some (CELL_internal ?ps)) k b = find_at (?ps ! digit k b) k (b + 2)"
      by (rule find_at_internal [OF b]) simp
    ultimately show ?thesis unfolding nth [OF d] by auto
  qed
  have sum: "sum_list (map (\<lambda>l. if l = [] then 0 else 2 * length l + 1) (map new_leaf [0..<INTERNAL_NODE_SIZE])) \<le> 70"
  proof -
    have four: "[0..<INTERNAL_NODE_SIZE] = [0, 1, 2, 3]" by (simp add: INTERNAL_NODE_SIZE_def upt_conv_Cons)
    have "length (filter (\<lambda>(k, d). digit k b = 0) xs) + length (filter (\<lambda>(k, d). digit k b = 1) xs) +
      length (filter (\<lambda>(k, d). digit k b = 2) xs) + length (filter (\<lambda>(k, d). digit k b = 3) xs) \<le> length xs" for xs :: "(word_t \<times> word_t) list"
      by (induction xs) auto
    then have "length (new_leaf 0) + length (new_leaf 1) + length (new_leaf 2) + length (new_leaf 3) \<le> Suc (length kds)"
      by (fastforce simp: new_leaf_def)
    then show ?thesis unfolding four using kds(2) by (auto simp: MAX_KEYS_IN_LEAF_def)
  qed
  show ?thesis using split ok find sum b by auto
qed


section \<open>Insertion\<close>

lemma levels:
  assumes "b \<le> (30 :: nat)"
  shows "5 + 5 * ((32 - (b + 2)) div 2) = 5 * ((32 - b) div 2)"
proof -
  have "32 - b = Suc (Suc (30 - b))" using assms by simp
  then show ?thesis by simp
qed

lemma overflow_ok:
  assumes kds: "distinct (map fst kds)" "length kds = MAX_KEYS_IN_LEAF" and new: "key \<notin> fst ` set kds"
  shows "b \<le> 32 \<Longrightarrow> even b \<Longrightarrow> \<forall>k \<in> insert key (fst ` set kds). top_bits b k = prefix \<Longrightarrow>
    \<exists>p ap'. overflow kds key f data b ap = Some (p, ap') \<and> dh_ok b prefix (Some p) \<and>
      (\<forall>k. find_at (Some p) k b = (if k = key then apply_f f NULL_WORD data else find_at (Some (CELL_leaf kds)) k b)) \<and>
      ap \<le> ap' \<and> ap' \<le> ap + 5 * ((32 - b) div 2) + 70"
proof (induction "32 - b" arbitrary: b prefix ap rule: less_induct)
  case less
  obtain k0 where k0: "k0 \<in> fst ` set kds" using kds(2) by (cases kds) (auto simp: MAX_KEYS_IN_LEAF_def)
  have "b \<noteq> 32" using less.prems(3) k0 new top_bits_32 by (metis insert_iff)
  then have b: "b \<le> 30" using less.prems(1,2) by (auto simp: le_less elim: evenE)
  define i where "i = digit key b"
  have i: "i < 4" unfolding i_def by (rule digit_less [OF b])
  show ?case
  proof (cases "list_all (\<lambda>(k, d). digit k b = digit key b) kds")
    case False
    then have "overflow kds key f data b ap = Some (split_leaf kds key (apply_f f NULL_WORD data) b (ap + 5))"
      using b by (subst overflow.simps) (simp add: Let_def INTERNAL_NODE_SIZE_def)
    moreover have "5 \<le> 5 * ((32 - b) div 2)" using b by simp
    ultimately show ?thesis
      using split_leaf_ok [OF b kds less.prems(3) new False, of "apply_f f NULL_WORD data" "ap + 5"]
      by (cases "split_leaf kds key (apply_f f NULL_WORD data) b (ap + 5)") auto
  next
    case True
    have "\<forall>k \<in> insert key (fst ` set kds). top_bits (b + 2) k = 4 * prefix + i"
      using less.prems(3) True top_bits_step [OF b] by (auto simp: list_all_iff i_def)
    moreover have "32 - (b + 2) < 32 - b" "b + 2 \<le> 32" "even (b + 2)" using b less.prems(2) by auto
    ultimately obtain p ap' where p: "overflow kds key f data (b + 2) (ap + 5) = Some (p, ap')"
        "dh_ok (b + 2) (4 * prefix + i) (Some p)"
        "\<forall>k. find_at (Some p) k (b + 2) = (if k = key then apply_f f NULL_WORD data else find_at (Some (CELL_leaf kds)) k (b + 2))"
        "ap + 5 \<le> ap'" "ap' \<le> ap + 5 + 5 * ((32 - (b + 2)) div 2) + 70"
      using less.hyps [of "b + 2" "4 * prefix + i" "ap + 5"] by blast
    let ?ps = "(replicate INTERNAL_NODE_SIZE None)[i := Some p]"
    have "overflow kds key f data b ap = Some (CELL_internal ?ps, ap')"
      using b True p(1) by (subst overflow.simps) (simp add: Let_def INTERNAL_NODE_SIZE_def offset_eq i_def)
    moreover have "dh_ok b prefix (Some (CELL_internal ?ps))"
      using p(2) b i by (auto simp: nth_list_update INTERNAL_NODE_SIZE_def)
    moreover have "find_at (Some (CELL_internal ?ps)) k b =
        (if k = key then apply_f f NULL_WORD data else find_at (Some (CELL_leaf kds)) k b)" for k
    proof -
      have fa: "find_at (Some (CELL_internal ?ps)) k b = find_at (?ps ! digit k b) k (b + 2)"
        by (rule find_at_internal [OF b]) simp
      have "digit k b < 4" by (rule digit_less [OF b])
      have "map_of kds k = None" if "digit k b \<noteq> i"
        using that True unfolding map_of_eq_None_iff i_def by (auto simp: list_all_iff)
      then show ?thesis unfolding fa using \<open>digit k b < 4\<close> p(3) i
        by (auto simp: nth_list_update INTERNAL_NODE_SIZE_def i_def)
    qed
    moreover have "5 + 5 * ((32 - (b + 2)) div 2) = 5 * ((32 - b) div 2)" by (rule levels [OF b])
    ultimately show ?thesis using p(4,5) by (intro exI [of _ "CELL_internal ?ps"] exI [of _ ap']) simp
  qed
qed

lemma five: "INTERNAL_NODE_SIZE + 1 = 5"
  by (simp add: INTERNAL_NODE_SIZE_def)

lemma dh_insert_node_ok:
  "dh_ok b prefix t \<Longrightarrow> even b \<Longrightarrow> top_bits b key = prefix \<Longrightarrow>
    \<exists>r v. dh_insert_node t key f data b ap = Some r \<and>
      (v = data \<or> v = apply_f f (find_at t key b) data) \<and> (f = None \<longrightarrow> v = data) \<and>
      (case r of
         None \<Rightarrow> find_at t key b = v
       | Some (p, ap') \<Rightarrow> dh_ok b prefix (Some p) \<and>
           (\<forall>k. find_at (Some p) k b = (if k = key then v else find_at t k b)) \<and>
           ap \<le> ap' \<and> ap' \<le> ap + 5 * ((32 - b) div 2) + 70)"
proof (induction t key f data b ap arbitrary: prefix rule: dh_insert_node.induct)
  case (1 key f data b ap)
  then show ?case
    by (intro exI [of _ "Some (CELL_leaf [(key, apply_f f NULL_WORD data)], ap + 3)"] exI [of _ "apply_f f NULL_WORD data"])
      (auto simp: apply_f_def MAX_KEYS_IN_LEAF_def)
next
  case (2 kds key f data b ap)
  show ?case
  proof (cases "map_of kds key")
    case (Some old)
    let ?v = "apply_f f old data"
    have f: "find_at (Some (CELL_leaf kds)) key b = old" using Some by simp
    show ?thesis
    proof (cases "old = ?v")
      case True
      then show ?thesis using Some f
        by (intro exI [of _ None] exI [of _ ?v]) (auto simp: leaf_find_map_of apply_f_def split: option.splits)
    next
      case False
      have "dh_ok b prefix (Some (CELL_leaf (leaf_update kds key ?v)))"
        using "2.prems" by (simp add: leaf_update_ok(1,2) flip: set_map)
      moreover have "length kds \<le> 32" using "2.prems" by (simp add: MAX_KEYS_IN_LEAF_def)
      ultimately show ?thesis using Some f False
        by (intro exI [of _ "Some (CELL_leaf (leaf_update kds key ?v), ap + (2 * length kds + 1))"] exI [of _ ?v])
          (auto simp: leaf_find_map_of leaf_update_ok(3) Let_def apply_f_def split: option.splits)
    qed
  next
    case None
    then have new: "key \<notin> fst ` set kds" by (simp add: map_of_eq_None_iff)
    show ?thesis
    proof (cases "length kds < MAX_KEYS_IN_LEAF")
      case True
      then have "dh_ok b prefix (Some (CELL_leaf (kds @ [(key, data)])))" using "2.prems" new by auto
      then show ?thesis using None True
        by (intro exI [of _ "Some (CELL_leaf (kds @ [(key, data)]), ap + (2 * length kds + 1) + 2)"] exI [of _ data])
          (auto simp: leaf_find_map_of MAX_KEYS_IN_LEAF_def map_add_def split: option.splits)
    next
      case False
      then have len: "length kds = MAX_KEYS_IN_LEAF" using "2.prems"(1) by simp
      have "b \<le> 32" "distinct (map fst kds)" "\<forall>k \<in> insert key (fst ` set kds). top_bits b k = prefix"
        using "2.prems" by auto
      from overflow_ok [OF this(2) len new this(1) "2.prems"(2) this(3), of f data ap]
      obtain p ap' where "overflow kds key f data b ap = Some (p, ap')" "dh_ok b prefix (Some p)"
        "\<forall>k. find_at (Some p) k b = (if k = key then apply_f f NULL_WORD data else find_at (Some (CELL_leaf kds)) k b)"
        "ap \<le> ap'" "ap' \<le> ap + 5 * ((32 - b) div 2) + 70" by blast
      then show ?thesis using None False len
        by (intro exI [of _ "Some (p, ap')"] exI [of _ "apply_f f NULL_WORD data"])
          (simp add: leaf_find_map_of apply_f_def)
    qed
  qed
next
  case (3 ps key f data b ap)
  have b: "b \<le> 30" "length ps = INTERNAL_NODE_SIZE" using "3.prems" by auto
  define i where "i = digit key b"
  have i: "i < length ps" "i < 4" using digit_less [OF b(1)] b(2) by (simp_all add: i_def INTERNAL_NODE_SIZE_def)
  have ok: "dh_ok (b + 2) (4 * prefix + i) (ps ! i)" using "3.prems" i by simp
  have ev: "even (b + 2)" using "3.prems"(2) by simp
  have tp: "top_bits (b + 2) key = 4 * prefix + i" using "3.prems"(3) top_bits_step [OF b(1)] by (simp add: i_def)
  note ih = "3.IH" [OF i_def i(1), unfolded offset_eq five, OF ok ev tp]
  obtain r v where r: "dh_insert_node (ps ! i) key f data (b + 2) (ap + 5) = Some r"
      "v = data \<or> v = apply_f f (find_at (ps ! i) key (b + 2)) data" "f = None \<longrightarrow> v = data"
      "case r of None \<Rightarrow> find_at (ps ! i) key (b + 2) = v
       | Some (p, ap') \<Rightarrow> dh_ok (b + 2) (4 * prefix + i) (Some p) \<and>
           (\<forall>k. find_at (Some p) k (b + 2) = (if k = key then v else find_at (ps ! i) k (b + 2))) \<and>
           ap + 5 \<le> ap' \<and> ap' \<le> ap + 5 + 5 * ((32 - (b + 2)) div 2) + 70"
    using ih by blast
  have f: "find_at (Some (CELL_internal ps)) k b = find_at (ps ! digit k b) k (b + 2)" for k
    by (rule find_at_internal [OF b])
  have d: "5 + 5 * ((32 - (b + 2)) div 2) = 5 * ((32 - b) div 2)" by (rule levels [OF b(1)])
  show ?case
  proof (cases r)
    case None
    then show ?thesis using r i f [of key]
      by (intro exI [of _ None] exI [of _ v]) (simp add: i_def [symmetric] offset_eq INTERNAL_NODE_SIZE_def Let_def)
  next
    case (Some x)
    obtain p ap' where x: "x = (p, ap')" by fastforce
    have f': "find_at (Some (CELL_internal (ps[i := Some p]))) k b = find_at (ps[i := Some p] ! digit k b) k (b + 2)" for k
      by (rule find_at_internal) (use b in simp_all)
    have ok: "dh_ok b prefix (Some (CELL_internal (ps[i := Some p])))"
      using "3.prems"(1) r(4) i unfolding Some x by (auto simp: nth_list_update)
    have fd: "find_at (Some (CELL_internal (ps[i := Some p]))) k b = (if k = key then v else find_at (Some (CELL_internal ps)) k b)" for k
      using r(4) i digit_less [OF b(1), of k] b(2) unfolding Some x f f'
      by (auto simp: nth_list_update i_def INTERNAL_NODE_SIZE_def)
    show ?thesis using r ok fd i f [of key] d unfolding Some x
      by (intro exI [of _ "Some (CELL_internal (ps[i := Some p]), ap')"] exI [of _ v])
        (simp add: i_def [symmetric] offset_eq INTERNAL_NODE_SIZE_def Let_def)
  qed
qed


section \<open>The trie as a keyed store\<close>

definition dh_valid :: "dh option \<Rightarrow> bool" where
  "dh_valid root \<longleftrightarrow> dh_ok 0 0 root"

lemma dh_find_at: "dh_find root key = find_at root key 0"
  by (simp add: dh_find_def find_at_def)

lemma dh_insert_ok:
  assumes "dh_valid root"
  shows "\<exists>root' ap' v. dh_insert root key f data ap = Some (root', ap') \<and> dh_valid root' \<and>
    (v = data \<or> v = apply_f f (dh_find root key) data) \<and> (f = None \<longrightarrow> v = data) \<and>
    (\<forall>k. dh_find root' k = (if k = key then v else dh_find root k)) \<and> ap \<le> ap' \<and> ap' \<le> ap + 150"
proof -
  obtain r v where r: "dh_insert_node root key f data 0 ap = Some r"
      "v = data \<or> v = apply_f f (find_at root key 0) data" "f = None \<longrightarrow> v = data"
      "case r of None \<Rightarrow> find_at root key 0 = v
       | Some (p, ap') \<Rightarrow> dh_ok 0 0 (Some p) \<and>
           (\<forall>k. find_at (Some p) k 0 = (if k = key then v else find_at root k 0)) \<and>
           ap \<le> ap' \<and> ap' \<le> ap + 5 * ((32 - 0) div 2) + 70"
    using dh_insert_node_ok [of 0 0 root key f data ap] assms top_bits_0 by (auto simp: dh_valid_def)
  show ?thesis
  proof (cases r)
    case None
    then show ?thesis using r assms
      by (intro exI [of _ root] exI [of _ ap] exI [of _ v]) (simp add: dh_insert_def dh_find_at)
  next
    case (Some x)
    obtain p ap' where x: "x = (p, ap')" by fastforce
    show ?thesis using r unfolding Some x
      by (intro exI [of _ "Some p"] exI [of _ ap'] exI [of _ v]) (simp add: dh_insert_def dh_find_at dh_valid_def)
  qed
qed

interpretation dht: word_store "(=)" None dh_find "\<lambda>t k d. dh_insert t k None d" dh_valid "\<lambda>_. 0" "\<lambda>_. True" 150
proof
  show "\<exists>t' ap'. dh_insert t k None d ap = Some (t', ap') \<and> dh_valid t' \<and> 0 \<le> Suc 0 \<and>
      (\<forall>k'. dh_find t' k' = (if k' = k then d else dh_find t k')) \<and> ap \<le> ap' \<and> ap' \<le> ap + 150"
    if "dh_valid t" for t k d ap
    using dh_insert_ok [OF that, of k None d ap] by auto
qed (simp_all add: dh_valid_def dh_find_def)

section \<open>Properties\<close>

text \<open>C15. Inserting any sequence of keys and data into the dynamic hash trie fails no assertion,
  never shifts by the word width, keeps the trie valid, and afterwards \<^verbatim>\<open>dh_find\<close> returns the
  data inserted last for every key and \<open>NULL_PTR\<close> for every other key; the sequence allocates in
  all at most 150 words times its length (\<open>dh_insert_assertions\<close> bounds each insertion).\<close>

theorem dh_run_correct:
  "\<exists>t ap'. map_run (\<lambda>t k d. dh_insert t k None d) (\<lambda>t k ap. None) (map (\<lambda>(k, d). Put k d) kds) None ap
      = Some (t, ap') \<and> dh_valid t \<and>
    (\<forall>k. dh_find t k = map_spec (=) (map (\<lambda>(k, d). Put k d) kds) (\<lambda>_. NULL_WORD) k) \<and>
    ap' \<le> ap + length kds * 150"
proof -
  have "dh_find None = (\<lambda>_. NULL_WORD)" by (auto simp: dh_find_def)
  then show ?thesis using dht.puts_refine_spec [OF dht.null_ok(1), of kds "\<lambda>t k ap. None" ap] by simp
qed

lemma prefix_step:
  assumes "i < 4"
  shows "push_bit 2 (word_of_nat prefix) OR word_of_nat i = (word_of_nat (4 * prefix + i) :: word_t)"
proof -
  have "push_bit 2 (word_of_nat prefix) AND (word_of_nat i :: word_t) = 0"
  proof (rule bit_eqI)
    fix n
    have "\<not> bit i n" if "2 \<le> n"
    proof -
      have "i < 2 ^ n" using assms power_increasing [OF that, of "2 :: nat"] by simp
      then show ?thesis by (simp add: bit_iff_odd)
    qed
    then show "bit (push_bit 2 (word_of_nat prefix) AND (word_of_nat i :: word_t)) n = bit (0 :: word_t) n"
      by (auto simp: bit_simps)
  qed
  then have "push_bit 2 (word_of_nat prefix) OR (word_of_nat i :: word_t) =
      push_bit 2 (word_of_nat prefix) + word_of_nat i"
    using word_plus_and_or [of "push_bit 2 (word_of_nat prefix)" "word_of_nat i :: word_t"] by simp
  then show ?thesis by (simp add: push_bit_eq_mult)
qed

lemma dh_ok_assertions: "dh_ok b prefix t \<Longrightarrow> dh_make_assertions t b (word_of_nat prefix)"
proof (induction b prefix t rule: dh_ok.induct)
  case (2 b prefix kds)
  have "drop_bit (32 - b) k = word_of_nat (top_bits b k)" for k :: word_t
    by (simp add: top_bits_def flip: unat_drop)
  then show ?case using 2 by auto
next
  case (3 b prefix ps)
  then show ?case using prefix_step by (auto simp: offset_eq INTERNAL_NODE_SIZE_def)
qed simp

text \<open>C16. One insertion on a valid trie, with any update function: no assertion fails, the trie stays
  valid, which implies \<^verbatim>\<open>dh_make_assertions\<close>, the check of the code that every key lies under the
  path of its leading bits; no other key is affected, and at most 150 words are allocated.\<close>

theorem dh_insert_assertions:
  assumes "dh_valid root"
  shows "\<exists>root' ap'. dh_insert root key f data ap = Some (root', ap') \<and> dh_valid root' \<and>
    dh_make_assertions root' 0 0 \<and>
    (f = None \<longrightarrow> dh_find root' key = data) \<and> (\<forall>k. k \<noteq> key \<longrightarrow> dh_find root' k = dh_find root k) \<and>
    ap \<le> ap' \<and> ap' \<le> ap + 150"
proof -
  obtain root' ap' v where "dh_insert root key f data ap = Some (root', ap')" "dh_valid root'" "f = None \<longrightarrow> v = data"
      "\<forall>k. dh_find root' k = (if k = key then v else dh_find root k)" "ap \<le> ap'" "ap' \<le> ap + 150"
    using dh_insert_ok [OF assms, of key f data ap] by blast
  moreover from this(2) have "dh_make_assertions root' 0 0" using dh_ok_assertions [of 0 0] by (simp add: dh_valid_def)
  ultimately show ?thesis by auto
qed

theorem dh_insert_assertions_witness:
  "\<exists>root' ap'. dh_insert (Some (CELL_leaf [(7, 70)])) 0xC0000000 None 80 0 = Some (root', ap') \<and> dh_valid root' \<and>
    dh_make_assertions root' 0 0 \<and> dh_find root' 0xC0000000 = 80 \<and> ap' \<le> 0 + 150"
proof -
  have "dh_valid (Some (CELL_leaf [(7, 70)]))" by (simp add: dh_valid_def top_bits_def MAX_KEYS_IN_LEAF_def)
  from dh_insert_assertions [OF this, of "0xC0000000" None 80 0] show ?thesis by blast
qed

lemma dh_ok_up:
  assumes "b \<le> 30" and "dh_ok (b + 2) (4 * prefix) (Some t)"
  shows "dh_ok b prefix (Some (CELL_internal [Some t, None, None, None]))"
proof -
  have "dh_ok (b + 2) (4 * prefix + i) ([Some t, None, None, None] ! i)" if "i < 4" for i
  proof -
    have "i \<in> {0, 1, 2, 3}" using that by auto
    then show ?thesis using assms by auto
  qed
  then show ?thesis using assms(1) by (simp add: INTERNAL_NODE_SIZE_def)
qed

text \<open>C17. \<^verbatim>\<open>DH_MAX_ALLOCATION\<close>, which assumes four keys in a leaf, is too small: with the 32 keys
  that \<^verbatim>\<open>MAX_KEYS_IN_LEAF\<close> allows there is a valid trie in which one insertion allocates more.\<close>

theorem dh_max_allocation_exceeded:
  "\<exists>root key data root' ap'. dh_valid root \<and> dh_insert root key None data 0 = Some (root', ap') \<and>
    DH_MAX_ALLOCATION < ap'"
proof -
  let ?kds = "map (\<lambda>i. (word_of_nat i :: word_t, 1 :: word_t)) [0..<31]"
  let ?up = "\<lambda>t. CELL_internal [Some t, None, None, None]"
  let ?root = "Some (?up (?up (?up (?up (?up (CELL_leaf ?kds))))))"
  have u: "unat (word_of_nat i :: word_t) = i" if "i < 32" for i
    using that by (simp add: unsigned_of_nat take_bit_nat_eq_self)
  have "top_bits 10 (word_of_nat i) = 0" if "i < 31" for i
    using that u [of i] by (simp add: top_bits_def)
  moreover have "inj_on (word_of_nat :: nat \<Rightarrow> word_t) {0..<31}"
    by (rule inj_on_inverseI [of _ unat]) (simp add: u)
  ultimately have "dh_ok 10 0 (Some (CELL_leaf ?kds))"
    by (auto simp: MAX_KEYS_IN_LEAF_def distinct_map comp_def)
  then have s10: "dh_ok 10 0 (Some (CELL_leaf ?kds))" .
  have s8: "dh_ok 8 0 (Some (?up (CELL_leaf ?kds)))"
    by (rule dh_ok_up) (use s10 in \<open>simp_all del: dh_ok.simps\<close>)
  have s6: "dh_ok 6 0 (Some (?up (?up (CELL_leaf ?kds))))"
    by (rule dh_ok_up) (use s8 in \<open>simp_all del: dh_ok.simps\<close>)
  have s4: "dh_ok 4 0 (Some (?up (?up (?up (CELL_leaf ?kds)))))"
    by (rule dh_ok_up) (use s6 in \<open>simp_all del: dh_ok.simps\<close>)
  have s2: "dh_ok 2 0 (Some (?up (?up (?up (?up (CELL_leaf ?kds))))))"
    by (rule dh_ok_up) (use s4 in \<open>simp_all del: dh_ok.simps\<close>)
  have "dh_ok 0 0 ?root"
    by (rule dh_ok_up) (use s2 in \<open>simp_all del: dh_ok.simps add: numeral_2_eq_2\<close>)
  then have "dh_valid ?root" by (simp only: dh_valid_def)
  moreover have "leaf_find ?kds 31 = None"
  proof -
    have "(31 :: word_t) \<noteq> word_of_nat i" if "i < 31" for i
    proof
      assume "(31 :: word_t) = word_of_nat i"
      then have "unat (31 :: word_t) = unat (word_of_nat i :: word_t)" by (rule arg_cong)
      then show False using u [of i] that by simp
    qed
    then show ?thesis by (auto simp: leaf_find_map_of map_of_eq_None_iff)
  qed
  then have "\<exists>root'. dh_insert ?root 31 None 1 0 = Some (root', 90)"
    by (simp add: dh_insert_def digit_def offset_eq MAX_KEYS_IN_LEAF_def INTERNAL_NODE_SIZE_def Let_def)
  moreover have "DH_MAX_ALLOCATION = 89"
    unfolding DH_MAX_ALLOCATION_def DO_ILOG2_node_size by (simp add: INTERNAL_NODE_SIZE_def)
  then have "DH_MAX_ALLOCATION < 90" by simp
  ultimately show ?thesis by blast
qed

text \<open>An update function is not applied when the key is new and its leaf has room: the data are
  stored as they are, although for an empty trie and for a full leaf the function is called with
  \<open>NULL_PTR\<close>.\<close>

theorem dh_insert_skips_update_function:
  assumes "key \<notin> fst ` set kds" and "length kds < MAX_KEYS_IN_LEAF"
  shows "dh_insert (Some (CELL_leaf kds)) key (Some f) data ap =
      Some (Some (CELL_leaf (kds @ [(key, data)])), ap + (2 * length kds + 3)) \<and>
    dh_insert None key (Some f) data ap = Some (Some (CELL_leaf [(key, f NULL_WORD data)]), ap + 3)"
proof -
  have "map_of kds key = None" using assms(1) by (simp add: map_of_eq_None_iff)
  then show ?thesis using assms(2) by (simp add: dh_insert_def leaf_find_map_of apply_f_def)
qed

theorem dh_insert_skips_update_function_witness:
  "dh_insert (Some (CELL_leaf [(5, 50)])) 6 (Some (\<lambda>old new. new + 1)) 60 0 =
      Some (Some (CELL_leaf [(5, 50), (6, 60)]), 5) \<and>
    dh_insert None 6 (Some (\<lambda>old new. new + 1)) 60 0 = Some (Some (CELL_leaf [(6, 61)]), 3)"
  using dh_insert_skips_update_function [of 6 "[(5, 50)]" "\<lambda>old new. new + 1" 60 0]
  by (simp add: MAX_KEYS_IN_LEAF_def)

text \<open>\<^verbatim>\<open>dh_find_min\<close> finds the smallest key of the leftmost leaf, but returns the data of the
  second key of that leaf, and reads behind the cell when the leaf has one key.\<close>

theorem dh_find_min_returns_second:
  "dh_find_min (Some (CELL_leaf ((k1, d1) # (k2, d2) # kds))) =
      Some (Some (Min (fst ` set ((k1, d1) # (k2, d2) # kds)), d2)) \<and>
    dh_find_min (Some (CELL_leaf [(k1, d1)])) = None"
proof -
  have "fold (\<lambda>(k', _) key. if k' < key then k' else key) xs k = Min (insert k (fst ` set xs))"
    for k :: word_t and xs :: "(word_t \<times> word_t) list"
  proof (induction xs arbitrary: k)
    case (Cons x xs)
    show ?case
      by (cases x; cases "xs = []") (auto simp: Cons.IH min_def not_less)
  qed simp
  note min = this [of "(k2, d2) # kds" k1]
  have "dh_find_min (Some (CELL_leaf ((k1, d1) # (k2, d2) # kds))) =
      Some (Some (fold (\<lambda>(k', _) key. if k' < key then k' else key) ((k2, d2) # kds) k1, d2))"
    by (simp add: dh_find_min_def)
  then show ?thesis unfolding min by (simp add: dh_find_min_def)
qed

end
