(* ===== verification/Ist234.thy ===== *)
theory Ist234
  imports Item_Lists
begin

text \<open>
  The 2-3-4 internal search tree of \<^verbatim>\<open>ist234.c\<close>: the cells, lookup and insertion.  A node
  of type 2, 3 or 4 holds one to three keys with their data and one subtree more than keys; in the
  code word \<open>1 + 3 * j\<close> of a node is its j-th subtree and the words \<open>2 + 3 * j\<close> and \<open>3 + 3 * j\<close> are
  its j-th key and data, and the operations below use the same indexes.  \<open>None\<close> as the result of an
  operation is a failed assertion, a read outside of a node, or a write behind the 32 entries of
  \<^verbatim>\<open>path\<close>.
\<close>

section \<open>Nodes\<close>

datatype 'k ist234 =
    NULL_IST
  | Node2 "'k ist234" 'k word_t "'k ist234"
  | Node3 "'k ist234" 'k word_t "'k ist234" 'k word_t "'k ist234"
  | Node4 "'k ist234" 'k word_t "'k ist234" 'k word_t "'k ist234" 'k word_t "'k ist234"

definition IST234_MAX_ALLOCATION_IN_INSERT :: nat where
  "IST234_MAX_ALLOCATION_IN_INSERT = 352"

definition IST234_MAX_ALLOCATION_IN_DELETE :: nat where
  "IST234_MAX_ALLOCATION_IN_DELETE = 3 * 352"

fun NODE_TYPE :: "'k ist234 \<Rightarrow> nat" where
  "NODE_TYPE NULL_IST = 0"
| "NODE_TYPE (Node2 _ _ _ _) = 2"
| "NODE_TYPE (Node3 _ _ _ _ _ _ _) = 3"
| "NODE_TYPE (Node4 _ _ _ _ _ _ _ _ _ _) = 4"

definition cell_size :: "'k ist234 \<Rightarrow> nat" where
  "cell_size p = 3 * NODE_TYPE p - 1"

text \<open>The subtree in word \<open>i\<close>, and the key and data in the words \<open>i\<close> and \<open>i + 1\<close>.\<close>

fun subtree :: "'k ist234 \<Rightarrow> nat \<Rightarrow> 'k ist234 option" where
  "subtree NULL_IST i = None"
| "subtree (Node2 s1 _ _ s2) i = (if i = 1 then Some s1 else if i = 4 then Some s2 else None)"
| "subtree (Node3 s1 _ _ s2 _ _ s3) i =
    (if i = 1 then Some s1 else if i = 4 then Some s2 else if i = 7 then Some s3 else None)"
| "subtree (Node4 s1 _ _ s2 _ _ s3 _ _ s4) i =
    (if i = 1 then Some s1 else if i = 4 then Some s2 else if i = 7 then Some s3
     else if i = 10 then Some s4 else None)"

fun item :: "'k ist234 \<Rightarrow> nat \<Rightarrow> ('k \<times> word_t) option" where
  "item NULL_IST i = None"
| "item (Node2 _ k1 d1 _) i = (if i = 2 then Some (k1, d1) else None)"
| "item (Node3 _ k1 d1 _ k2 d2 _) i =
    (if i = 2 then Some (k1, d1) else if i = 5 then Some (k2, d2) else None)"
| "item (Node4 _ k1 d1 _ k2 d2 _ k3 d3 _) i =
    (if i = 2 then Some (k1, d1) else if i = 5 then Some (k2, d2) else if i = 8 then Some (k3, d3) else None)"

text \<open>A store to word \<open>i\<close> of a fresh copy of a node, where \<open>i\<close> is the index of one of its subtrees,
  and to the words \<open>i\<close> and \<open>i + 1\<close>, where \<open>i\<close> is the index of one of its keys.\<close>

fun set_subtree :: "'k ist234 \<Rightarrow> nat \<Rightarrow> 'k ist234 \<Rightarrow> 'k ist234" where
  "set_subtree NULL_IST i s = NULL_IST"
| "set_subtree (Node2 s1 k1 d1 s2) i s =
    Node2 (if i = 1 then s else s1) k1 d1 (if i = 4 then s else s2)"
| "set_subtree (Node3 s1 k1 d1 s2 k2 d2 s3) i s =
    Node3 (if i = 1 then s else s1) k1 d1 (if i = 4 then s else s2) k2 d2 (if i = 7 then s else s3)"
| "set_subtree (Node4 s1 k1 d1 s2 k2 d2 s3 k3 d3 s4) i s =
    Node4 (if i = 1 then s else s1) k1 d1 (if i = 4 then s else s2) k2 d2 (if i = 7 then s else s3) k3 d3
      (if i = 10 then s else s4)"

fun set_item :: "'k ist234 \<Rightarrow> nat \<Rightarrow> 'k \<times> word_t \<Rightarrow> 'k ist234" where
  "set_item NULL_IST i x = NULL_IST"
| "set_item (Node2 s1 k1 d1 s2) i x = (let (a1, b1) = if i = 2 then x else (k1, d1) in Node2 s1 a1 b1 s2)"
| "set_item (Node3 s1 k1 d1 s2 k2 d2 s3) i x =
    (let (a1, b1) = if i = 2 then x else (k1, d1); (a2, b2) = if i = 5 then x else (k2, d2)
     in Node3 s1 a1 b1 s2 a2 b2 s3)"
| "set_item (Node4 s1 k1 d1 s2 k2 d2 s3 k3 d3 s4) i x =
    (let (a1, b1) = if i = 2 then x else (k1, d1); (a2, b2) = if i = 5 then x else (k2, d2);
         (a3, b3) = if i = 8 then x else (k3, d3)
     in Node4 s1 a1 b1 s2 a2 b2 s3 a3 b3 s4)"

section \<open>Lookup\<close>

fun ist234_find :: "('k \<Rightarrow> 'k \<Rightarrow> cmp_result_t) \<Rightarrow> 'k ist234 \<Rightarrow> 'k \<Rightarrow> word_t" where
  "ist234_find cmp NULL_IST key = NULL_WORD"
| "ist234_find cmp (Node2 s1 k1 d1 s2) key =
    (let c1 = cmp key k1 in
     if c1 = CMP_ERROR then NULL_WORD
     else if c1 = CMP_EQUAL then d1
     else if c1 = CMP_LESS then ist234_find cmp s1 key
     else ist234_find cmp s2 key)"
| "ist234_find cmp (Node3 s1 k1 d1 s2 k2 d2 s3) key =
    (let c1 = cmp key k1; c2 = cmp key k2 in
     if c1 = CMP_ERROR then NULL_WORD
     else if c1 = CMP_EQUAL then d1
     else if c1 = CMP_LESS then ist234_find cmp s1 key
     else if c2 = CMP_ERROR then NULL_WORD
     else if c2 = CMP_EQUAL then d2
     else if c2 = CMP_LESS then ist234_find cmp s2 key
     else ist234_find cmp s3 key)"
| "ist234_find cmp (Node4 s1 k1 d1 s2 k2 d2 s3 k3 d3 s4) key =
    (let c1 = cmp key k1; c2 = cmp key k2; c3 = cmp key k3 in
     if c1 = CMP_ERROR then NULL_WORD
     else if c1 = CMP_EQUAL then d1
     else if c1 = CMP_LESS then ist234_find cmp s1 key
     else if c2 = CMP_ERROR then NULL_WORD
     else if c2 = CMP_EQUAL then d2
     else if c2 = CMP_LESS then ist234_find cmp s2 key
     else if c3 = CMP_ERROR then NULL_WORD
     else if c3 = CMP_EQUAL then d3
     else if c3 = CMP_LESS then ist234_find cmp s3 key
     else ist234_find cmp s4 key)"

text \<open>The loop goes down the leftmost subtrees and returns word 3 of the leaf.\<close>

fun ist234_find_min :: "'k ist234 \<Rightarrow> word_t" where
  "ist234_find_min NULL_IST = NULL_WORD"
| "ist234_find_min (Node2 s1 k1 d1 s2) = (if s1 = NULL_IST then d1 else ist234_find_min s1)"
| "ist234_find_min (Node3 s1 k1 d1 s2 k2 d2 s3) = (if s1 = NULL_IST then d1 else ist234_find_min s1)"
| "ist234_find_min (Node4 s1 k1 d1 s2 k2 d2 s3 k3 d3 s4) = (if s1 = NULL_IST then d1 else ist234_find_min s1)"

section \<open>Insertion\<close>

text \<open>
  The table \<^verbatim>\<open>path\<close>, its last entry first: a node and the index of the subtree taken.
  The loop ends with an error of the comparison, at a key that compares equal (the node and the
  index of the key), or below a leaf.
\<close>

type_synonym 'k ist_path = "('k ist234 \<times> nat) list"

datatype 'k insert_point =
    Comparison_error
  | Key_exists "'k ist234" nat "'k ist_path"
  | Key_missing "'k ist_path"

definition MAX_PATH :: nat where
  "MAX_PATH = 32"

fun insert_loop :: "('k \<Rightarrow> 'k \<Rightarrow> cmp_result_t) \<Rightarrow> 'k \<Rightarrow> 'k ist234 \<Rightarrow> 'k ist_path \<Rightarrow> 'k insert_point option" where
  "insert_loop cmp key NULL_IST path = Some (Key_missing path)"
| "insert_loop cmp key (Node2 s1 k1 d1 s2) path =
    (let p = Node2 s1 k1 d1 s2; c1 = cmp key k1 in
     if c1 = CMP_ERROR then Some Comparison_error
     else if c1 = CMP_EQUAL then Some (Key_exists p 2 path)
     else if length path \<ge> MAX_PATH then None
     else if c1 = CMP_LESS then insert_loop cmp key s1 ((p, 1) # path)
     else insert_loop cmp key s2 ((p, 4) # path))"
| "insert_loop cmp key (Node3 s1 k1 d1 s2 k2 d2 s3) path =
    (let p = Node3 s1 k1 d1 s2 k2 d2 s3; c1 = cmp key k1; c2 = cmp key k2 in
     if c1 = CMP_ERROR then Some Comparison_error
     else if c1 = CMP_EQUAL then Some (Key_exists p 2 path)
     else if c1 = CMP_LESS then
       (if length path \<ge> MAX_PATH then None else insert_loop cmp key s1 ((p, 1) # path))
     else if c2 = CMP_ERROR then Some Comparison_error
     else if c2 = CMP_EQUAL then Some (Key_exists p 5 path)
     else if length path \<ge> MAX_PATH then None
     else if c2 = CMP_LESS then insert_loop cmp key s2 ((p, 4) # path)
     else insert_loop cmp key s3 ((p, 7) # path))"
| "insert_loop cmp key (Node4 s1 k1 d1 s2 k2 d2 s3 k3 d3 s4) path =
    (let p = Node4 s1 k1 d1 s2 k2 d2 s3 k3 d3 s4; c1 = cmp key k1; c2 = cmp key k2; c3 = cmp key k3 in
     if c1 = CMP_ERROR then Some Comparison_error
     else if c1 = CMP_EQUAL then Some (Key_exists p 2 path)
     else if c1 = CMP_LESS then
       (if length path \<ge> MAX_PATH then None else insert_loop cmp key s1 ((p, 1) # path))
     else if c2 = CMP_ERROR then Some Comparison_error
     else if c2 = CMP_EQUAL then Some (Key_exists p 5 path)
     else if c2 = CMP_LESS then
       (if length path \<ge> MAX_PATH then None else insert_loop cmp key s2 ((p, 4) # path))
     else if c3 = CMP_ERROR then Some Comparison_error
     else if c3 = CMP_EQUAL then Some (Key_exists p 8 path)
     else if length path \<ge> MAX_PATH then None
     else if c3 = CMP_LESS then insert_loop cmp key s3 ((p, 7) # path)
     else insert_loop cmp key s4 ((p, 10) # path))"

text \<open>The update phase copies the nodes on the path, each with its new son.\<close>

fun update_phase :: "'k ist_path \<Rightarrow> 'k ist234 \<Rightarrow> nat \<Rightarrow> 'k ist234 \<times> nat" where
  "update_phase [] new_p ap = (new_p, ap)"
| "update_phase ((p, i) # path) new_p ap = update_phase path (set_subtree p i new_p) (ap + cell_size p)"

text \<open>
  The insert phase: \<open>key\<close> and \<open>data\<close> go to the node at the end of the path, with \<open>p_1\<close> and \<open>p_2\<close> to
  their left and right.  A node of type 4 is split and passes one of its keys on.
\<close>

fun insert_phase :: "'k ist_path \<Rightarrow> 'k ist234 \<Rightarrow> 'k \<Rightarrow> word_t \<Rightarrow> 'k ist234 \<Rightarrow> nat \<Rightarrow> ('k ist234 \<times> nat) option" where
  "insert_phase [] p_1 key data p_2 ap = Some (Node2 p_1 key data p_2, ap + 5)"
| "insert_phase ((NULL_IST, i) # path) p_1 key data p_2 ap = None"
| "insert_phase ((Node4 s1 k1 d1 s2 k2 d2 s3 k3 d3 s4, i) # path) p_1 key data p_2 ap =
    (if i = 1 then
       insert_phase path (Node3 p_1 key data p_2 k1 d1 s2) k2 d2 (Node2 s3 k3 d3 s4) (ap + 8 + 5)
     else if i = 4 then
       insert_phase path (Node3 s1 k1 d1 p_1 key data p_2) k2 d2 (Node2 s3 k3 d3 s4) (ap + 8 + 5)
     else if i = 7 then
       insert_phase path (Node3 s1 k1 d1 s2 k2 d2 p_1) key data (Node2 p_2 k3 d3 s4) (ap + 8 + 5)
     else if i = 10 then
       insert_phase path (Node3 s1 k1 d1 s2 k2 d2 s3) k3 d3 (Node2 p_1 key data p_2) (ap + 8 + 5)
     else None)"
| "insert_phase ((Node3 s1 k1 d1 s2 k2 d2 s3, i) # path) p_1 key data p_2 ap =
    (if i = 1 then Some (update_phase path (Node4 p_1 key data p_2 k1 d1 s2 k2 d2 s3) (ap + 11))
     else if i = 4 then Some (update_phase path (Node4 s1 k1 d1 p_1 key data p_2 k2 d2 s3) (ap + 11))
     else if i = 7 then Some (update_phase path (Node4 s1 k1 d1 s2 k2 d2 p_1 key data p_2) (ap + 11))
     else None)"
| "insert_phase ((Node2 s1 k1 d1 s2, i) # path) p_1 key data p_2 ap =
    (if i = 1 then Some (update_phase path (Node3 p_1 key data p_2 k1 d1 s2) (ap + 8))
     else if i = 4 then Some (update_phase path (Node3 s1 k1 d1 p_1 key data p_2) (ap + 8))
     else None)"

text \<open>
  An existing key: the new data is compared with the data of the first key when the key is the
  second one of its node (\<^verbatim>\<open>WORD_TO_PTR(p[3]) == data\<close> also where \<^verbatim>\<open>p[6]\<close> is replaced).
\<close>

definition compared_index :: "nat \<Rightarrow> nat" where
  "compared_index i = (if i = 5 then 2 else i)"

definition ist234_insert :: "('k \<Rightarrow> 'k \<Rightarrow> cmp_result_t) \<Rightarrow> (word_t \<Rightarrow> word_t \<Rightarrow> word_t) option \<Rightarrow>
    'k ist234 \<Rightarrow> 'k \<Rightarrow> word_t \<Rightarrow> nat \<Rightarrow> ('k ist234 \<times> nat) option" where
  "ist234_insert cmp update_fun root key data ap = do {
     point \<leftarrow> insert_loop cmp key root [];
     (case point of
        Comparison_error \<Rightarrow> Some (root, ap)
      | Key_exists p i path \<Rightarrow> do {
          (k, old) \<leftarrow> item p i;
          let data' = (case update_fun of None \<Rightarrow> data | Some f \<Rightarrow> f old data);
          (_, compared) \<leftarrow> item p (compared_index i);
          (if compared = data' then Some (root, ap)
           else Some (update_phase path (set_item p i (k, data')) (ap + cell_size p))) }
      | Key_missing path \<Rightarrow> insert_phase path NULL_IST key data NULL_IST ap) }"

section \<open>Items, balance and paths\<close>

fun ist_items :: "'k ist234 \<Rightarrow> ('k \<times> word_t) list" where
  "ist_items NULL_IST = []"
| "ist_items (Node2 s1 k1 d1 s2) = ist_items s1 @ (k1, d1) # ist_items s2"
| "ist_items (Node3 s1 k1 d1 s2 k2 d2 s3) = ist_items s1 @ (k1, d1) # ist_items s2 @ (k2, d2) # ist_items s3"
| "ist_items (Node4 s1 k1 d1 s2 k2 d2 s3 k3 d3 s4) =
    ist_items s1 @ (k1, d1) # ist_items s2 @ (k2, d2) # ist_items s3 @ (k3, d3) # ist_items s4"

text \<open>\<open>complete n p\<close>: every leaf of \<open>p\<close> is at depth \<open>n\<close>.\<close>

fun complete :: "nat \<Rightarrow> 'k ist234 \<Rightarrow> bool" where
  "complete n NULL_IST \<longleftrightarrow> n = 0"
| "complete n (Node2 s1 _ _ s2) \<longleftrightarrow> n > 0 \<and> complete (n - 1) s1 \<and> complete (n - 1) s2"
| "complete n (Node3 s1 _ _ s2 _ _ s3) \<longleftrightarrow>
    n > 0 \<and> complete (n - 1) s1 \<and> complete (n - 1) s2 \<and> complete (n - 1) s3"
| "complete n (Node4 s1 _ _ s2 _ _ s3 _ _ s4) \<longleftrightarrow>
    n > 0 \<and> complete (n - 1) s1 \<and> complete (n - 1) s2 \<and> complete (n - 1) s3 \<and> complete (n - 1) s4"

lemma complete_0 [simp]: "complete 0 p \<longleftrightarrow> p = NULL_IST"
  by (cases p) auto

lemma complete_null: "complete n p \<Longrightarrow> p = NULL_IST \<longleftrightarrow> n = 0"
  by (cases p) auto

lemma complete_size: "complete n p \<Longrightarrow> 2 ^ n - 1 \<le> length (ist_items p)"
proof (induction n p rule: complete.induct)
  case (2 n s1 k1 d1 s2)
  then show ?case by (cases n) auto
next
  case (3 n s1 k1 d1 s2 k2 d2 s3)
  then show ?case by (cases n) auto
next
  case (4 n s1 k1 d1 s2 k2 d2 s3 k3 d3 s4)
  then show ?case by (cases n) auto
qed simp

text \<open>The items of a node to the left and to the right of the subtree with index \<open>i\<close>, and whether
  the other subtrees of the node are complete.\<close>

fun left_of :: "'k ist234 \<Rightarrow> nat \<Rightarrow> ('k \<times> word_t) list" where
  "left_of NULL_IST i = []"
| "left_of (Node2 s1 k1 d1 s2) i = (if i = 1 then [] else ist_items s1 @ [(k1, d1)])"
| "left_of (Node3 s1 k1 d1 s2 k2 d2 s3) i =
    (if i = 1 then [] else if i = 4 then ist_items s1 @ [(k1, d1)]
     else ist_items s1 @ (k1, d1) # ist_items s2 @ [(k2, d2)])"
| "left_of (Node4 s1 k1 d1 s2 k2 d2 s3 k3 d3 s4) i =
    (if i = 1 then [] else if i = 4 then ist_items s1 @ [(k1, d1)]
     else if i = 7 then ist_items s1 @ (k1, d1) # ist_items s2 @ [(k2, d2)]
     else ist_items s1 @ (k1, d1) # ist_items s2 @ (k2, d2) # ist_items s3 @ [(k3, d3)])"

fun right_of :: "'k ist234 \<Rightarrow> nat \<Rightarrow> ('k \<times> word_t) list" where
  "right_of NULL_IST i = []"
| "right_of (Node2 s1 k1 d1 s2) i = (if i = 1 then (k1, d1) # ist_items s2 else [])"
| "right_of (Node3 s1 k1 d1 s2 k2 d2 s3) i =
    (if i = 1 then (k1, d1) # ist_items s2 @ (k2, d2) # ist_items s3
     else if i = 4 then (k2, d2) # ist_items s3 else [])"
| "right_of (Node4 s1 k1 d1 s2 k2 d2 s3 k3 d3 s4) i =
    (if i = 1 then (k1, d1) # ist_items s2 @ (k2, d2) # ist_items s3 @ (k3, d3) # ist_items s4
     else if i = 4 then (k2, d2) # ist_items s3 @ (k3, d3) # ist_items s4
     else if i = 7 then (k3, d3) # ist_items s4 else [])"

text \<open>\<open>frame n (p, i)\<close>: \<open>i\<close> is the index of a subtree of \<open>p\<close>, and the other subtrees have depth \<open>n\<close>.\<close>

fun frame :: "nat \<Rightarrow> 'k ist234 \<times> nat \<Rightarrow> bool" where
  "frame n (NULL_IST, i) \<longleftrightarrow> False"
| "frame n (Node2 s1 _ _ s2, i) \<longleftrightarrow> (i = 1 \<and> complete n s2) \<or> (i = 4 \<and> complete n s1)"
| "frame n (Node3 s1 _ _ s2 _ _ s3, i) \<longleftrightarrow> (i = 1 \<and> complete n s2 \<and> complete n s3) \<or>
    (i = 4 \<and> complete n s1 \<and> complete n s3) \<or> (i = 7 \<and> complete n s1 \<and> complete n s2)"
| "frame n (Node4 s1 _ _ s2 _ _ s3 _ _ s4, i) \<longleftrightarrow>
    (i = 1 \<and> complete n s2 \<and> complete n s3 \<and> complete n s4) \<or>
    (i = 4 \<and> complete n s1 \<and> complete n s3 \<and> complete n s4) \<or>
    (i = 7 \<and> complete n s1 \<and> complete n s2 \<and> complete n s4) \<or>
    (i = 10 \<and> complete n s1 \<and> complete n s2 \<and> complete n s3)"

fun path_complete :: "nat \<Rightarrow> 'k ist_path \<Rightarrow> bool" where
  "path_complete n [] \<longleftrightarrow> True"
| "path_complete n (e # path) \<longleftrightarrow> frame n e \<and> path_complete (Suc n) path"

fun items_left :: "'k ist_path \<Rightarrow> ('k \<times> word_t) list" where
  "items_left [] = []"
| "items_left ((p, i) # path) = items_left path @ left_of p i"

fun items_right :: "'k ist_path \<Rightarrow> ('k \<times> word_t) list" where
  "items_right [] = []"
| "items_right ((p, i) # path) = right_of p i @ items_right path"

text \<open>The tree whose path is \<open>path\<close>, with \<open>p\<close> at its end.\<close>

fun plug :: "'k ist234 \<Rightarrow> 'k ist_path \<Rightarrow> 'k ist234" where
  "plug p [] = p"
| "plug p ((q, i) # path) = plug (set_subtree q i p) path"

lemma subtree_items: "subtree p i = Some s \<Longrightarrow> ist_items p = left_of p i @ ist_items s @ right_of p i"
  by (cases p) (auto split: if_splits)

lemma subtree_frame: "subtree p i = Some s \<Longrightarrow> complete n p \<Longrightarrow> n > 0 \<and> complete (n - 1) s \<and> frame (n - 1) (p, i)"
  by (cases p) (auto split: if_splits)

lemma set_subtree_same: "subtree p i = Some s \<Longrightarrow> set_subtree p i s = p"
  by (cases p) (auto split: if_splits)

lemma set_subtree_frame:
  "frame n (p, i) \<Longrightarrow> ist_items (set_subtree p i s) = left_of p i @ ist_items s @ right_of p i \<and>
    (complete n s \<longrightarrow> complete (Suc n) (set_subtree p i s)) \<and> NODE_TYPE (set_subtree p i s) = NODE_TYPE p"
  by (cases p) auto

lemma plug_complete:
  "path_complete n path \<Longrightarrow> ist_items (plug p path) = items_left path @ ist_items p @ items_right path \<and>
    (complete n p \<longrightarrow> complete (n + length path) (plug p path))"
proof (induction path arbitrary: n p)
  case (Cons e path)
  obtain q i where e: "e = (q, i)" by fastforce
  show ?case
    using Cons.IH [of "Suc n" "set_subtree q i p"] Cons.prems set_subtree_frame [of n q i p] unfolding e by auto
qed simp

lemma plug_items: "path_complete n path \<Longrightarrow> ist_items (plug p path) = items_left path @ ist_items p @ items_right path"
  using plug_complete [of n path p] by simp

lemma complete_plug: "path_complete n path \<Longrightarrow> complete n p \<Longrightarrow> complete (n + length path) (plug p path)"
  using plug_complete [of n path p] by simp

lemma update_phase_plug: "update_phase path p ap = (plug p path, ap + sum_list (map (cell_size \<circ> fst) path))"
  by (induction path p ap rule: update_phase.induct) auto

lemma cell_size_le: "cell_size p \<le> 11"
  by (cases p) (auto simp: cell_size_def)

lemma path_cells: "sum_list (map (cell_size \<circ> fst) path) \<le> 11 * length path"
  by (induction path) (auto intro: order_trans [OF add_mono [OF cell_size_le]])

lemma insert_phase_ok:
  assumes "path_complete n path" and "complete n p_1" and "complete n p_2"
  shows "\<exists>t ap' m. insert_phase path p_1 key data p_2 ap = Some (t, ap') \<and> complete m t \<and>
    ist_items t = items_left path @ ist_items p_1 @ (key, data) # ist_items p_2 @ items_right path \<and>
    ap \<le> ap' \<and> ap' \<le> ap + 13 * length path + 5"
  using assms
proof (induction path p_1 key data p_2 ap arbitrary: n rule: insert_phase.induct)
  case (1 p_1 key data p_2 ap)
  then show ?case by (intro exI [of _ "Node2 p_1 key data p_2"] exI [of _ "ap + 5"] exI [of _ "Suc n"]) simp
next
  case (2 i path p_1 key data p_2 ap)
  then show ?case by simp
next
  case (3 s1 k1 d1 s2 k2 d2 s3 k3 d3 s4 i path p_1 key data p_2 ap)
  from 3(5) consider "i = 1" | "i = 4" | "i = 7" | "i = 10" by auto
  then show ?case
  proof cases
    case 1
    then show ?thesis using 3(1) [OF 1, of "Suc n"] 3(5-) by (auto 4 4)
  next
    case 2
    then show ?thesis using 3(2) [OF _ 2, of "Suc n"] 3(5-) by (auto 4 4)
  next
    case 3
    then show ?thesis using "3.IH"(3) [OF _ _ 3, of "Suc n"] "3.prems" by (auto 4 4)
  next
    case 4
    then show ?thesis using 3(4) [OF _ _ _ 4, of "Suc n"] 3(5-) by (auto 4 4)
  qed
next
  case (4 s1 k1 d1 s2 k2 d2 s3 i path p_1 key data p_2 ap)
  then show ?case using path_cells [of path]
    by (auto simp: update_phase_plug plug_items [where n = "Suc n"]
        intro!: exI [of _ "Suc n + length path"] complete_plug simp del: add_Suc)
next
  case (5 s1 k1 d1 s2 i path p_1 key data p_2 ap)
  then show ?case using path_cells [of path]
    by (auto simp: update_phase_plug plug_items [where n = "Suc n"]
        intro!: exI [of _ "Suc n + length path"] complete_plug simp del: add_Suc)
qed

section \<open>The loops down the tree\<close>

text \<open>
  In a tree whose items increase, a comparison with the items of a node tells on which side of
  the subtree that is taken every item of the tree is.
\<close>

lemma find_assoc:
  assumes cmp: "total_cmp cmp"
  shows "increasing cmp (ist_items p) \<Longrightarrow> ist234_find cmp p key = assoc cmp (ist_items p) key"
proof (induction p)
  case (Node2 s1 k1 d1 s2)
  have i: "increasing cmp (ist_items s1 @ (k1, d1) # ist_items s2)" using Node2.prems by simp
  show ?case
    using Node2 assoc_here [OF cmp i, of key] assoc_below [OF cmp i, of key] assoc_above [OF cmp i, of key]
      cmp_no_error [OF cmp]
    by (simp add: Let_def del: assoc_simps)
next
  case (Node3 s1 k1 d1 s2 k2 d2 s3)
  have i2: "increasing cmp (ist_items s2 @ (k2, d2) # ist_items s3)"
    and i: "increasing cmp (ist_items s1 @ (k1, d1) # ist_items s2 @ (k2, d2) # ist_items s3)"
    using Node3.prems by simp_all
  show ?case
    using Node3 assoc_here [OF cmp i, of key] assoc_below [OF cmp i, of key] assoc_above [OF cmp i, of key]
      assoc_here [OF cmp i2, of key] assoc_below [OF cmp i2, of key] assoc_above [OF cmp i2, of key]
      cmp_no_error [OF cmp]
    by (simp add: Let_def del: assoc_simps)
next
  case (Node4 s1 k1 d1 s2 k2 d2 s3 k3 d3 s4)
  have i3: "increasing cmp (ist_items s3 @ (k3, d3) # ist_items s4)"
    and i2: "increasing cmp (ist_items s2 @ (k2, d2) # ist_items s3 @ (k3, d3) # ist_items s4)"
    and i: "increasing cmp (ist_items s1 @ (k1, d1) # ist_items s2 @ (k2, d2) # ist_items s3 @ (k3, d3) # ist_items s4)"
    using Node4.prems by simp_all
  show ?case
    using Node4 assoc_here [OF cmp i, of key] assoc_below [OF cmp i, of key] assoc_above [OF cmp i, of key]
      assoc_here [OF cmp i2, of key] assoc_below [OF cmp i2, of key] assoc_above [OF cmp i2, of key]
      assoc_here [OF cmp i3, of key] assoc_below [OF cmp i3, of key] assoc_above [OF cmp i3, of key]
      cmp_no_error [OF cmp]
    by (simp add: Let_def del: assoc_simps)
qed simp

text \<open>
  \<open>descends cmp key root path p\<close>: the path from the root leads to \<open>p\<close>, and the items that the
  search left behind are on the right sides of the key.
\<close>

definition descends :: "('k \<Rightarrow> 'k \<Rightarrow> cmp_result_t) \<Rightarrow> 'k \<Rightarrow> nat \<Rightarrow> 'k ist_path \<Rightarrow> 'k ist234 \<Rightarrow> bool" where
  "descends cmp key n path p \<longleftrightarrow> complete n p \<and> path_complete n path \<and> increasing cmp (ist_items p) \<and>
    splits cmp key (items_left path) (items_right path)"

lemma descends_subtree:
  assumes "descends cmp key n path p" and "subtree p i = Some s"
    and "splits cmp key (left_of p i) (right_of p i)"
  shows "descends cmp key (n - 1) ((p, i) # path) s \<and> n > 0"
  using assms subtree_frame [OF assms(2)] subtree_items [OF assms(2)]
  by (auto simp: descends_def splits_def)

text \<open>
  The comparisons that \<^verbatim>\<open>ist234_delete\<close> makes at the label \<^verbatim>\<open>find\<close>: the index of the key that compares
  equal, or of the subtree to go to.
\<close>

datatype position = Key_at nat | Subtree nat | Compare_error

fun compare_keys :: "('k \<Rightarrow> 'k \<Rightarrow> cmp_result_t) \<Rightarrow> 'k \<Rightarrow> 'k ist234 \<Rightarrow> position option" where
  "compare_keys cmp key NULL_IST = None"
| "compare_keys cmp key (Node2 s1 k1 d1 s2) =
    (let c1 = cmp key k1 in
     Some (if c1 = CMP_EQUAL then Key_at 2 else if c1 = CMP_LESS then Subtree 1
       else if c1 = CMP_ERROR then Compare_error
       else Subtree 4))"
| "compare_keys cmp key (Node3 s1 k1 d1 s2 k2 d2 s3) =
    (let c1 = cmp key k1; c2 = cmp key k2 in
     Some (if c1 = CMP_EQUAL then Key_at 2 else if c1 = CMP_LESS then Subtree 1
       else if c1 = CMP_ERROR then Compare_error
       else if c2 = CMP_EQUAL then Key_at 5 else if c2 = CMP_LESS then Subtree 4
       else if c2 = CMP_ERROR then Compare_error
       else Subtree 7))"
| "compare_keys cmp key (Node4 s1 k1 d1 s2 k2 d2 s3 k3 d3 s4) =
    (let c1 = cmp key k1; c2 = cmp key k2; c3 = cmp key k3 in
     Some (if c1 = CMP_EQUAL then Key_at 2 else if c1 = CMP_LESS then Subtree 1
       else if c1 = CMP_ERROR then Compare_error
       else if c2 = CMP_EQUAL then Key_at 5 else if c2 = CMP_LESS then Subtree 4
       else if c2 = CMP_ERROR then Compare_error
       else if c3 = CMP_EQUAL then Key_at 8 else if c3 = CMP_ERROR then Compare_error
       else if c3 = CMP_LESS then Subtree 7 else Subtree 10))"

text \<open>\<open>position_ok\<close>: what a position means for the items of the node.\<close>

definition position_ok :: "('k \<Rightarrow> 'k \<Rightarrow> cmp_result_t) \<Rightarrow> 'k \<Rightarrow> 'k ist234 \<Rightarrow> position \<Rightarrow> bool" where
  "position_ok cmp key p pos \<longleftrightarrow> (case pos of
     Key_at i \<Rightarrow> \<exists>k d. item p i = Some (k, d) \<and> cmp key k = CMP_EQUAL
   | Subtree i \<Rightarrow> \<exists>s. subtree p i = Some s \<and> splits cmp key (left_of p i) (right_of p i)
   | Compare_error \<Rightarrow> False)"

lemma compare_keys_ok:
  assumes cmp: "total_cmp cmp"
  shows "p \<noteq> NULL_IST \<Longrightarrow> increasing cmp (ist_items p) \<Longrightarrow>
    \<exists>pos. compare_keys cmp key p = Some pos \<and> position_ok cmp key p pos"
proof (cases p)
  case (Node2 s1 k1 d1 s2)
  assume "increasing cmp (ist_items p)"
  then have i: "increasing cmp (ist_items s1 @ (k1, d1) # ist_items s2)" using Node2 by simp
  show ?thesis
    using splits_below [OF cmp i, of key] splits_above [OF cmp i, of key] cmp_no_error [OF cmp] unfolding Node2
    by (auto simp: position_ok_def Let_def)
next
  case (Node3 s1 k1 d1 s2 k2 d2 s3)
  assume "increasing cmp (ist_items p)"
  then have i: "increasing cmp (ist_items s1 @ (k1, d1) # ist_items s2 @ (k2, d2) # ist_items s3)"
    and i2: "increasing cmp ((ist_items s1 @ (k1, d1) # ist_items s2) @ (k2, d2) # ist_items s3)"
    using Node3 by simp_all
  show ?thesis
    using splits_below [OF cmp i, of key] splits_above [OF cmp i, of key]
      splits_below [OF cmp i2, of key] splits_above [OF cmp i2, of key] cmp_no_error [OF cmp] unfolding Node3
    by (auto simp: position_ok_def Let_def splits_simps intro: splits_join)
next
  case (Node4 s1 k1 d1 s2 k2 d2 s3 k3 d3 s4)
  assume "increasing cmp (ist_items p)"
  then have i: "increasing cmp (ist_items s1 @ (k1, d1) # ist_items s2 @ (k2, d2) # ist_items s3 @ (k3, d3) # ist_items s4)"
    and i2: "increasing cmp ((ist_items s1 @ (k1, d1) # ist_items s2) @ (k2, d2) # ist_items s3 @ (k3, d3) # ist_items s4)"
    and i3: "increasing cmp ((ist_items s1 @ (k1, d1) # ist_items s2 @ (k2, d2) # ist_items s3) @ (k3, d3) # ist_items s4)"
    using Node4 by simp_all
  show ?thesis
    using splits_below [OF cmp i, of key] splits_above [OF cmp i, of key]
      splits_below [OF cmp i2, of key] splits_above [OF cmp i2, of key]
      splits_below [OF cmp i3, of key] splits_above [OF cmp i3, of key] cmp_no_error [OF cmp] unfolding Node4
    by (auto simp: position_ok_def Let_def splits_simps intro: splits_join)
qed simp

lemma insert_loop_step:
  assumes "compare_keys cmp key p = Some pos"
  shows "insert_loop cmp key p path = (case pos of Compare_error \<Rightarrow> Some Comparison_error
    | Key_at i \<Rightarrow> Some (Key_exists p i path)
    | Subtree i \<Rightarrow> (if length path \<ge> MAX_PATH then None else
        (case subtree p i of None \<Rightarrow> None | Some s \<Rightarrow> insert_loop cmp key s ((p, i) # path))))"
  using assms by (cases p) (auto simp: Let_def)

fun point_ok :: "('k \<Rightarrow> 'k \<Rightarrow> cmp_result_t) \<Rightarrow> 'k \<Rightarrow> nat \<Rightarrow> 'k ist234 \<Rightarrow> 'k insert_point \<Rightarrow> bool" where
  "point_ok cmp key h root Comparison_error \<longleftrightarrow> False"
| "point_ok cmp key h root (Key_exists p i path) \<longleftrightarrow>
    (\<exists>n k d. descends cmp key n path p \<and> item p i = Some (k, d) \<and> cmp key k = CMP_EQUAL \<and> plug p path = root \<and>
      n > 0 \<and> n + length path = h)"
| "point_ok cmp key h root (Key_missing path) \<longleftrightarrow>
    descends cmp key 0 path NULL_IST \<and> plug NULL_IST path = root \<and> length path = h"

lemma insert_loop_ok:
  assumes cmp: "total_cmp cmp" and "descends cmp key n path p" and "n + length path = h" and "h \<le> MAX_PATH"
  shows "\<exists>pt. insert_loop cmp key p path = Some pt \<and> point_ok cmp key h (plug p path) pt"
  using assms(2,3)
proof (induction n arbitrary: p path)
  case 0
  then have "p = NULL_IST" by (simp add: descends_def)
  then show ?case using 0 by simp
next
  case (Suc n)
  have p: "p \<noteq> NULL_IST" "increasing cmp (ist_items p)"
    using Suc.prems(1) complete_null [of "Suc n" p] by (auto simp: descends_def)
  obtain pos where pos: "compare_keys cmp key p = Some pos" "position_ok cmp key p pos"
    using compare_keys_ok [OF cmp p] by blast
  show ?case
  proof (cases pos)
    case (Key_at i)
    then show ?thesis using pos Suc.prems insert_loop_step [OF pos(1)] by (auto simp: position_ok_def)
  next
    case (Subtree i)
    then obtain s where s: "subtree p i = Some s" "splits cmp key (left_of p i) (right_of p i)"
      using pos(2) by (auto simp: position_ok_def)
    have "descends cmp key n ((p, i) # path) s" using descends_subtree [OF Suc.prems(1) s] by simp
    moreover have "plug s ((p, i) # path) = plug p path" using set_subtree_same [OF s(1)] by simp
    ultimately show ?thesis
      using Suc.IH [of "(p, i) # path" s] Suc.prems(2) assms(4) insert_loop_step [OF pos(1)] s(1) Subtree by auto
  next
    case Compare_error
    then show ?thesis using pos by (simp add: position_ok_def)
  qed
qed

section \<open>Insertion preserves the tree and adds the key\<close>

lemma item_items:
  assumes "item p i = Some (k, d)" and "complete n p"
  shows "\<exists>B A. ist_items p = B @ (k, d) # A \<and> (\<forall>d'. ist_items (set_item p i (k, d')) = B @ (k, d') # A \<and>
    complete n (set_item p i (k, d')))"
proof (cases p)
  case (Node2 s1 k1 d1 s2)
  then show ?thesis using assms by (auto split: if_splits)
next
  case (Node3 s1 k1 d1 s2 k2 d2 s3)
  consider "i = 2" | "i = 5" using assms Node3 by (auto split: if_splits)
  then show ?thesis
  proof cases
    case 1
    then show ?thesis using assms Node3 by (intro exI [of _ "ist_items s1"] exI) auto
  next
    case 2
    then show ?thesis using assms Node3 by (intro exI [of _ "ist_items s1 @ (k1, d1) # ist_items s2"] exI) auto
  qed
next
  case (Node4 s1 k1 d1 s2 k2 d2 s3 k3 d3 s4)
  consider "i = 2" | "i = 5" | "i = 8" using assms Node4 by (auto split: if_splits)
  then show ?thesis
  proof cases
    case 1
    then show ?thesis using assms Node4 by (intro exI [of _ "ist_items s1"] exI) auto
  next
    case 2
    then show ?thesis using assms Node4 by (intro exI [of _ "ist_items s1 @ (k1, d1) # ist_items s2"] exI) auto
  next
    case 3
    then show ?thesis using assms Node4
      by (intro exI [of _ "ist_items s1 @ (k1, d1) # ist_items s2 @ (k2, d2) # ist_items s3"] exI) auto
  qed
qed (use assms in simp)

lemma item_compared:
  "item p i = Some (k, d) \<Longrightarrow> \<exists>k' d'. item p (compared_index i) = Some (k', d') \<and>
    (k', d') \<in> set (ist_items p) \<and> (i \<noteq> 5 \<longrightarrow> d' = d)"
  by (cases p) (auto simp: compared_index_def split: if_splits)

definition ist_valid :: "('k \<Rightarrow> 'k \<Rightarrow> cmp_result_t) \<Rightarrow> 'k ist234 \<Rightarrow> bool" where
  "ist_valid cmp t \<longleftrightarrow> (\<exists>n. complete n t) \<and> increasing cmp (ist_items t)"

abbreviation ist_data :: "'k ist234 \<Rightarrow> word_t set" where
  "ist_data t \<equiv> snd ` set (ist_items t)"

text \<open>The items after an insertion: a new item, a replaced item, or no change because the new data
  was compared with the data of a key of the tree.\<close>

definition inserted :: "('k \<Rightarrow> 'k \<Rightarrow> cmp_result_t) \<Rightarrow> (word_t \<Rightarrow> word_t \<Rightarrow> word_t) option \<Rightarrow> 'k \<Rightarrow> word_t \<Rightarrow>
    'k ist234 \<Rightarrow> 'k ist234 \<Rightarrow> bool" where
  "inserted cmp f key data root t \<longleftrightarrow>
    (\<exists>B A. ist_items root = B @ A \<and> splits cmp key B A \<and> ist_items t = B @ (key, data) # A) \<or>
    (\<exists>B k old A. ist_items root = B @ (k, old) # A \<and> cmp key k = CMP_EQUAL \<and>
      (ist_items t = B @ (k, updated f old data) # A \<or> t = root \<and> updated f old data \<in> ist_data root))"

lemma ist234_insert_ok:
  assumes cmp: "total_cmp cmp" and t: "complete h root" "increasing cmp (ist_items root)" and h: "h \<le> MAX_PATH"
  shows "\<exists>t ap'. ist234_insert cmp f root key data ap = Some (t, ap') \<and> ist_valid cmp t \<and>
    inserted cmp f key data root t \<and> ap \<le> ap' \<and> ap' \<le> ap + 13 * h + 5"
proof -
  have "descends cmp key h [] root" using t by (simp add: descends_def splits_def)
  then obtain pt where pt: "insert_loop cmp key root [] = Some pt" "point_ok cmp key h root pt"
    using insert_loop_ok [OF cmp, of key h "[]" root h] h by auto
  show ?thesis
  proof (cases pt)
    case Comparison_error
    then show ?thesis using pt by simp
  next
    case (Key_missing path)
    then have d: "path_complete 0 path" "splits cmp key (items_left path) (items_right path)"
        "length path = h" "plug NULL_IST path = root"
      using pt(2) by (auto simp: descends_def)
    have root: "ist_items root = items_left path @ items_right path"
      using plug_items [OF d(1), of NULL_IST] d(4) by simp
    obtain t ap' m where "insert_phase path NULL_IST key data NULL_IST ap = Some (t, ap')" "complete m t"
        "ist_items t = items_left path @ (key, data) # items_right path" "ap \<le> ap'" "ap' \<le> ap + 13 * h + 5"
      using insert_phase_ok [OF d(1), of NULL_IST NULL_IST key data ap] d(3) by auto
    then show ?thesis using pt(1) Key_missing d(2) root t(2) increasing_insert [OF d(2)]
      by (auto simp: ist234_insert_def ist_valid_def inserted_def)
  next
    case (Key_exists p i path)
    then obtain n k old where d: "descends cmp key n path p" "item p i = Some (k, old)" "cmp key k = CMP_EQUAL"
        "plug p path = root" "n + length path = h" "n > 0"
      using pt(2) by auto
    obtain k' d' where c: "item p (compared_index i) = Some (k', d')" "(k', d') \<in> set (ist_items p)"
      using item_compared [OF d(2)] by blast
    have p: "complete n p" "path_complete n path" using d(1) by (simp_all add: descends_def)
    obtain B A where BA: "ist_items p = B @ (k, old) # A"
        "\<And>d'. ist_items (set_item p i (k, d')) = B @ (k, d') # A" "\<And>d'. complete n (set_item p i (k, d'))"
      using item_items [OF d(2) p(1)] by blast
    have root: "ist_items root = (items_left path @ B) @ (k, old) # (A @ items_right path)"
      using plug_items [OF p(2), of p] d(4) BA(1) by simp
    let ?new = "updated f old data"
    show ?thesis
    proof (cases "d' = ?new")
      case True
      have "?new \<in> ist_data root"
        using c(2) True plug_items [OF p(2), of p] d(4) by force
      then have "inserted cmp f key data root root"
        unfolding inserted_def using root d(3) by blast
      moreover have "ist234_insert cmp f root key data ap = Some (root, ap)"
        using pt(1) Key_exists d(2) c(1) True by (simp add: ist234_insert_def updated_def)
      ultimately show ?thesis using t by (auto simp: ist_valid_def)
    next
      case False
      let ?t = "plug (set_item p i (k, ?new)) path"
      have "ist234_insert cmp f root key data ap =
          Some (?t, ap + cell_size p + sum_list (map (cell_size \<circ> fst) path))"
        using pt(1) Key_exists d(2) c(1) False
        by (simp add: ist234_insert_def updated_def update_phase_plug del: plug.simps)
      moreover have "complete h ?t" using complete_plug [OF p(2) BA(3)] d(5) by simp
      moreover have items: "ist_items ?t = (items_left path @ B) @ (k, ?new) # (A @ items_right path)"
        using plug_items [OF p(2)] BA(2) by simp
      moreover have "increasing cmp (ist_items ?t)"
        unfolding items using t(2) unfolding root by simp
      moreover have "inserted cmp f key data root ?t"
        unfolding inserted_def using root d(3) items by blast
      moreover have "cell_size p + sum_list (map (cell_size \<circ> fst) path) \<le> 13 * h + 5"
        using cell_size_le [of p] path_cells [of path] d(5,6) by linarith
      ultimately show ?thesis by (auto simp: ist_valid_def)
    qed
  qed
qed

end
