(* ===== verification/Ist234_Delete.thy ===== *)
theory Ist234_Delete
  imports Ist234
begin

text \<open>
  Deletion from the 2-3-4 internal search tree of \<^verbatim>\<open>ist234.c\<close>.  The code goes down the tree once.
  It copies the nodes that it passes and turns every node of type 2 that it enters into one of
  type 3 or 4, and it stores each new node through \<^verbatim>\<open>pp\<close> into the copy above it.  Those copies are
  the \<open>path\<close> of the model, the last one first; \<open>plug\<close> is the tree that the stores leave behind.
  \<open>copied\<close> is the negation of \<^verbatim>\<open>is_not_copied_yet\<close>, and \<^verbatim>\<open>new_root\<close> is \<^verbatim>\<open>NULL_PTR\<close> as long as the
  path is empty and the node at hand is not a copy.
\<close>

section \<open>Restructuring a node\<close>

text \<open>The node without the key with index \<open>i\<close>, and with \<open>s\<close> instead of the two subtrees around it.\<close>

fun remove_item :: "'k ist234 \<Rightarrow> nat \<Rightarrow> 'k ist234 \<Rightarrow> 'k ist234 option" where
  "remove_item (Node4 s1 k1 d1 s2 k2 d2 s3 k3 d3 s4) i s =
    (if i = 2 then Some (Node3 s k2 d2 s3 k3 d3 s4)
     else if i = 5 then Some (Node3 s1 k1 d1 s k3 d3 s4)
     else if i = 8 then Some (Node3 s1 k1 d1 s2 k2 d2 s)
     else None)"
| "remove_item (Node3 s1 k1 d1 s2 k2 d2 s3) i s =
    (if i = 2 then Some (Node2 s k2 d2 s3)
     else if i = 5 then Some (Node2 s1 k1 d1 s)
     else None)"
| "remove_item _ i s = None"

text \<open>The node with a new key and data at index \<open>i\<close> and new subtrees around it.\<close>

definition replace_item :: "'k ist234 \<Rightarrow> nat \<Rightarrow> 'k ist234 \<Rightarrow> 'k \<times> word_t \<Rightarrow> 'k ist234 \<Rightarrow> 'k ist234" where
  "replace_item p i l x r = set_subtree (set_subtree (set_item p i x) (i - 1) l) (i + 2) r"

text \<open>
  \<^verbatim>\<open>copy_and_transform\<close> for the subtree with index 1 and for the other ones.  The result is the new
  node, the new values of \<^verbatim>\<open>*ix\<close>, \<^verbatim>\<open>*i_of_key\<close> and \<^verbatim>\<open>*n_of_copied_levels\<close>, and the allocation point.
\<close>

definition transform_first :: "'k ist234 \<Rightarrow> nat \<Rightarrow> ('k ist234 \<times> nat \<times> nat \<times> nat \<times> nat) option" where
  "transform_first node ap = do {
     p \<leftarrow> subtree node 1;
     brother \<leftarrow> subtree node 4;
     (k, d) \<leftarrow> item node 2;
     (case p of
        Node2 p1 p2 p3 p4 \<Rightarrow>
          (case brother of
             NULL_IST \<Rightarrow> None
           | Node2 b1 b2 b3 b4 \<Rightarrow>
               (let new_p = Node4 p1 p2 p3 p4 k d b1 b2 b3 b4 in
                if NODE_TYPE node = 2 then Some (new_p, 1, 2, 1, ap + 11)
                else do {
                  new_node \<leftarrow> remove_item node 2 new_p;
                  Some (new_node, 1, 2, 2, ap + 11 + (3 * NODE_TYPE node - 4)) })
           | Node3 b1 b2 b3 b4 b5 b6 b7 \<Rightarrow>
               Some (replace_item node 2 (Node3 p1 p2 p3 p4 k d b1) (b2, b3) (Node2 b4 b5 b6 b7),
                 1, 2, 2, ap + 8 + (3 * 3 - 4) + cell_size node)
           | Node4 b1 b2 b3 b4 b5 b6 b7 b8 b9 b10 \<Rightarrow>
               Some (replace_item node 2 (Node3 p1 p2 p3 p4 k d b1) (b2, b3) (Node3 b4 b5 b6 b7 b8 b9 b10),
                 1, 2, 2, ap + 8 + (3 * 4 - 4) + cell_size node))
      | _ \<Rightarrow> None) }"

definition transform_other :: "'k ist234 \<Rightarrow> nat \<Rightarrow> nat \<Rightarrow> ('k ist234 \<times> nat \<times> nat \<times> nat \<times> nat) option" where
  "transform_other node ix ap = do {
     p \<leftarrow> subtree node ix;
     brother \<leftarrow> subtree node (ix - 3);
     (k, d) \<leftarrow> item node (ix - 2);
     (case p of
        Node2 p1 p2 p3 p4 \<Rightarrow>
          (case brother of
             NULL_IST \<Rightarrow> None
           | Node2 b1 b2 b3 b4 \<Rightarrow>
               (let new_p = Node4 b1 b2 b3 b4 k d p1 p2 p3 p4 in
                if NODE_TYPE node = 2 then Some (new_p, ix, 8, 1, ap + 11)
                else do {
                  new_node \<leftarrow> remove_item node (ix - 2) new_p;
                  Some (new_node, ix - 3, 8, 2, ap + 11 + (3 * NODE_TYPE node - 4)) })
           | Node3 b1 b2 b3 b4 b5 b6 b7 \<Rightarrow>
               Some (replace_item node (ix - 2) (Node2 b1 b2 b3 b4) (b5, b6) (Node3 b7 k d p1 p2 p3 p4),
                 ix, 5, 2, ap + (3 * 3 - 4) + 8 + cell_size node)
           | Node4 b1 b2 b3 b4 b5 b6 b7 b8 b9 b10 \<Rightarrow>
               Some (replace_item node (ix - 2) (Node3 b1 b2 b3 b4 b5 b6 b7) (b8, b9) (Node3 b10 k d p1 p2 p3 p4),
                 ix, 5, 2, ap + (3 * 4 - 4) + 8 + cell_size node))
      | _ \<Rightarrow> None) }"

definition copy_and_transform :: "'k ist234 \<Rightarrow> nat \<Rightarrow> nat \<Rightarrow> ('k ist234 \<times> nat \<times> nat \<times> nat \<times> nat) option" where
  "copy_and_transform node ix ap = (if ix = 1 then transform_first node ap else transform_other node ix ap)"

text \<open>The height of a tree is the measure of the loops.\<close>

fun ist_height :: "'k ist234 \<Rightarrow> nat" where
  "ist_height NULL_IST = 0"
| "ist_height (Node2 s1 _ _ s2) = Suc (max (ist_height s1) (ist_height s2))"
| "ist_height (Node3 s1 _ _ s2 _ _ s3) = Suc (max (ist_height s1) (max (ist_height s2) (ist_height s3)))"
| "ist_height (Node4 s1 _ _ s2 _ _ s3 _ _ s4) =
    Suc (max (max (ist_height s1) (ist_height s2)) (max (ist_height s3) (ist_height s4)))"

lemma subtree_height: "subtree p i = Some s \<Longrightarrow> ist_height s < ist_height p"
  by (cases p) (auto split: if_splits)

text \<open>A key of a node with its two neighbours, and the two ways to change them.\<close>

lemma item_index: "item p i = Some x \<Longrightarrow> i = 2 \<or> i = 5 \<or> i = 8"
  by (cases p) (auto split: if_splits)

lemma subtree_item: "subtree p i = Some s \<Longrightarrow> i = 1 \<or> (i > 3 \<and> (\<exists>x. item p (i - 2) = Some x))"
  by (cases p) (auto split: if_splits)

lemma item_between:
  "item p i = Some x \<Longrightarrow> \<exists>l r. subtree p (i - 1) = Some l \<and> subtree p (i + 2) = Some r \<and>
    left_of p (i + 2) = left_of p (i - 1) @ ist_items l @ [x] \<and>
    right_of p (i - 1) = x # ist_items r @ right_of p (i + 2)"
  by (cases p) (auto split: if_splits)

lemma remove_item_ok:
  assumes "remove_item p i s = Some t"
  shows "subtree t (i - 1) = Some s" and "left_of t (i - 1) = left_of p (i - 1)"
    and "right_of t (i - 1) = right_of p (i + 2)" and "NODE_TYPE t = NODE_TYPE p - 1"
    and "complete n p \<Longrightarrow> frame (n - 1) (t, i - 1)"
  using assms by (cases p; auto split: if_splits)+

lemma remove_item_exists: "item p i = Some x \<Longrightarrow> NODE_TYPE p > 2 \<Longrightarrow> \<exists>t. remove_item p i s = Some t"
  by (cases p) (auto split: if_splits)

lemma replace_item_ok:
  assumes "item p i = Some y"
  shows "subtree (replace_item p i l x r) (i - 1) = Some l" and "subtree (replace_item p i l x r) (i + 2) = Some r"
    and "left_of (replace_item p i l x r) (i - 1) = left_of p (i - 1)"
    and "right_of (replace_item p i l x r) (i - 1) = x # ist_items r @ right_of p (i + 2)"
    and "left_of (replace_item p i l x r) (i + 2) = left_of p (i - 1) @ ist_items l @ [x]"
    and "right_of (replace_item p i l x r) (i + 2) = right_of p (i + 2)"
    and "NODE_TYPE (replace_item p i l x r) = NODE_TYPE p"
    and "complete n p \<Longrightarrow> complete (n - 1) l \<Longrightarrow> complete (n - 1) r \<Longrightarrow> complete n (replace_item p i l x r)"
  using assms by (cases p; cases x; auto simp: replace_item_def split: if_splits)+

text \<open>The node that is entered after the transformation is lower than the node.\<close>

lemma transform_first_height:
  assumes "transform_first node ap = Some (t, ix', i, levels, ap')"
  shows "levels = 1 \<Longrightarrow> ist_height t < ist_height node"
    and "levels \<noteq> 1 \<Longrightarrow> subtree t ix' = Some q \<Longrightarrow> ist_height q < ist_height node"
proof -
  obtain p brother k d where pb: "subtree node 1 = Some p" "subtree node 4 = Some brother" "item node 2 = Some (k, d)"
    using assms by (auto simp: transform_first_def bind_eq_Some)
  note h = subtree_height [OF pb(1)] subtree_height [OF pb(2)]
  note pb(3) [THEN replace_item_ok(1)]
  then have "(levels = 1 \<longrightarrow> ist_height t < ist_height node) \<and>
      (levels \<noteq> 1 \<longrightarrow> subtree t ix' = Some q \<longrightarrow> ist_height q < ist_height node)"
    using assms pb h remove_item_ok(1) [of node 2]
    by (cases p; cases brother) (fastforce simp: transform_first_def bind_eq_Some Let_def split: if_splits)+
  then show "levels = 1 \<Longrightarrow> ist_height t < ist_height node"
    and "levels \<noteq> 1 \<Longrightarrow> subtree t ix' = Some q \<Longrightarrow> ist_height q < ist_height node" by blast+
qed

lemma transform_other_height:
  assumes "transform_other node ix ap = Some (t, ix', i, levels, ap')"
  shows "levels = 1 \<Longrightarrow> ist_height t < ist_height node"
    and "levels \<noteq> 1 \<Longrightarrow> subtree t ix' = Some q \<Longrightarrow> ist_height q < ist_height node"
proof -
  obtain p brother k d where pb: "subtree node ix = Some p" "subtree node (ix - 3) = Some brother"
      "item node (ix - 2) = Some (k, d)"
    using assms by (auto simp: transform_other_def bind_eq_Some)
  note h = subtree_height [OF pb(1)] subtree_height [OF pb(2)]
  have ix: "ix - 2 + 2 = ix" "ix - 2 - 1 = ix - 3" using item_index [OF pb(3)] by auto
  note rep = replace_item_ok(2) [OF pb(3), unfolded ix]
  note rem = remove_item_ok(1) [of node "ix - 2", unfolded ix]
  have "(levels = 1 \<longrightarrow> ist_height t < ist_height node) \<and>
      (levels \<noteq> 1 \<longrightarrow> subtree t ix' = Some q \<longrightarrow> ist_height q < ist_height node)"
    using assms pb h rep rem
    by (cases p; cases brother) (fastforce simp: transform_other_def bind_eq_Some Let_def split: if_splits)+
  then show "levels = 1 \<Longrightarrow> ist_height t < ist_height node"
    and "levels \<noteq> 1 \<Longrightarrow> subtree t ix' = Some q \<Longrightarrow> ist_height q < ist_height node" by blast+
qed

lemma transform_height:
  assumes "copy_and_transform node ix ap = Some (t, ix', i, levels, ap')"
  shows "levels = 1 \<Longrightarrow> ist_height t < ist_height node"
    and "levels \<noteq> 1 \<Longrightarrow> subtree t ix' = Some q \<Longrightarrow> ist_height q < ist_height node"
  using assms transform_first_height transform_other_height
  by (auto simp: copy_and_transform_def split: if_splits)

section \<open>The search\<close>

text \<open>After a transformation only the key that came with the node is compared.\<close>

definition compare_key :: "('k \<Rightarrow> 'k \<Rightarrow> cmp_result_t) \<Rightarrow> 'k \<Rightarrow> 'k ist234 \<Rightarrow> nat \<Rightarrow> position option" where
  "compare_key cmp key p i = do {
     (k, d) \<leftarrow> item p i;
     let c = cmp key k;
     Some (if c = CMP_EQUAL then Key_at i else if c = CMP_ERROR then Compare_error
       else if c = CMP_LESS then Subtree (i - 1) else Subtree (i + 2)) }"

text \<open>The search ends with the original root or at the label \<^verbatim>\<open>delete_key\<close>.\<close>

datatype 'k delete_point =
    Root_unchanged
  | Delete_key "'k ist234" nat bool "'k ist_path" nat

function delete_loop :: "('k \<Rightarrow> 'k \<Rightarrow> cmp_result_t) \<Rightarrow> 'k \<Rightarrow> 'k ist234 \<Rightarrow> position \<Rightarrow> bool \<Rightarrow> 'k ist_path \<Rightarrow> nat \<Rightarrow>
    'k delete_point option" where
  "delete_loop cmp key p pos copied path ap =
    (case pos of
       Compare_error \<Rightarrow> Some Root_unchanged
     | Key_at i \<Rightarrow> Some (Delete_key p i copied path ap)
     | Subtree ix \<Rightarrow> do {
         s \<leftarrow> subtree p ix;
         (if s = NULL_IST then Some Root_unchanged
          else if NODE_TYPE s > 2 then do {
            pos' \<leftarrow> compare_keys cmp key s;
            delete_loop cmp key s pos' False ((p, ix) # path) (if copied then ap else ap + cell_size p) }
          else do {
            (new_p, ix', i, levels, ap') \<leftarrow> copy_and_transform p ix ap;
            (if levels = 1 then do {
               pos' \<leftarrow> compare_key cmp key new_p i;
               delete_loop cmp key new_p pos' True path ap' }
             else do {
               q \<leftarrow> subtree new_p ix';
               pos' \<leftarrow> compare_key cmp key q i;
               delete_loop cmp key q pos' True ((new_p, ix') # path) ap' }) }) })"
  by pat_completeness auto

termination
  by (relation "measure (\<lambda>(cmp, key, p, pos, copied, path, ap). ist_height p)")
    (auto simp: subtree_height transform_height)

declare delete_loop.simps [simp del]

section \<open>Removing the key\<close>

text \<open>The label \<^verbatim>\<open>delete_leaf\<close>: the leaf without the key, or \<^verbatim>\<open>NULL_PTR\<close> when it is the root and holds no
  other key.  \<open>no_new_root\<close> tells that \<^verbatim>\<open>new_root\<close> is \<^verbatim>\<open>NULL_PTR\<close>.\<close>

fun delete_leaf :: "'k ist234 \<Rightarrow> nat \<Rightarrow> bool \<Rightarrow> nat \<Rightarrow> ('k ist234 \<times> nat) option" where
  "delete_leaf NULL_IST i no_new_root ap = None"
| "delete_leaf (Node4 s1 k1 d1 s2 k2 d2 s3 k3 d3 s4) i no_new_root ap =
    (if s1 \<noteq> NULL_IST \<or> s2 \<noteq> NULL_IST \<or> s3 \<noteq> NULL_IST then None
     else if i = 2 then Some (Node3 NULL_IST k2 d2 NULL_IST k3 d3 NULL_IST, ap + 8)
     else if i = 5 then Some (Node3 NULL_IST k1 d1 NULL_IST k3 d3 NULL_IST, ap + 8)
     else if i = 8 then Some (Node3 NULL_IST k1 d1 NULL_IST k2 d2 NULL_IST, ap + 8)
     else None)"
| "delete_leaf (Node3 s1 k1 d1 s2 k2 d2 s3) i no_new_root ap =
    (if s1 \<noteq> NULL_IST \<or> s2 \<noteq> NULL_IST then None
     else if i = 2 then Some (Node2 NULL_IST k2 d2 NULL_IST, ap + 5)
     else if i = 5 then Some (Node2 NULL_IST k1 d1 NULL_IST, ap + 5)
     else None)"
| "delete_leaf (Node2 s1 k1 d1 s2) i no_new_root ap = (if no_new_root then Some (NULL_IST, ap) else None)"

text \<open>The way down to the leaf with the next larger key.\<close>

function successor_loop :: "'k ist234 \<Rightarrow> bool \<Rightarrow> 'k ist_path \<Rightarrow> nat \<Rightarrow> ('k ist234 \<times> 'k ist_path \<times> nat) option" where
  "successor_loop p copied path ap = do {
     s \<leftarrow> subtree p 1;
     (if s = NULL_IST then Some (p, path, ap)
      else if NODE_TYPE s > 2 then
        successor_loop s False ((p, 1) # path) (if copied then ap else ap + cell_size p)
      else do {
        (new_p, ix, i, levels, ap') \<leftarrow> copy_and_transform p 1 ap;
        (if ix \<noteq> 1 \<or> levels \<noteq> 2 then None
         else do {
           q \<leftarrow> subtree new_p ix;
           successor_loop q True ((new_p, ix) # path) ap' }) }) }"
  by pat_completeness auto

termination
  by (relation "measure (\<lambda>(p, copied, path, ap). ist_height p)") (auto simp: subtree_height transform_height)

declare successor_loop.simps [simp del]

text \<open>The way down to the leaf with the next smaller key.\<close>

function predecessor_loop :: "'k ist234 \<Rightarrow> bool \<Rightarrow> 'k ist_path \<Rightarrow> nat \<Rightarrow> ('k ist234 \<times> 'k ist_path \<times> nat) option" where
  "predecessor_loop p copied path ap = do {
     s1 \<leftarrow> subtree p 1;
     let ix = 3 * NODE_TYPE p - 2;
     s \<leftarrow> subtree p ix;
     (if s1 = NULL_IST then Some (p, path, ap)
      else if NODE_TYPE s > 2 then
        predecessor_loop s False ((p, ix) # path) (if copied then ap else ap + cell_size p)
      else do {
        (new_p, ix', i, levels, ap') \<leftarrow> copy_and_transform p ix ap;
        (if levels \<noteq> 2 then None
         else do {
           q \<leftarrow> subtree new_p ix';
           predecessor_loop q True ((new_p, ix') # path) ap' }) }) }"
  by pat_completeness auto

termination
  by (relation "measure (\<lambda>(p, copied, path, ap). ist_height p)") (auto simp: subtree_height transform_height)

declare predecessor_loop.simps [simp del]

text \<open>
  Joining two subtrees of type 2 from the top: as long as the nodes that meet are of type 2, a node
  of type 3 is made of the pair and the loop goes on in its middle subtree.  It ends at the leaves
  with the whole tree, or with the next pair.  The middle word of a new node is stored later.
\<close>

datatype 'k join_point =
    Joined "'k ist234"
  | Pair "'k ist234" "'k ist234" "'k ist_path"

fun join_loop :: "'k ist234 \<Rightarrow> 'k ist234 \<Rightarrow> 'k ist_path \<Rightarrow> nat \<Rightarrow> ('k join_point \<times> nat) option" where
  "join_loop (Node2 l1 l2 l3 l4) (Node2 r1 r2 r3 r4) path ap =
    (if l1 = NULL_IST \<or> (NODE_TYPE l4 = 2 \<and> NODE_TYPE r1 = 2) then
       (let joint = Node3 l1 l2 l3 NULL_IST r2 r3 r4 in
        if l1 = NULL_IST then Some (Joined (plug joint path), ap + 8)
        else join_loop l4 r1 ((joint, 4) # path) (ap + 8))
     else Some (Pair (Node2 l1 l2 l3 l4) (Node2 r1 r2 r3 r4) path, ap))"
| "join_loop _ _ path ap = None"

text \<open>The node of type 4 that is made of such a pair.  Its second key and data are not stored by the
  code before they are replaced or removed; \<open>x\<close> stands for them.\<close>

fun join4 :: "'k ist234 \<Rightarrow> 'k \<times> word_t \<Rightarrow> 'k ist234 \<Rightarrow> 'k ist234" where
  "join4 (Node2 l1 l2 l3 l4) (k, d) (Node2 r1 r2 r3 r4) = Node4 l1 l2 l3 l4 k d r1 r2 r3 r4"
| "join4 l x r = NULL_IST"

lemma join4_height: "ist_height l < n \<Longrightarrow> ist_height r < n \<Longrightarrow> ist_height (join4 l x r) < n"
  by (cases "(l, x, r)" rule: join4.cases) auto

lemma join_loop_height:
  "join_loop l r path ap = Some (Pair l' r' path', ap') \<Longrightarrow>
    ist_height l' \<le> ist_height l \<and> ist_height r' \<le> ist_height r"
proof (induction l r path ap rule: join_loop.induct)
  case (1 l1 l2 l3 l4 r1 r2 r3 r4 path ap)
  then show ?case by (fastforce simp: Let_def split: if_splits)
qed simp_all

text \<open>The label \<^verbatim>\<open>delete_internal_node\<close>.\<close>

function delete_internal :: "'k ist234 \<Rightarrow> nat \<Rightarrow> bool \<Rightarrow> 'k ist_path \<Rightarrow> nat \<Rightarrow> ('k ist234 \<times> nat) option" where
  "delete_internal p i copied path ap = do {
     x \<leftarrow> item p i;
     l \<leftarrow> subtree p (i - 1);
     r \<leftarrow> subtree p (i + 2);
     (if NODE_TYPE r > 2 then do {
        (leaf, inner, ap1) \<leftarrow> successor_loop r False [] (if copied then ap else ap + cell_size p);
        y \<leftarrow> (if NODE_TYPE leaf > 2 then item leaf 2 else None);
        (leaf', ap2) \<leftarrow> delete_leaf leaf 2 False ap1;
        Some (plug (set_subtree (set_item p i y) (i + 2) (plug leaf' inner)) path, ap2) }
      else if NODE_TYPE l > 2 then do {
        (leaf, inner, ap1) \<leftarrow> predecessor_loop l False [] (if copied then ap else ap + cell_size p);
        y \<leftarrow> (if NODE_TYPE leaf > 2 then item leaf (3 * NODE_TYPE leaf - 4) else None);
        (leaf', ap2) \<leftarrow> delete_leaf leaf (3 * NODE_TYPE leaf - 4) False ap1;
        Some (plug (set_subtree (set_item p i y) (i - 1) (plug leaf' inner)) path, ap2) }
      else do {
        (path1, ap1) \<leftarrow>
          (if NODE_TYPE p > 2 then do {
             new_p \<leftarrow> remove_item p i NULL_IST;
             Some ((new_p, i - 1) # path, ap + (3 * NODE_TYPE p - 4)) }
           else Some (path, ap));
        (j, ap2) \<leftarrow> join_loop l r path1 ap1;
        (case j of
           Joined t \<Rightarrow> Some (t, ap2)
         | Pair l' r' path2 \<Rightarrow> delete_internal (join4 l' x r') 5 True path2 (ap2 + 11)) }) }"
  by pat_completeness auto

termination
proof (relation "measure (\<lambda>(p, i, copied, path, ap). ist_height p)", goal_cases)
  case (2 p i copied path ap x l r a path1 ap1 b j ap2 l' r' path2)
  then have "ist_height l' \<le> ist_height l \<and> ist_height r' \<le> ist_height r"
    using join_loop_height [of l r path1 ap1 l' r' path2 ap2] by auto
  then show ?case
    using join4_height [of l' "ist_height p" r' x] subtree_height [OF 2(2)] subtree_height [OF 2(3)] by auto
qed simp

declare delete_internal.simps [simp del]

definition ist234_delete :: "('k \<Rightarrow> 'k \<Rightarrow> cmp_result_t) \<Rightarrow> (word_t \<Rightarrow> word_t \<Rightarrow> word_t) option \<Rightarrow>
    'k ist234 \<Rightarrow> 'k \<Rightarrow> word_t \<Rightarrow> nat \<Rightarrow> ('k ist234 \<times> nat) option" where
  "ist234_delete cmp delete_fun root key data ap0 =
    (if root = NULL_IST then Some (root, ap0)
     else do {
       pos \<leftarrow> compare_keys cmp key root;
       point \<leftarrow> delete_loop cmp key root pos False [] ap0;
       (case point of
          Root_unchanged \<Rightarrow> Some (root, ap0)
        | Delete_key p i copied path ap \<Rightarrow>
            (case delete_fun of
               Some f \<Rightarrow> do {
                 (k, old) \<leftarrow> item p i;
                 let data' = f old data;
                 (if old = data' then Some (root, ap)
                  else Some (plug (set_item p i (k, data')) path, if copied then ap else ap + cell_size p)) }
             | None \<Rightarrow>
                 (if subtree p 1 = Some NULL_IST then do {
                    (leaf, ap') \<leftarrow> delete_leaf p i (path = [] \<and> \<not> copied) ap;
                    Some (plug leaf path, ap') }
                  else if \<not> (path = [] \<and> \<not> copied \<or> NODE_TYPE p > 2) then None
                  else delete_internal p i copied path ap))) })"

section \<open>Restructuring keeps the items and the balance\<close>

text \<open>
  \<open>entered p q i xs ys\<close>: the node \<open>q\<close>, of type 3 or 4, is the node \<open>p\<close> of type 2 with the items \<open>xs\<close>
  added to its left and \<open>ys\<close> to its right, and \<open>i\<close> is the index of the key of \<open>p\<close>.
\<close>

definition entered :: "'k ist234 \<Rightarrow> 'k ist234 \<Rightarrow> nat \<Rightarrow> ('k \<times> word_t) list \<Rightarrow> ('k \<times> word_t) list \<Rightarrow> bool" where
  "entered p q i xs ys \<longleftrightarrow> (\<exists>p1 k d p4. p = Node2 p1 k d p4 \<and> NODE_TYPE q > 2 \<and> item q i = Some (k, d) \<and>
     subtree q (i - 1) = Some p1 \<and> subtree q (i + 2) = Some p4 \<and>
     left_of q (i - 1) = xs \<and> right_of q (i - 1) = (k, d) # ist_items p4 @ ys \<and>
     left_of q (i + 2) = xs @ ist_items p1 @ [(k, d)] \<and> right_of q (i + 2) = ys)"

definition transformed :: "nat \<Rightarrow> 'k ist234 \<Rightarrow> nat \<Rightarrow> 'k ist234 \<Rightarrow> 'k ist234 \<times> nat \<times> nat \<times> nat \<times> nat \<Rightarrow> bool" where
  "transformed n node ix p = (\<lambda>(t, ix', i, levels, ap'). \<exists>q xs ys. entered p q i xs ys \<and>
     (levels = 1 \<and> t = q \<and> NODE_TYPE node = 2 \<and> complete (n - 1) q \<and> left_of node ix = xs \<and> right_of node ix = ys \<or>
      levels = 2 \<and> subtree t ix' = Some q \<and> complete n t \<and> left_of node ix = left_of t ix' @ xs \<and>
        right_of node ix = ys @ right_of t ix' \<and> (ix = 1 \<longrightarrow> ix' = 1)))"

lemma transform_first_ok:
  assumes n: "complete n node" and p: "subtree node 1 = Some p" "NODE_TYPE p = 2"
  shows "\<exists>t ix' i levels ap'. transform_first node ap = Some (t, ix', i, levels, ap') \<and>
    transformed n node 1 p (t, ix', i, levels, ap') \<and> ap \<le> ap' \<and> ap' \<le> ap + 27"
proof -
  obtain p1 pk pd p4 where p2: "p = Node2 p1 pk pd p4" using p(2) by (cases p) auto
  obtain k d where x: "item node 2 = Some (k, d)" using p(1) by (cases node) (auto split: if_splits)
  obtain brother where b: "subtree node 4 = Some brother" "left_of node 4 = left_of node 1 @ ist_items p @ [(k, d)]"
      "right_of node 1 = (k, d) # ist_items brother @ right_of node 4"
    using item_between [OF x] p(1) by auto
  have l: "left_of node 1 = []" by (cases node) auto
  have cp: "complete (n - 1) p" and cb: "complete (n - 1) brother" and n0: "n > 0"
    using subtree_frame [OF p(1) n] subtree_frame [OF b(1) n] by auto
  have n1: "n - 1 > 0" using cp p2 by simp
  have size: "cell_size node \<le> 11" "3 * NODE_TYPE node - 4 \<le> 8" by (cases node; simp add: cell_size_def)+
  show ?thesis
  proof (cases brother)
    case NULL_IST
    then show ?thesis using cb n1 by simp
  next
    case (Node2 b1 b2 b3 b4)
    let ?q = "Node4 p1 pk pd p4 k d b1 b2 b3 b4"
    have q: "entered p ?q 2 [] ((k, d) # ist_items brother)" "complete (n - 1) ?q"
      using p2 Node2 cp cb by (auto simp: entered_def)
    show ?thesis
    proof (cases "NODE_TYPE node = 2")
      case True
      have "right_of node 4 = []" using True by (cases node) auto
      then have "transformed n node 1 p (?q, 1, 2, 1, ap + 11)"
        unfolding transformed_def using q True l b by auto
      moreover have "transform_first node ap = Some (?q, 1, 2, 1, ap + 11)"
        using p p2 b x Node2 True by (simp add: transform_first_def)
      ultimately show ?thesis by auto
    next
      case False
      then have "NODE_TYPE node > 2" using x by (cases node) auto
      then obtain t where t: "remove_item node 2 ?q = Some t" using remove_item_exists [OF x] by blast
      have "complete n (set_subtree t 1 ?q)"
        using set_subtree_frame [of "n - 1" t 1 ?q] remove_item_ok(5) [OF t n] q(2) n0 by auto
      moreover have "set_subtree t 1 ?q = t" using set_subtree_same [OF remove_item_ok(1) [OF t]] by simp
      ultimately have "transformed n node 1 p (t, 1, 2, 2, ap + 11 + (3 * NODE_TYPE node - 4))"
        unfolding transformed_def using q remove_item_ok(1-3) [OF t] l b by auto
      moreover have "transform_first node ap = Some (t, 1, 2, 2, ap + 11 + (3 * NODE_TYPE node - 4))"
        using p p2 b x Node2 False t by (simp add: transform_first_def)
      ultimately show ?thesis using size by fastforce
    qed
  next
    case (Node3 b1 b2 b3 b4 b5 b6 b7)
    let ?q = "Node3 p1 pk pd p4 k d b1" and ?r = "Node2 b4 b5 b6 b7"
    let ?t = "replace_item node 2 ?q (b2, b3) ?r"
    have q: "entered p ?q 2 [] ((k, d) # ist_items b1)" "complete (n - 1) ?q" "complete (n - 1) ?r"
      using p2 Node3 cp cb by (auto simp: entered_def)
    have "transformed n node 1 p (?t, 1, 2, 2, ap + 8 + 5 + cell_size node)"
      unfolding transformed_def using q replace_item_ok [OF x, where l = ?q and r = ?r and x = "(b2, b3)"] n l b Node3
      by auto
    moreover have "transform_first node ap = Some (?t, 1, 2, 2, ap + 8 + 5 + cell_size node)"
      using p p2 b x Node3 by (simp add: transform_first_def)
    ultimately show ?thesis using size by fastforce
  next
    case (Node4 b1 b2 b3 b4 b5 b6 b7 b8 b9 b10)
    let ?q = "Node3 p1 pk pd p4 k d b1" and ?r = "Node3 b4 b5 b6 b7 b8 b9 b10"
    let ?t = "replace_item node 2 ?q (b2, b3) ?r"
    have q: "entered p ?q 2 [] ((k, d) # ist_items b1)" "complete (n - 1) ?q" "complete (n - 1) ?r"
      using p2 Node4 cp cb by (auto simp: entered_def)
    have "transformed n node 1 p (?t, 1, 2, 2, ap + 8 + 8 + cell_size node)"
      unfolding transformed_def using q replace_item_ok [OF x, where l = ?q and r = ?r and x = "(b2, b3)"] n l b Node4
      by auto
    moreover have "transform_first node ap = Some (?t, 1, 2, 2, ap + 8 + 8 + cell_size node)"
      using p p2 b x Node4 by (simp add: transform_first_def)
    ultimately show ?thesis using size by fastforce
  qed
qed

lemma transform_other_ok:
  assumes n: "complete n node" and p: "subtree node ix = Some p" "NODE_TYPE p = 2" and ix1: "ix \<noteq> 1"
  shows "\<exists>t ix' i levels ap'. transform_other node ix ap = Some (t, ix', i, levels, ap') \<and>
    transformed n node ix p (t, ix', i, levels, ap') \<and> ap \<le> ap' \<and> ap' \<le> ap + 27"
proof -
  obtain p1 pk pd p4 where p2: "p = Node2 p1 pk pd p4" using p(2) by (cases p) auto
  obtain k d where x: "item node (ix - 2) = Some (k, d)" using subtree_item [OF p(1)] ix1 by auto
  have ix: "ix - 2 + 2 = ix" "ix - 2 - 1 = ix - 3" using item_index [OF x] by auto
  obtain brother where b: "subtree node (ix - 3) = Some brother"
      "left_of node ix = left_of node (ix - 3) @ ist_items brother @ [(k, d)]"
      "right_of node (ix - 3) = (k, d) # ist_items p @ right_of node ix"
    using item_between [OF x] p(1) unfolding ix by auto
  note rep = replace_item_ok [OF x, unfolded ix] and rem = remove_item_ok [of node "ix - 2", unfolded ix]
  have cp: "complete (n - 1) p" and cb: "complete (n - 1) brother" and n0: "n > 0"
    using subtree_frame [OF p(1) n] subtree_frame [OF b(1) n] by auto
  have n1: "n - 1 > 0" using cp p2 by simp
  have size: "cell_size node \<le> 11" "3 * NODE_TYPE node - 4 \<le> 8" by (cases node; simp add: cell_size_def)+
  show ?thesis
  proof (cases brother)
    case NULL_IST
    then show ?thesis using cb n1 by simp
  next
    case (Node2 b1 b2 b3 b4)
    let ?q = "Node4 b1 b2 b3 b4 k d p1 pk pd p4"
    have q: "entered p ?q 8 (ist_items brother @ [(k, d)]) []" "complete (n - 1) ?q"
      using p2 Node2 cp cb by (auto simp: entered_def)
    show ?thesis
    proof (cases "NODE_TYPE node = 2")
      case True
      have e: "left_of node (ix - 3) = []" "right_of node ix = []"
        using True x item_index [OF x] by (cases node; auto split: if_splits)+
      then have "transformed n node ix p (?q, ix, 8, 1, ap + 11)"
        unfolding transformed_def using q True b by auto
      moreover have "transform_other node ix ap = Some (?q, ix, 8, 1, ap + 11)"
        using p p2 b x Node2 True by (simp add: transform_other_def)
      ultimately show ?thesis by auto
    next
      case False
      then have "NODE_TYPE node > 2" using x by (cases node) auto
      then obtain t where t: "remove_item node (ix - 2) ?q = Some t" using remove_item_exists [OF x] by blast
      have "complete n (set_subtree t (ix - 3) ?q)"
        using set_subtree_frame [of "n - 1" t "ix - 3" ?q] rem(5) [OF t n] q(2) n0 by auto
      moreover have "set_subtree t (ix - 3) ?q = t" by (rule set_subtree_same [OF rem(1) [OF t]])
      ultimately have "transformed n node ix p (t, ix - 3, 8, 2, ap + 11 + (3 * NODE_TYPE node - 4))"
        unfolding transformed_def using q rem(1-3) [OF t] b ix1 by auto
      moreover have "transform_other node ix ap = Some (t, ix - 3, 8, 2, ap + 11 + (3 * NODE_TYPE node - 4))"
        using p p2 b x Node2 False t by (simp add: transform_other_def)
      ultimately show ?thesis using size by fastforce
    qed
  next
    case (Node3 b1 b2 b3 b4 b5 b6 b7)
    let ?q = "Node3 b7 k d p1 pk pd p4" and ?l = "Node2 b1 b2 b3 b4"
    let ?t = "replace_item node (ix - 2) ?l (b5, b6) ?q"
    have q: "entered p ?q 5 (ist_items b7 @ [(k, d)]) []" "complete (n - 1) ?q" "complete (n - 1) ?l"
      using p2 Node3 cp cb by (auto simp: entered_def)
    have "transformed n node ix p (?t, ix, 5, 2, ap + 5 + 8 + cell_size node)"
      unfolding transformed_def using q rep [where l = ?l and r = ?q and x = "(b5, b6)"] n b Node3 ix1
      by auto
    moreover have "transform_other node ix ap = Some (?t, ix, 5, 2, ap + 5 + 8 + cell_size node)"
      using p p2 b x Node3 by (simp add: transform_other_def)
    ultimately show ?thesis using size by fastforce
  next
    case (Node4 b1 b2 b3 b4 b5 b6 b7 b8 b9 b10)
    let ?q = "Node3 b10 k d p1 pk pd p4" and ?l = "Node3 b1 b2 b3 b4 b5 b6 b7"
    let ?t = "replace_item node (ix - 2) ?l (b8, b9) ?q"
    have q: "entered p ?q 5 (ist_items b10 @ [(k, d)]) []" "complete (n - 1) ?q" "complete (n - 1) ?l"
      using p2 Node4 cp cb by (auto simp: entered_def)
    have "transformed n node ix p (?t, ix, 5, 2, ap + 8 + 8 + cell_size node)"
      unfolding transformed_def using q rep [where l = ?l and r = ?q and x = "(b8, b9)"] n b Node4 ix1
      by auto
    moreover have "transform_other node ix ap = Some (?t, ix, 5, 2, ap + 8 + 8 + cell_size node)"
      using p p2 b x Node4 by (simp add: transform_other_def)
    ultimately show ?thesis using size by fastforce
  qed
qed

lemma transform_ok:
  assumes "complete n node" and "subtree node ix = Some p" and "NODE_TYPE p = 2"
  shows "\<exists>t ix' i levels ap'. copy_and_transform node ix ap = Some (t, ix', i, levels, ap') \<and>
    transformed n node ix p (t, ix', i, levels, ap') \<and> ap \<le> ap' \<and> ap' \<le> ap + 27"
  using transform_first_ok [OF assms(1), of p ap] transform_other_ok [OF assms, of ap] assms
  by (cases "ix = 1") (simp_all add: copy_and_transform_def)
section \<open>The search is correct\<close>

text \<open>
  \<open>holds root n path p\<close>: the tree made of the copies on the path and of \<open>p\<close>, a tree of depth \<open>n\<close>, has
  the items of the root.
\<close>

definition holds :: "('k \<times> word_t) list \<Rightarrow> nat \<Rightarrow> 'k ist_path \<Rightarrow> 'k ist234 \<Rightarrow> bool" where
  "holds xs n path p \<longleftrightarrow> complete n p \<and> path_complete n path \<and> items_left path @ ist_items p @ items_right path = xs"

lemma holds_subtree:
  assumes "holds xs n path p" and "subtree p i = Some s"
  shows "holds xs (n - 1) ((p, i) # path) s" and "n > 0"
  using assms subtree_frame [OF assms(2)] subtree_items [OF assms(2)] by (auto simp: holds_def)

lemma entered_items: "entered p q i ys zs \<Longrightarrow> ist_items q = ys @ ist_items p @ zs"
  using subtree_items [of q "i - 1"] by (auto simp: entered_def)

text \<open>Descending into a transformed subtree, whatever the number of copied levels.\<close>

lemma holds_transformed:
  assumes h: "holds xs n path node" and p: "subtree node ix = Some p"
    and t: "transformed n node ix p (t, ix', i, levels, ap')" and top: "NODE_TYPE node = 2 \<Longrightarrow> path = []"
  obtains (merged) ys zs where "levels = 1" "NODE_TYPE node = 2" "path = []" "holds xs (n - 1) [] t" "entered p t i ys zs"
      "left_of node ix = ys" "right_of node ix = zs"
    | (lower) q ys zs where "levels = 2" "subtree t ix' = Some q" "holds xs (n - 1) ((t, ix') # path) q"
      "entered p q i ys zs" "left_of node ix = left_of t ix' @ ys" "right_of node ix = zs @ right_of t ix'"
      "ix = 1 \<longrightarrow> ix' = 1"
proof -
  have node: "ist_items node = left_of node ix @ ist_items p @ right_of node ix" by (rule subtree_items [OF p])
  have n: "n > 0" using holds_subtree [OF h p] by simp
  have pc: "path_complete n path" "items_left path @ ist_items node @ items_right path = xs" using h by (auto simp: holds_def)
  obtain q ys zs where q: "entered p q i ys zs"
     "levels = 1 \<and> t = q \<and> NODE_TYPE node = 2 \<and> complete (n - 1) q \<and> left_of node ix = ys \<and> right_of node ix = zs \<or>
      levels = 2 \<and> subtree t ix' = Some q \<and> complete n t \<and> left_of node ix = left_of t ix' @ ys \<and>
        right_of node ix = zs @ right_of t ix' \<and> (ix = 1 \<longrightarrow> ix' = 1)"
    using t unfolding transformed_def by auto
  from q(2) show thesis
  proof (elim disjE)
    assume a: "levels = 1 \<and> t = q \<and> NODE_TYPE node = 2 \<and> complete (n - 1) q \<and> left_of node ix = ys \<and> right_of node ix = zs"
    then have "holds xs (n - 1) [] t" "path = []"
      using top pc entered_items [OF q(1)] node by (auto simp: holds_def)
    then show thesis using merged a q(1) by blast
  next
    assume a: "levels = 2 \<and> subtree t ix' = Some q \<and> complete n t \<and> left_of node ix = left_of t ix' @ ys \<and>
        right_of node ix = zs @ right_of t ix' \<and> (ix = 1 \<longrightarrow> ix' = 1)"
    then have "holds xs n path t"
      using pc entered_items [OF q(1)] subtree_items [of t ix' q] node by (auto simp: holds_def)
    then have "holds xs (n - 1) ((t, ix') # path) q" using holds_subtree a by blast
    then show thesis using lower a q(1) by blast
  qed
qed
lemma compare_key_ok:
  assumes cmp: "total_cmp cmp" and q: "entered p q i ys zs" and i: "increasing cmp (ist_items q)"
    and s: "splits cmp key ys zs"
  shows "\<exists>pos. compare_key cmp key q i = Some pos \<and> position_ok cmp key q pos"
proof -
  obtain p1 k d p4 where p: "p = Node2 p1 k d p4" "item q i = Some (k, d)" "subtree q (i - 1) = Some p1"
      "subtree q (i + 2) = Some p4" "left_of q (i - 1) = ys" "right_of q (i - 1) = (k, d) # ist_items p4 @ zs"
      "left_of q (i + 2) = ys @ ist_items p1 @ [(k, d)]" "right_of q (i + 2) = zs"
    using q by (auto simp: entered_def)
  have "increasing cmp ((ys @ ist_items p1) @ (k, d) # ist_items p4 @ zs)"
    using i entered_items [OF q] p(1) by simp
  note split = splits_below [OF cmp this, of key] splits_above [OF cmp this, of key]
  show ?thesis
    using p split s cmp_no_error [OF cmp, of key k]
    by (auto simp: compare_key_def position_ok_def Let_def splits_def)
qed

lemma position_subtree:
  assumes "position_ok cmp key p (Subtree ix)"
  obtains s where "subtree p ix = Some s" "splits cmp key (left_of p ix) (right_of p ix)"
  using assms by (auto simp: position_ok_def)

text \<open>What the end of the search means.\<close>

fun delete_point_ok :: "('k \<Rightarrow> 'k \<Rightarrow> cmp_result_t) \<Rightarrow> 'k \<Rightarrow> ('k \<times> word_t) list \<Rightarrow> nat \<Rightarrow> nat \<Rightarrow> 'k delete_point \<Rightarrow> bool" where
  "delete_point_ok cmp key xs n ap Root_unchanged \<longleftrightarrow> (\<exists>B A. xs = B @ A \<and> splits cmp key B A)"
| "delete_point_ok cmp key xs n ap (Delete_key q i copied path ap') \<longleftrightarrow>
    (\<exists>m k d. holds xs m path q \<and> item q i = Some (k, d) \<and> cmp key k = CMP_EQUAL \<and>
      (NODE_TYPE q = 2 \<longrightarrow> path = [] \<and> \<not> copied) \<and> ap \<le> ap' \<and> ap' + 27 * m \<le> ap + 27 * n)"

lemma delete_point_ok_mono:
  "delete_point_ok cmp key xs n ap1 pt \<Longrightarrow> ap \<le> ap1 \<Longrightarrow> ap1 + 27 * n \<le> ap + 27 * m \<Longrightarrow> delete_point_ok cmp key xs m ap pt"
  by (cases pt) (simp, fastforce)

lemma delete_loop_ok:
  assumes cmp: "total_cmp cmp" and xs: "increasing cmp xs"
    and "holds xs n path p" and "position_ok cmp key p pos"
    and "splits cmp key (items_left path) (items_right path)"
    and "NODE_TYPE p = 2 \<longrightarrow> path = [] \<and> \<not> copied"
  shows "\<exists>pt. delete_loop cmp key p pos copied path ap = Some pt \<and> delete_point_ok cmp key xs n ap pt"
  using assms(3-)
proof (induction n arbitrary: p pos copied path ap rule: less_induct)
  case (less n)
  note h = \<open>holds xs n path p\<close> and sp = \<open>splits cmp key (items_left path) (items_right path)\<close>
  show ?case
  proof (cases pos)
    case (Key_at i)
    then have "delete_point_ok cmp key xs n ap (Delete_key p i copied path ap)"
      using less.prems by (auto simp: position_ok_def intro!: exI [of _ n])
    then show ?thesis using Key_at by (simp add: delete_loop.simps [of cmp key p])
  next
    case Compare_error
    then show ?thesis using less.prems(2) by (simp add: position_ok_def)
  next
    case (Subtree ix)
    then have "position_ok cmp key p (Subtree ix)" using less.prems(2) by simp
    then obtain s where s: "subtree p ix = Some s" "splits cmp key (left_of p ix) (right_of p ix)"
      by (rule position_subtree)
    have hs: "holds xs (n - 1) ((p, ix) # path) s" and n: "n > 0" using holds_subtree [OF h s(1)] by auto
    note step = delete_loop.simps [of cmp key p pos copied path ap]
    have sps: "splits cmp key (items_left ((p, ix) # path)) (items_right ((p, ix) # path))"
      using sp s(2) by (simp add: splits_def ball_Un image_Un)
    show ?thesis
    proof (cases "s = NULL_IST")
      case True
      have "xs = items_left ((p, ix) # path) @ items_right ((p, ix) # path)" using hs True by (simp add: holds_def)
      then have "delete_point_ok cmp key xs n ap Root_unchanged" unfolding delete_point_ok.simps using sps by blast
      then show ?thesis using True s(1) Subtree step by simp
    next
      case False
      have inc: "increasing cmp (ist_items s)" using xs hs unfolding holds_def by auto
      show ?thesis
      proof (cases "NODE_TYPE s > 2")
        case big: True
        obtain pos' where pos': "compare_keys cmp key s = Some pos'" "position_ok cmp key s pos'"
          using compare_keys_ok [OF cmp False inc] by blast
        let ?ap = "if copied then ap else ap + cell_size p"
        obtain pt where pt: "delete_loop cmp key s pos' False ((p, ix) # path) ?ap = Some pt"
            "delete_point_ok cmp key xs (n - 1) ?ap pt"
          using less.IH [OF _ hs pos'(2) sps] n big by force
        have "delete_point_ok cmp key xs n ap pt"
          using n cell_size_le [of p] by (intro delete_point_ok_mono [OF pt(2)]) auto
        then show ?thesis using pt(1) pos'(1) s(1) big False Subtree step by simp
      next
        case small: False
        then have s2: "NODE_TYPE s = 2" using False by (cases s) auto
        have cn: "complete n p" using h by (simp add: holds_def)
        obtain t ix' i levels ap' where t: "copy_and_transform p ix ap = Some (t, ix', i, levels, ap')"
            "transformed n p ix s (t, ix', i, levels, ap')" "ap \<le> ap'" "ap' \<le> ap + 27"
          using transform_ok [OF cn s(1) s2] by blast
        show ?thesis
        proof (rule holds_transformed [OF h s(1) t(2)])
          show "path = []" if "NODE_TYPE p = 2" using less.prems(4) that by simp
        next
          fix ys zs
          assume m: "levels = 1" "path = []" "holds xs (n - 1) [] t" "entered s t i ys zs" "left_of p ix = ys"
            "right_of p ix = zs"
          have inc: "increasing cmp (ist_items t)" using xs m(3) by (simp add: holds_def)
          obtain pos' where pos': "compare_key cmp key t i = Some pos'" "position_ok cmp key t pos'"
            using compare_key_ok [OF cmp m(4) inc] s(2) m(5,6) by blast
          have t2: "NODE_TYPE t > 2" using m(4) by (auto simp: entered_def)
          obtain pt where pt: "delete_loop cmp key t pos' True [] ap' = Some pt" "delete_point_ok cmp key xs (n - 1) ap' pt"
            using less.IH [OF _ m(3) pos'(2), of True ap'] n t2 by (auto simp: splits_simps)
          have "delete_point_ok cmp key xs n ap pt"
            using t n by (intro delete_point_ok_mono [OF pt(2)]) auto
          then show ?thesis using pt(1) pos'(1) s(1) small False Subtree step t(1) m(1,2) by simp
        next
          fix q ys zs
          assume m: "levels = 2" "subtree t ix' = Some q" "holds xs (n - 1) ((t, ix') # path) q" "entered s q i ys zs"
            "left_of p ix = left_of t ix' @ ys" "right_of p ix = zs @ right_of t ix'" "ix = 1 \<longrightarrow> ix' = 1"
          have inc: "increasing cmp (ist_items q)" using xs m(3) by (auto simp: holds_def)
          have yz: "splits cmp key ys zs"
              "splits cmp key (items_left ((t, ix') # path)) (items_right ((t, ix') # path))"
            using s(2) sp unfolding m(5,6) by (auto simp: splits_def)
          obtain pos' where pos': "compare_key cmp key q i = Some pos'" "position_ok cmp key q pos'"
            using compare_key_ok [OF cmp m(4) inc yz(1)] by blast
          have q2: "NODE_TYPE q > 2" using m(4) by (auto simp: entered_def)
          obtain pt where pt: "delete_loop cmp key q pos' True ((t, ix') # path) ap' = Some pt"
              "delete_point_ok cmp key xs (n - 1) ap' pt"
            using less.IH [OF _ m(3) pos'(2) yz(2), of True ap'] n q2 by auto
          have "delete_point_ok cmp key xs n ap pt"
            using t n by (intro delete_point_ok_mono [OF pt(2)]) auto
          then show ?thesis using pt(1) pos'(1) s(1) small False Subtree step t(1) m(1,2) by simp
        qed
      qed
    qed
  qed
qed

section \<open>The ways down to the leaves\<close>

lemma delete_leaf_ok:
  assumes "complete 1 p" and "item p i = Some x" and "NODE_TYPE p = 2 \<Longrightarrow> no_new_root"
  shows "\<exists>t ap'. delete_leaf p i no_new_root ap = Some (t, ap') \<and> ist_items p = left_of p (i - 1) @ x # right_of p (i + 2) \<and>
    ist_items t = left_of p (i - 1) @ right_of p (i + 2) \<and>
    (if NODE_TYPE p = 2 then t = NULL_IST else complete 1 t) \<and> ap \<le> ap' \<and> ap' \<le> ap + 8"
  using assms by (cases p) (auto split: if_splits)

lemma successor_loop_ok:
  assumes "holds xs n path p" and "NODE_TYPE p > 2"
  shows "\<exists>leaf path' ap'. successor_loop p copied path ap = Some (leaf, path', ap') \<and> holds xs 1 path' leaf \<and>
    NODE_TYPE leaf > 2 \<and> items_left path' = items_left path \<and> length path' + 1 = length path + n \<and>
    ap \<le> ap' \<and> ap' + 27 \<le> ap + 27 * n"
  using assms
proof (induction n arbitrary: p copied path ap rule: less_induct)
  case (less n)
  note h = \<open>holds xs n path p\<close>
  obtain s where s: "subtree p 1 = Some s" "left_of p 1 = []" using less.prems(2) by (cases p) auto
  note step = successor_loop.simps [of p copied path ap]
  have hs: "holds xs (n - 1) ((p, 1) # path) s" and n: "n > 0" using holds_subtree [OF h s(1)] by auto
  show ?case
  proof (cases "s = NULL_IST")
    case True
    then have "n = 1" using hs n complete_null [of "n - 1" s] by (simp add: holds_def)
    then show ?thesis using True step s h less.prems(2) by simp
  next
    case False
    show ?thesis
    proof (cases "NODE_TYPE s > 2")
      case True
      show ?thesis
        using less.IH [OF _ hs True, of False "if copied then ap else ap + cell_size p"] n step s True False
          cell_size_le [of p] by (auto split: if_splits)
    next
      case small: False
      then have s2: "NODE_TYPE s = 2" using False by (cases s) auto
      have cn: "complete n p" using h by (simp add: holds_def)
      obtain t ix' i levels ap' where t: "copy_and_transform p 1 ap = Some (t, ix', i, levels, ap')"
          "transformed n p 1 s (t, ix', i, levels, ap')" "ap \<le> ap'" "ap' \<le> ap + 27"
        using transform_ok [OF cn s(1) s2] by blast
      show ?thesis
      proof (rule holds_transformed [OF h s(1) t(2)])
        fix q ys zs
        assume m: "levels = 2" "subtree t ix' = Some q" "holds xs (n - 1) ((t, ix') # path) q" "entered s q i ys zs"
          "left_of p 1 = left_of t ix' @ ys" "1 = (1 :: nat) \<longrightarrow> ix' = 1"
        have q2: "NODE_TYPE q > 2" using m(4) by (auto simp: entered_def)
        have l: "left_of t ix' = []" using m(5) s(2) by simp
        show ?thesis
          using less.IH [OF _ m(3) q2, of True ap'] n step s False small t m l by auto
      qed (use less.prems(2) in auto)
    qed
  qed
qed

lemma last_subtree:
  assumes "NODE_TYPE p > 1"
  shows "\<exists>s s1. subtree p (3 * NODE_TYPE p - 2) = Some s \<and> subtree p 1 = Some s1" and "right_of p (3 * NODE_TYPE p - 2) = []"
  using assms by (cases p; simp)+

lemma predecessor_loop_ok:
  assumes "holds xs n path p" and "NODE_TYPE p > 2"
  shows "\<exists>leaf path' ap'. predecessor_loop p copied path ap = Some (leaf, path', ap') \<and> holds xs 1 path' leaf \<and>
    NODE_TYPE leaf > 2 \<and> items_right path' = items_right path \<and> length path' + 1 = length path + n \<and>
    ap \<le> ap' \<and> ap' + 27 \<le> ap + 27 * n"
  using assms
proof (induction n arbitrary: p copied path ap rule: less_induct)
  case (less n)
  note h = \<open>holds xs n path p\<close>
  let ?ix = "3 * NODE_TYPE p - 2"
  obtain s s1 where s: "subtree p ?ix = Some s" "right_of p ?ix = []" "subtree p 1 = Some s1"
    using less.prems(2) last_subtree [of p] by auto
  note step = predecessor_loop.simps [of p copied path ap]
  have hs: "holds xs (n - 1) ((p, ?ix) # path) s" and n: "n > 0" using holds_subtree [OF h s(1)] by auto
  have null: "s1 = NULL_IST \<longleftrightarrow> n = 1" "s = NULL_IST \<longleftrightarrow> n = 1"
    using hs holds_subtree(1) [OF h s(3)] n complete_null [of "n - 1" s] complete_null [of "n - 1" s1]
    by (auto simp: holds_def)
  show ?case
  proof (cases "n = 1")
    case True
    then show ?thesis using null step s h less.prems(2) by (simp add: Let_def)
  next
    case False
    show ?thesis
    proof (cases "NODE_TYPE s > 2")
      case True
      show ?thesis
        using less.IH [OF _ hs True, of False "if copied then ap else ap + cell_size p"] n step s True False null
          cell_size_le [of p] by (auto simp: Let_def split: if_splits)
    next
      case small: False
      then have s2: "NODE_TYPE s = 2" using False null by (cases s) auto
      have cn: "complete n p" using h by (simp add: holds_def)
      obtain t ix' i levels ap' where t: "copy_and_transform p ?ix ap = Some (t, ix', i, levels, ap')"
          "transformed n p ?ix s (t, ix', i, levels, ap')" "ap \<le> ap'" "ap' \<le> ap + 27"
        using transform_ok [OF cn s(1) s2] by blast
      show ?thesis
      proof (rule holds_transformed [OF h s(1) t(2)])
        fix q ys zs
        assume m: "levels = 2" "subtree t ix' = Some q" "holds xs (n - 1) ((t, ix') # path) q" "entered s q i ys zs"
          "right_of p ?ix = zs @ right_of t ix'"
        have q2: "NODE_TYPE q > 2" using m(4) by (auto simp: entered_def)
        have l: "right_of t ix' = []" using m(5) s(2) by simp
        show ?thesis
          using less.IH [OF _ m(3) q2, of True ap'] n step s False small t m(1-3) l null by (auto simp: Let_def)
      qed (use less.prems(2) in auto)
    qed
  qed
qed

fun join_ok :: "('k \<times> word_t) list \<Rightarrow> nat \<Rightarrow> nat \<Rightarrow> 'k join_point \<times> nat \<Rightarrow> bool" where
  "join_ok xs n ap (Joined t, ap') \<longleftrightarrow> (\<exists>m. complete m t) \<and> ist_items t = xs \<and> ap \<le> ap' \<and> ap' \<le> ap + 8 * n"
| "join_ok xs n ap (Pair l' r' path', ap') \<longleftrightarrow> (\<exists>m. complete m l' \<and> complete m r' \<and> path_complete m path' \<and>
     m \<ge> 2 \<and> m \<le> n \<and> NODE_TYPE l' = 2 \<and> NODE_TYPE r' = 2 \<and>
     items_left path' @ ist_items l' @ ist_items r' @ items_right path' = xs \<and> ap \<le> ap' \<and> ap' + 8 * m \<le> ap + 8 * n)"

lemma join_ok_mono: "join_ok xs (n - 1) (ap + 8) j \<Longrightarrow> n > 0 \<Longrightarrow> join_ok xs n ap j"
  by (cases "(xs, n - 1, ap + 8, j)" rule: join_ok.cases) auto

lemma join_loop_ok:
  assumes "complete n l" and "complete n r" and "NODE_TYPE l = 2" and "NODE_TYPE r = 2" and "path_complete n path"
    and "xs = items_left path @ ist_items l @ ist_items r @ items_right path"
  shows "\<exists>j. join_loop l r path ap = Some j \<and> join_ok xs n ap j"
  using assms
proof (induction l r path ap arbitrary: n rule: join_loop.induct)
  case (1 l1 l2 l3 l4 r1 r2 r3 r4 path ap)
  from "1.prems" have n: "n > 0" and c: "complete (n - 1) l1" "complete (n - 1) l4" "complete (n - 1) r1" "complete (n - 1) r4"
    by auto
  show ?case
  proof (cases "l1 = NULL_IST")
    case True
    then have n1: "n = 1" using complete_null [OF c(1)] n by simp
    let ?j = "Node3 NULL_IST l2 l3 NULL_IST r2 r3 NULL_IST"
    have j: "complete (1 + length path) (plug ?j path)" using "1.prems"(5) n1 by (intro complete_plug) auto
    have "l4 = NULL_IST" "r1 = NULL_IST" "r4 = NULL_IST" using c n1 by auto
    then show ?thesis using True j n1 plug_items [OF "1.prems"(5), of ?j] "1.prems"(6) by (auto simp: Let_def)
  next
    case False
    then have n2: "n \<ge> 2" using complete_null [OF c(1)] n by simp
    show ?thesis
    proof (cases "NODE_TYPE l4 = 2 \<and> NODE_TYPE r1 = 2")
      case True
      let ?j = "Node3 l1 l2 l3 NULL_IST r2 r3 r4"
      have "path_complete (n - 1) ((?j, 4) # path)" using "1.prems"(5) c n by simp
      then obtain j where j: "join_loop l4 r1 ((?j, 4) # path) (ap + 8) = Some j" "join_ok xs (n - 1) (ap + 8) j"
        using "1.IH" [of ?j "n - 1"] c True False "1.prems"(6) by auto
      then show ?thesis using True False join_ok_mono [OF j(2) n] by (simp add: Let_def)
    next
      case False
      then show ?thesis using \<open>l1 \<noteq> NULL_IST\<close> "1.prems" n2 by (auto intro!: exI [of _ n])
    qed
  qed
qed auto

section \<open>Deletion of a key in an internal node\<close>

lemma join4_ok:
  assumes "complete n l" and "complete n r" and "NODE_TYPE l = 2" and "NODE_TYPE r = 2" and "n \<ge> 2"
  shows "complete n (join4 l x r)" and "NODE_TYPE (join4 l x r) = 4" and "item (join4 l x r) 5 = Some x"
    and "left_of (join4 l x r) (5 + 2) = ist_items l @ [x]" and "right_of (join4 l x r) (5 - 1) = x # ist_items r"
  using assms by (cases "(l, x, r)" rule: join4.cases; auto)+

lemma item_split:
  assumes "item p i = Some x" and "complete n p" and "n \<ge> 2"
  obtains l r B A where "subtree p (i - 1) = Some l" "subtree p (i + 2) = Some r" "complete (n - 1) l" "complete (n - 1) r"
    "B = left_of p (i - 1) @ ist_items l" "A = ist_items r @ right_of p (i + 2)" "ist_items p = B @ x # A"
    "l \<noteq> NULL_IST" "r \<noteq> NULL_IST" "right_of p (i - 1) = x # A" "left_of p (i + 2) = B @ [x]"
proof -
  obtain l r where lr: "subtree p (i - 1) = Some l" "subtree p (i + 2) = Some r"
    "left_of p (i + 2) = left_of p (i - 1) @ ist_items l @ [x]" "right_of p (i - 1) = x # ist_items r @ right_of p (i + 2)"
    using item_between [OF assms(1)] by blast
  have c: "complete (n - 1) l" "complete (n - 1) r"
    using subtree_frame [OF lr(1) assms(2)] subtree_frame [OF lr(2) assms(2)] by auto
  then have "l \<noteq> NULL_IST" "r \<noteq> NULL_IST" using complete_null assms(3) by fastforce+
  then show thesis using that [OF lr(1,2) c refl refl] lr subtree_items [OF lr(1)] by simp
qed

text \<open>A node of a complete tree with one key and one of the subtrees beside it changed.\<close>

lemma change_right:
  assumes "item p i = Some x" and "subtree p (i - 1) = Some l" and "complete n p" and "complete (n - 1) s"
  shows "complete n (set_subtree (set_item p i y) (i + 2) s)"
    and "ist_items (set_subtree (set_item p i y) (i + 2) s) =
      left_of p (i - 1) @ ist_items l @ y # ist_items s @ right_of p (i + 2)"
  using assms by (cases p; cases y; auto split: if_splits)+

lemma change_left:
  assumes "item p i = Some x" and "subtree p (i + 2) = Some r" and "complete n p" and "complete (n - 1) s"
  shows "complete n (set_subtree (set_item p i y) (i - 1) s)"
    and "ist_items (set_subtree (set_item p i y) (i - 1) s) =
      left_of p (i - 1) @ ist_items s @ y # ist_items r @ right_of p (i + 2)"
  using assms by (cases p; cases y; auto split: if_splits)+

text \<open>The smallest and the largest item of a subtree are taken out of its leaf.\<close>

lemma take_first:
  assumes c: "complete n r" and r: "NODE_TYPE r > 2"
  shows "\<exists>leaf inner ap1 y leaf' ap2. successor_loop r False [] ap = Some (leaf, inner, ap1) \<and> NODE_TYPE leaf > 2 \<and>
    item leaf 2 = Some y \<and> delete_leaf leaf 2 False ap1 = Some (leaf', ap2) \<and>
    ist_items r = y # ist_items (plug leaf' inner) \<and> complete n (plug leaf' inner) \<and> ap \<le> ap2 \<and> ap2 + 19 \<le> ap + 27 * n"
proof -
  have "holds (ist_items r) n [] r" using c by (simp add: holds_def)
  then obtain leaf inner ap1 where s: "successor_loop r False [] ap = Some (leaf, inner, ap1)"
      "holds (ist_items r) 1 inner leaf" "NODE_TYPE leaf > 2" "items_left inner = []" "length inner + 1 = n"
      "ap \<le> ap1" "ap1 + 27 \<le> ap + 27 * n"
    using successor_loop_ok [of "ist_items r" n "[]" r False ap] r by auto
  have l: "complete 1 leaf" "path_complete 1 inner" "items_left inner @ ist_items leaf @ items_right inner = ist_items r"
    using s(2) by (auto simp: holds_def)
  obtain y where y: "item leaf 2 = Some y" using s(3) by (cases leaf) auto
  obtain leaf' ap2 where d: "delete_leaf leaf 2 False ap1 = Some (leaf', ap2)"
      "ist_items leaf = left_of leaf (2 - 1) @ y # right_of leaf (2 + 2)"
      "ist_items leaf' = left_of leaf (2 - 1) @ right_of leaf (2 + 2)" "complete 1 leaf'" "ap1 \<le> ap2" "ap2 \<le> ap1 + 8"
    using delete_leaf_ok [OF l(1) y, of False ap1] s(3) by auto
  have "left_of leaf 1 = []" by (cases leaf) auto
  then have "ist_items r = y # ist_items (plug leaf' inner)"
    using d(2,3) plug_items [OF l(2), of leaf'] l(3) s(4) by simp
  moreover have "complete n (plug leaf' inner)" using complete_plug [OF l(2) d(4)] s(5) by (simp add: add.commute)
  ultimately show ?thesis using s d y by auto
qed

lemma take_last:
  assumes c: "complete n l" and l: "NODE_TYPE l > 2"
  shows "\<exists>leaf inner ap1 y leaf' ap2. predecessor_loop l False [] ap = Some (leaf, inner, ap1) \<and> NODE_TYPE leaf > 2 \<and>
    item leaf (3 * NODE_TYPE leaf - 4) = Some y \<and>
    delete_leaf leaf (3 * NODE_TYPE leaf - 4) False ap1 = Some (leaf', ap2) \<and>
    ist_items l = ist_items (plug leaf' inner) @ [y] \<and> complete n (plug leaf' inner) \<and> ap \<le> ap2 \<and> ap2 + 19 \<le> ap + 27 * n"
proof -
  have "holds (ist_items l) n [] l" using c by (simp add: holds_def)
  then obtain leaf inner ap1 where s: "predecessor_loop l False [] ap = Some (leaf, inner, ap1)"
      "holds (ist_items l) 1 inner leaf" "NODE_TYPE leaf > 2" "items_right inner = []" "length inner + 1 = n"
      "ap \<le> ap1" "ap1 + 27 \<le> ap + 27 * n"
    using predecessor_loop_ok [of "ist_items l" n "[]" l False ap] l by auto
  let ?i = "3 * NODE_TYPE leaf - 4"
  have p: "complete 1 leaf" "path_complete 1 inner" "items_left inner @ ist_items leaf @ items_right inner = ist_items l"
    using s(2) by (auto simp: holds_def)
  obtain y where y: "item leaf ?i = Some y" and "right_of leaf (?i + 2) = []" using s(3) by (cases leaf) auto
  moreover obtain leaf' ap2 where d: "delete_leaf leaf ?i False ap1 = Some (leaf', ap2)"
      "ist_items leaf = left_of leaf (?i - 1) @ y # right_of leaf (?i + 2)"
      "ist_items leaf' = left_of leaf (?i - 1) @ right_of leaf (?i + 2)" "complete 1 leaf'" "ap1 \<le> ap2" "ap2 \<le> ap1 + 8"
    using delete_leaf_ok [OF p(1) y, of False ap1] s(3) by auto
  ultimately have "ist_items l = ist_items (plug leaf' inner) @ [y]"
    using plug_items [OF p(2), of leaf'] p(3) s(4) by simp
  moreover have "complete n (plug leaf' inner)" using complete_plug [OF p(2) d(4)] s(5) by (simp add: add.commute)
  ultimately show ?thesis using s d y by auto
qed

text \<open>When the key is taken out of a node with two sons of type 2, the join goes to its place.\<close>

lemma remove_frame:
  assumes "complete n p" and "item p i = Some x" and "path_complete n path" and "NODE_TYPE p = 2 \<Longrightarrow> path = []"
  shows "\<exists>path1 ap1. (if NODE_TYPE p > 2 then do {
             new_p \<leftarrow> remove_item p i NULL_IST;
             Some ((new_p, i - 1) # path, ap + (3 * NODE_TYPE p - 4)) }
           else Some (path, ap)) = Some (path1, ap1) \<and> path_complete (n - 1) path1 \<and> ap \<le> ap1 \<and> ap1 \<le> ap + 8 \<and>
    items_left path1 = items_left path @ left_of p (i - 1) \<and> items_right path1 = right_of p (i + 2) @ items_right path"
proof (cases "NODE_TYPE p > 2")
  case True
  obtain t where t: "remove_item p i NULL_IST = Some t" using remove_item_exists [OF assms(2) True] by blast
  have "n > 0" using assms(1) True by (cases p) auto
  moreover have "3 * NODE_TYPE p - 4 \<le> 8" by (cases p) simp_all
  ultimately show ?thesis using True t remove_item_ok(2,3) [OF t] remove_item_ok(5) [OF t assms(1)] assms(3) by auto
next
  case False
  then have "NODE_TYPE p = 2" using assms(2) by (cases p) auto
  moreover have "left_of p (i - 1) = []" "right_of p (i + 2) = []" using False assms(2) by (cases p; auto split: if_splits)+
  ultimately show ?thesis using assms(4) by auto
qed

lemma delete_internal_ok:
  assumes "complete n p" and "n \<ge> 2" and "path_complete n path" and "item p i = Some x"
    and "NODE_TYPE p = 2 \<Longrightarrow> path = []" and "left_of p (i + 2) = B @ [x]" and "right_of p (i - 1) = x # A"
  shows "\<exists>t ap' m. delete_internal p i copied path ap = Some (t, ap') \<and> complete m t \<and>
    ist_items t = items_left path @ B @ A @ items_right path \<and> ap \<le> ap' \<and> ap' \<le> ap + 27 * n"
  using assms
proof (induction n arbitrary: p i copied path ap x A B rule: less_induct)
  case (less n)
  note p = less.prems
  note step = delete_internal.simps [of p i copied path ap]
  from item_split [OF p(4,1,2)] obtain l r B' A' where lr: "subtree p (i - 1) = Some l" "subtree p (i + 2) = Some r"
    "complete (n - 1) l" "complete (n - 1) r" "B' = left_of p (i - 1) @ ist_items l" "A' = ist_items r @ right_of p (i + 2)"
    "l \<noteq> NULL_IST" "r \<noteq> NULL_IST" "right_of p (i - 1) = x # A'" "left_of p (i + 2) = B' @ [x]" .
  have [simp]: "B' = B" "A' = A" using lr(9,10) p(6,7) by auto
  let ?ap = "if copied then ap else ap + cell_size p"
  have room: "ap2 \<le> ap + 27 * n" "ap \<le> ap2" if "ap2 + 19 \<le> ?ap + 27 * (n - 1)" "?ap \<le> ap2" for ap2
    using that cell_size_le [of p] p(2) by (cases copied; simp)+
  show ?case
  proof (cases "NODE_TYPE r > 2")
    case r: True
    obtain leaf inner ap1 y leaf' ap2 where s: "successor_loop r False [] ?ap = Some (leaf, inner, ap1)" "NODE_TYPE leaf > 2"
        "item leaf 2 = Some y" "delete_leaf leaf 2 False ap1 = Some (leaf', ap2)"
        "ist_items r = y # ist_items (plug leaf' inner)" "complete (n - 1) (plug leaf' inner)" "?ap \<le> ap2"
        "ap2 + 19 \<le> ?ap + 27 * (n - 1)"
      using take_first [OF lr(4) r, of ?ap] by blast
    let ?t = "set_subtree (set_item p i y) (i + 2) (plug leaf' inner)"
    note t = change_right [OF p(4) lr(1) p(1) s(6), of y]
    have "delete_internal p i copied path ap = Some (plug ?t path, ap2)" using step p(4) lr(1,2) r s(1-4) by simp
    moreover have "ist_items (plug ?t path) = items_left path @ B @ A @ items_right path"
      using plug_items [OF p(3), of ?t] t(2) s(5) lr(5,6) by simp
    ultimately show ?thesis using complete_plug [OF p(3) t(1)] room [OF s(8,7)] by blast
  next
    case nr: False
    then have r2: "NODE_TYPE r = 2" using lr(8) by (cases r) auto
    show ?thesis
    proof (cases "NODE_TYPE l > 2")
      case l: True
      obtain leaf inner ap1 y leaf' ap2 where s: "predecessor_loop l False [] ?ap = Some (leaf, inner, ap1)" "NODE_TYPE leaf > 2"
          "item leaf (3 * NODE_TYPE leaf - 4) = Some y" "delete_leaf leaf (3 * NODE_TYPE leaf - 4) False ap1 = Some (leaf', ap2)"
          "ist_items l = ist_items (plug leaf' inner) @ [y]" "complete (n - 1) (plug leaf' inner)" "?ap \<le> ap2"
          "ap2 + 19 \<le> ?ap + 27 * (n - 1)"
        using take_last [OF lr(3) l, of ?ap] by blast
      let ?t = "set_subtree (set_item p i y) (i - 1) (plug leaf' inner)"
      note t = change_left [OF p(4) lr(2) p(1) s(6), of y]
      have "delete_internal p i copied path ap = Some (plug ?t path, ap2)"
        using step p(4) lr(1,2) nr l s(1-4) by simp
      moreover have "ist_items (plug ?t path) = items_left path @ B @ A @ items_right path"
        using plug_items [OF p(3), of ?t] t(2) s(5) lr(5,6) by simp
      ultimately show ?thesis using complete_plug [OF p(3) t(1)] room [OF s(8,7)] by blast
    next
      case nl: False
      then have l2: "NODE_TYPE l = 2" using lr(7) by (cases l) auto
      let ?xs = "items_left path @ B @ A @ items_right path"
      obtain path1 ap1 where p1: "(if NODE_TYPE p > 2 then do {
             new_p \<leftarrow> remove_item p i NULL_IST;
             Some ((new_p, i - 1) # path, ap + (3 * NODE_TYPE p - 4)) }
           else Some (path, ap)) = Some (path1, ap1)" "path_complete (n - 1) path1" "ap \<le> ap1" "ap1 \<le> ap + 8"
          "items_left path1 = items_left path @ left_of p (i - 1)" "items_right path1 = right_of p (i + 2) @ items_right path"
        using remove_frame [OF p(1,4,3,5), of ap] by blast
      have xs: "?xs = items_left path1 @ ist_items l @ ist_items r @ items_right path1"
        using p1(5,6) lr(5,6) by simp
      obtain j ap2 where j: "join_loop l r path1 ap1 = Some (j, ap2)" "join_ok ?xs (n - 1) ap1 (j, ap2)"
        using join_loop_ok [OF lr(3,4) l2 r2 p1(2) xs, of ap1] by auto
      have step': "delete_internal p i copied path ap = (case j of Joined t \<Rightarrow> Some (t, ap2)
          | Pair l' r' path2 \<Rightarrow> delete_internal (join4 l' x r') 5 True path2 (ap2 + 11))"
        by (subst step) (simp only: p(4) lr(1,2) nr nl p1(1) j(1) if_False bind.bind_lunit prod.case)
      show ?thesis
      proof (cases j)
        case (Joined t)
        then show ?thesis using step' j(2) p1(3,4) p(2) by auto
      next
        case jp: (Pair l' r' path2)
        obtain m where m: "complete m l'" "complete m r'" "path_complete m path2" "m \<ge> 2" "m \<le> n - 1"
            "NODE_TYPE l' = 2" "NODE_TYPE r' = 2"
            "items_left path2 @ ist_items l' @ ist_items r' @ items_right path2 = ?xs"
            "ap1 \<le> ap2" "ap2 + 8 * m \<le> ap1 + 8 * (n - 1)"
          using j(2) jp by auto
        note q = join4_ok [OF m(1,2,6,7,4), of x]
        have "m < n" using m(5) p(2) by simp
        then obtain t ap' m' where t: "delete_internal (join4 l' x r') 5 True path2 (ap2 + 11) = Some (t, ap')" "complete m' t"
            "ist_items t = ?xs" "ap2 + 11 \<le> ap'" "ap' \<le> ap2 + 11 + 27 * m"
          using less.IH [OF _ q(1) m(4,3) q(3) _ q(4,5), of True "ap2 + 11"] m(8) q(2) by auto
        have "ap2 + 11 + 27 * m \<le> ap + 27 * n" using m(5,10) p1(4) p(2) by linarith
        then show ?thesis using step' jp t m(9) p1(3) by auto
      qed
    qed
  qed
qed
section \<open>Deletion preserves the tree and removes the key\<close>

text \<open>What happens at the label \<^verbatim>\<open>delete_key\<close>, when a key is to be removed.\<close>

lemma delete_key_ok:
  assumes h: "holds xs n path p" and x: "item p i = Some x"
    and two: "NODE_TYPE p = 2 \<longrightarrow> path = [] \<and> \<not> copied"
  shows "\<exists>t ap' m B A. (if subtree p 1 = Some NULL_IST then do {
        (leaf, ap') \<leftarrow> delete_leaf p i (path = [] \<and> \<not> copied) ap;
        Some (plug leaf path, ap') }
      else if \<not> (path = [] \<and> \<not> copied \<or> NODE_TYPE p > 2) then None
      else delete_internal p i copied path ap) = Some (t, ap') \<and> complete m t \<and>
    xs = B @ x # A \<and> ist_items t = B @ A \<and> ap \<le> ap' \<and> ap' \<le> ap + 27 * n"
proof -
  have p: "complete n p" "path_complete n path" "xs = items_left path @ ist_items p @ items_right path"
    using h by (simp_all add: holds_def)
  obtain s where s: "subtree p 1 = Some s" using x by (cases p) auto
  have n: "n > 0" "complete (n - 1) s" using subtree_frame [OF s p(1)] by auto
  show ?thesis
  proof (cases "s = NULL_IST")
    case True
    then have n1: "n = 1" using complete_null [OF n(2)] n(1) by simp
    obtain leaf ap' where l: "delete_leaf p i (path = [] \<and> \<not> copied) ap = Some (leaf, ap')"
        "ist_items p = left_of p (i - 1) @ x # right_of p (i + 2)"
        "ist_items leaf = left_of p (i - 1) @ right_of p (i + 2)"
        "if NODE_TYPE p = 2 then leaf = NULL_IST else complete 1 leaf" "ap \<le> ap'" "ap' \<le> ap + 8"
      using delete_leaf_ok [of p i x "path = [] \<and> \<not> copied" ap] p(1) n1 x two by blast
    have "\<exists>m. complete m (plug leaf path)"
    proof (cases "NODE_TYPE p = 2")
      case True
      then show ?thesis using l(4) two by (auto intro!: exI [of _ 0])
    next
      case False
      then show ?thesis using l(4) complete_plug [of 1 path leaf] p(2) n1 by auto
    qed
    then obtain m where "complete m (plug leaf path)" ..
    moreover have "ist_items (plug leaf path) = (items_left path @ left_of p (i - 1)) @ right_of p (i + 2) @ items_right path"
      using plug_items [OF p(2), of leaf] l(3) by simp
    moreover have "xs = (items_left path @ left_of p (i - 1)) @ x # right_of p (i + 2) @ items_right path"
      using p(3) l(2) by simp
    ultimately show ?thesis using True s l(1,5,6) n1 by fastforce
  next
    case False
    then have n2: "n \<ge> 2" using complete_null [OF n(2)] n(1) by simp
    from item_split [OF x p(1) n2] obtain B A where BA: "ist_items p = B @ x # A" "right_of p (i - 1) = x # A"
        "left_of p (i + 2) = B @ [x]" .
    obtain t ap' m where t: "delete_internal p i copied path ap = Some (t, ap')" "complete m t"
        "ist_items t = items_left path @ B @ A @ items_right path" "ap \<le> ap'" "ap' \<le> ap + 27 * n"
      using delete_internal_ok [OF p(1) n2 p(2) x _ BA(3,2), of copied ap] two by blast
    have "path = [] \<and> \<not> copied \<or> NODE_TYPE p > 2" using two x by (cases p) auto
    moreover have "xs = (items_left path @ B) @ x # A @ items_right path" "ist_items t = (items_left path @ B) @ A @ items_right path"
      using p(3) BA(1) t(3) by simp_all
    ultimately show ?thesis using False s t(1,2,4,5) by fastforce
  qed
qed

definition deleted :: "('k \<Rightarrow> 'k \<Rightarrow> cmp_result_t) \<Rightarrow> 'k \<Rightarrow> 'k ist234 \<Rightarrow> 'k ist234 \<Rightarrow> bool" where
  "deleted cmp key root t \<longleftrightarrow>
    t = root \<and> (\<exists>B A. ist_items root = B @ A \<and> splits cmp key B A) \<or>
    (\<exists>B k d A. ist_items root = B @ (k, d) # A \<and> cmp key k = CMP_EQUAL \<and> ist_items t = B @ A)"

lemma delete_search:
  assumes cmp: "total_cmp cmp" and t: "complete h root" "increasing cmp (ist_items root)" and root: "root \<noteq> NULL_IST"
  obtains pos pt where "compare_keys cmp key root = Some pos" "delete_loop cmp key root pos False [] ap = Some pt"
    "delete_point_ok cmp key (ist_items root) h ap pt"
proof -
  obtain pos where pos: "compare_keys cmp key root = Some pos" "position_ok cmp key root pos"
    using compare_keys_ok [OF cmp root t(2)] by blast
  have "holds (ist_items root) h [] root" using t by (simp add: holds_def)
  then show thesis using delete_loop_ok [OF cmp t(2) _ pos(2), of h "[]" False ap] pos(1) that by (auto simp: splits_simps)
qed

lemma ist234_delete_ok:
  assumes cmp: "total_cmp cmp" and t: "complete h root" "increasing cmp (ist_items root)"
  shows "\<exists>t ap'. ist234_delete cmp None root key data ap = Some (t, ap') \<and> ist_valid cmp t \<and> deleted cmp key root t \<and>
    ap \<le> ap' \<and> ap' \<le> ap + 27 * h"
proof (cases "root = NULL_IST")
  case True
  then show ?thesis using t by (auto simp: ist234_delete_def ist_valid_def deleted_def splits_def)
next
  case False
  from delete_search [OF cmp t False, where key = key and ap = ap] obtain pos pt where
    pos: "compare_keys cmp key root = Some pos" and pt: "delete_loop cmp key root pos False [] ap = Some pt"
      "delete_point_ok cmp key (ist_items root) h ap pt" .
  show ?thesis
  proof (cases pt)
    case Root_unchanged
    then show ?thesis using pt pos False t by (auto simp: ist234_delete_def ist_valid_def deleted_def)
  next
    case (Delete_key p i copied path ap1)
    obtain m k d where m: "holds (ist_items root) m path p" "item p i = Some (k, d)" "cmp key k = CMP_EQUAL"
        "NODE_TYPE p = 2 \<longrightarrow> path = [] \<and> \<not> copied" "ap \<le> ap1" "ap1 + 27 * m \<le> ap + 27 * h"
      using pt(2) Delete_key by auto
    obtain t' ap' m' B A where r: "(if subtree p 1 = Some NULL_IST then do {
        (leaf, ap') \<leftarrow> delete_leaf p i (path = [] \<and> \<not> copied) ap1;
        Some (plug leaf path, ap') }
      else if \<not> (path = [] \<and> \<not> copied \<or> NODE_TYPE p > 2) then None
      else delete_internal p i copied path ap1) = Some (t', ap')" "complete m' t'"
        "ist_items root = B @ (k, d) # A" "ist_items t' = B @ A" "ap1 \<le> ap'" "ap' \<le> ap1 + 27 * m"
      using delete_key_ok [OF m(1,2,4), of ap1] by blast
    have "ist234_delete cmp None root key data ap = Some (t', ap')"
      using False pos pt(1) Delete_key r(1) by (simp add: ist234_delete_def)
    moreover have "ist_valid cmp t'" using r(2-4) t(2) by (auto simp: ist_valid_def)
    moreover have "deleted cmp key root t'" unfolding deleted_def using r(3,4) m(3) by blast
    ultimately show ?thesis using r(5,6) m(5,6) by auto
  qed
qed

lemma ist234_delete_update_ok:
  assumes cmp: "total_cmp cmp" and t: "complete h root" "increasing cmp (ist_items root)"
  shows "\<exists>t ap'. ist234_delete cmp (Some f) root key data ap = Some (t, ap') \<and> ist_valid cmp t \<and>
    (t = root \<and> ap' = ap \<and> (\<exists>B A. ist_items root = B @ A \<and> splits cmp key B A) \<or>
     (\<exists>B k d A. ist_items root = B @ (k, d) # A \<and> cmp key k = CMP_EQUAL \<and> ist_items t = B @ (k, f d data) # A)) \<and>
    ap \<le> ap' \<and> ap' \<le> ap + 27 * h + 11"
proof (cases "root = NULL_IST")
  case True
  then show ?thesis using t by (auto simp: ist234_delete_def ist_valid_def splits_def)
next
  case False
  from delete_search [OF cmp t False, where key = key and ap = ap] obtain pos pt where
    pos: "compare_keys cmp key root = Some pos" and pt: "delete_loop cmp key root pos False [] ap = Some pt"
      "delete_point_ok cmp key (ist_items root) h ap pt" .
  show ?thesis
  proof (cases pt)
    case Root_unchanged
    then show ?thesis using pt pos False t by (auto simp: ist234_delete_def ist_valid_def)
  next
    case (Delete_key p i copied path ap1)
    obtain m k d where m: "holds (ist_items root) m path p" "item p i = Some (k, d)" "cmp key k = CMP_EQUAL"
        "ap \<le> ap1" "ap1 + 27 * m \<le> ap + 27 * h"
      using pt(2) Delete_key by auto
    have p: "complete m p" "path_complete m path" "ist_items root = items_left path @ ist_items p @ items_right path"
      using m(1) by (simp_all add: holds_def)
    obtain B A where BA: "ist_items p = B @ (k, d) # A"
        "\<And>d'. ist_items (set_item p i (k, d')) = B @ (k, d') # A" "\<And>d'. complete m (set_item p i (k, d'))"
      using item_items [OF m(2) p(1)] by blast
    let ?ap = "if copied then ap1 else ap1 + cell_size p" and ?t = "plug (set_item p i (k, f d data)) path"
    have root: "ist_items root = (items_left path @ B) @ (k, d) # A @ items_right path" using p(3) BA(1) by simp
    have items: "ist_items ?t = (items_left path @ B) @ (k, f d data) # A @ items_right path"
      using plug_items [OF p(2)] BA(2) by simp
    show ?thesis
    proof (cases "d = f d data")
      case True
      then have "ist234_delete cmp (Some f) root key data ap = Some (root, ap1)"
        using False pos pt(1) Delete_key m(2) by (simp add: ist234_delete_def)
      moreover have "\<exists>B k d A. ist_items root = B @ (k, d) # A \<and> cmp key k = CMP_EQUAL \<and>
          ist_items root = B @ (k, f d data) # A"
        using root m(3) True by metis
      moreover have "ist_valid cmp root" using t by (auto simp: ist_valid_def)
      moreover have "ap \<le> ap1 \<and> ap1 \<le> ap + 27 * h + 11" using m(4,5) by simp
      ultimately show ?thesis by blast
    next
      case diff: False
      have "ist234_delete cmp (Some f) root key data ap = Some (?t, ?ap)"
        using False pos pt(1) Delete_key m(2) diff by (simp add: ist234_delete_def)
      moreover have "ist_valid cmp ?t"
        using complete_plug [OF p(2) BA(3)] t(2) items root by (auto simp: ist_valid_def)
      moreover have "ap \<le> ?ap \<and> ?ap \<le> ap + 27 * h + 11" using m(4,5) cell_size_le [of p] by auto
      moreover have "\<exists>B k d A. ist_items root = B @ (k, d) # A \<and> cmp key k = CMP_EQUAL \<and>
          ist_items ?t = B @ (k, f d data) # A"
        using root items m(3) by blast
      ultimately show ?thesis by blast
    qed
  qed
qed

end
