(* ===== verification/Ist234_Store.thy ===== *)
theory Ist234_Store
  imports Ist234_Delete
begin

text \<open>
  The 2-3-4 tree as a keyed store.  Its insertion keeps the contract of a map only for data that
  the tree does not hold yet, because of the word that its nilpotence test reads; so it provides the
  contract \<open>fresh_map\<close>.  The store is shown to fit its tables and the allocation bounds of
  \<^verbatim>\<open>ist234.h\<close> for less than 2^27 - 1 keys, that is for up to 26 levels; the cells of a larger tree
  and of its keys and data do not fit into a 32-bit address space.
\<close>

section \<open>The assertions of the tests\<close>

text \<open>\<^verbatim>\<open>make_assertions\<close> of the tests, on trees whose keys are cells of one word; that the cells have
  the right type is part of the type of the model.\<close>

fun make_assertions :: "word_t ist234 \<Rightarrow> nat \<Rightarrow> nat \<Rightarrow> bool" where
  "make_assertions NULL_IST max_level level \<longleftrightarrow> level = max_level"
| "make_assertions (Node2 s1 k1 d1 s2) max_level level \<longleftrightarrow>
    (if s1 = NULL_IST then s2 = NULL_IST else s2 \<noteq> NULL_IST) \<and>
    make_assertions s1 max_level (level + 1) \<and> make_assertions s2 max_level (level + 1)"
| "make_assertions (Node3 s1 k1 d1 s2 k2 d2 s3) max_level level \<longleftrightarrow>
    (if s1 = NULL_IST then s2 = NULL_IST \<and> s3 = NULL_IST else s2 \<noteq> NULL_IST \<and> s3 \<noteq> NULL_IST) \<and>
    make_assertions s1 max_level (level + 1) \<and> make_assertions s2 max_level (level + 1) \<and>
    k1 < k2 \<and> make_assertions s3 max_level (level + 1)"
| "make_assertions (Node4 s1 k1 d1 s2 k2 d2 s3 k3 d3 s4) max_level level \<longleftrightarrow>
    (if s1 = NULL_IST then s2 = NULL_IST \<and> s3 = NULL_IST \<and> s4 = NULL_IST
     else s2 \<noteq> NULL_IST \<and> s3 \<noteq> NULL_IST \<and> s4 \<noteq> NULL_IST) \<and>
    make_assertions s1 max_level (level + 1) \<and> make_assertions s2 max_level (level + 1) \<and>
    k1 < k2 \<and> make_assertions s3 max_level (level + 1) \<and> k2 < k3 \<and> make_assertions s4 max_level (level + 1)"

fun leftmost_level :: "'k ist234 \<Rightarrow> nat" where
  "leftmost_level NULL_IST = 0"
| "leftmost_level (Node2 s1 _ _ _) = leftmost_level s1 + 1"
| "leftmost_level (Node3 s1 _ _ _ _ _ _) = leftmost_level s1 + 1"
| "leftmost_level (Node4 s1 _ _ _ _ _ _ _ _ _) = leftmost_level s1 + 1"

definition ist234_make_assertions :: "word_t ist234 \<Rightarrow> bool" where
  "ist234_make_assertions node \<longleftrightarrow> make_assertions node (leftmost_level node) 0"

lemma complete_leftmost: "complete n p \<Longrightarrow> leftmost_level p = n"
proof (induction p arbitrary: n)
  case (Node2 s1 k1 d1 s2)
  then show ?case using Node2.IH(1) [of "n - 1"] by auto
next
  case (Node3 s1 k1 d1 s2 k2 d2 s3)
  then show ?case using Node3.IH(1) [of "n - 1"] by auto
next
  case (Node4 s1 k1 d1 s2 k2 d2 s3 k3 d3 s4)
  then show ?case using Node4.IH(1) [of "n - 1"] by auto
qed simp

lemma item_cmp_less: "item_cmp a b = CMP_LESS \<longleftrightarrow> a < b"
  by (auto simp: item_cmp_def)

lemma valid_assertions:
  "complete n p \<Longrightarrow> increasing item_cmp (ist_items p) \<Longrightarrow> make_assertions p (n + level) level"
proof (induction p arbitrary: n level)
  case (Node2 s1 k1 d1 s2)
  then have n: "n - 1 + Suc level = n + level" and c: "complete (n - 1) s1" "complete (n - 1) s2" by auto
  then show ?case
    using Node2.IH [of "n - 1" "Suc level"] Node2.prems c [THEN complete_null] by simp
next
  case (Node3 s1 k1 d1 s2 k2 d2 s3)
  then have n: "n - 1 + Suc level = n + level" and c: "complete (n - 1) s1" "complete (n - 1) s2" "complete (n - 1) s3"
    by auto
  then show ?case
    using Node3.IH [of "n - 1" "Suc level"] Node3.prems c [THEN complete_null] by (simp add: item_cmp_less)
next
  case (Node4 s1 k1 d1 s2 k2 d2 s3 k3 d3 s4)
  then have n: "n - 1 + Suc level = n + level"
    and c: "complete (n - 1) s1" "complete (n - 1) s2" "complete (n - 1) s3" "complete (n - 1) s4" by auto
  then show ?case
    using Node4.IH [of "n - 1" "Suc level"] Node4.prems c [THEN complete_null] by (simp add: item_cmp_less)
qed simp

section \<open>The 2-3-4 tree as a store\<close>

lemma height_bound:
  assumes "complete h t" and "length (ist_items t) < 2 ^ m - 1"
  shows "h < m"
proof (rule ccontr)
  assume "\<not> h < m"
  then have "(2 :: nat) ^ m - 1 \<le> 2 ^ h - 1" by (intro diff_le_mono) simp
  then show False using complete_size [OF assms(1)] assms(2) by simp
qed

lemma inserted_fresh:
  assumes "inserted cmp None key d root t" and "d \<notin> ist_data root" and cmp: "total_cmp cmp"
    and "increasing cmp (ist_items root)"
  shows "length (ist_items t) \<le> Suc (length (ist_items root))"
    and "assoc cmp (ist_items t) x = (if cmp x key = CMP_EQUAL then d else assoc cmp (ist_items root) x)"
    and "ist_data t \<subseteq> insert d (ist_data root)"
proof -
  consider (new) B A where "ist_items root = B @ A" "splits cmp key B A" "ist_items t = B @ (key, d) # A"
    | (old) B k old A where "ist_items root = B @ (k, old) # A" "cmp key k = CMP_EQUAL" "ist_items t = B @ (k, d) # A"
    using assms(1,2) unfolding inserted_def updated_None by blast
  then have "length (ist_items t) \<le> Suc (length (ist_items root)) \<and>
    assoc cmp (ist_items t) x = (if cmp x key = CMP_EQUAL then d else assoc cmp (ist_items root) x) \<and>
    ist_data t \<subseteq> insert d (ist_data root)"
  proof cases
    case new
    then show ?thesis using assoc_insert [OF cmp new(2), of d x] by auto
  next
    case old
    then show ?thesis using assoc_update [OF cmp old(2), of B old A d x] assms(4) by auto
  qed
  then show "length (ist_items t) \<le> Suc (length (ist_items root))"
    and "assoc cmp (ist_items t) x = (if cmp x key = CMP_EQUAL then d else assoc cmp (ist_items root) x)"
    and "ist_data t \<subseteq> insert d (ist_data root)" by blast+
qed

lemma deleted_items:
  assumes "deleted cmp key root t" and cmp: "total_cmp cmp" and "increasing cmp (ist_items root)"
  shows "length (ist_items t) \<le> length (ist_items root)"
    and "assoc cmp (ist_items t) x = (if cmp x key = CMP_EQUAL then NULL_WORD else assoc cmp (ist_items root) x)"
    and "ist_data t \<subseteq> ist_data root"
proof -
  consider (none) B A where "t = root" "ist_items root = B @ A" "splits cmp key B A"
    | (one) B k d A where "ist_items root = B @ (k, d) # A" "cmp key k = CMP_EQUAL" "ist_items t = B @ A"
    using assms(1) unfolding deleted_def by blast
  then have "length (ist_items t) \<le> length (ist_items root) \<and>
    assoc cmp (ist_items t) x = (if cmp x key = CMP_EQUAL then NULL_WORD else assoc cmp (ist_items root) x) \<and>
    ist_data t \<subseteq> ist_data root"
  proof cases
    case none
    have "assoc cmp (ist_items root) key = NULL_WORD"
      using splits_outside [OF cmp none(3)] none(2) by (intro assoc_absent) auto
    then show ?thesis using none(1) assoc_equal_keys [OF cmp, of x key] by auto
  next
    case one
    then show ?thesis using assoc_remove [OF cmp one(2), of B d A x] assms(3) by auto
  qed
  then show "length (ist_items t) \<le> length (ist_items root)"
    and "assoc cmp (ist_items t) x = (if cmp x key = CMP_EQUAL then NULL_WORD else assoc cmp (ist_items root) x)"
    and "ist_data t \<subseteq> ist_data root" by blast+
qed

definition ist_fits :: "nat \<Rightarrow> bool" where
  "ist_fits n \<longleftrightarrow> n < 2 ^ 27 - 1"

sublocale ordered_items \<subseteq> ist: fresh_map "\<lambda>k' k. cmp k' k = CMP_EQUAL" NULL_IST "ist234_find cmp"
  "\<lambda>t k d. ist234_insert cmp None t k d" "\<lambda>t k. ist234_delete cmp None t k NULL_WORD" "ist_valid cmp"
  "\<lambda>t. length (ist_items t)" ist_data ist_fits IST234_MAX_ALLOCATION_IN_INSERT IST234_MAX_ALLOCATION_IN_DELETE
proof
  show "ist_valid cmp NULL_IST" by (auto simp: ist_valid_def)
  show "\<exists>t' ap'. ist234_insert cmp None t k d ap = Some (t', ap') \<and> ist_valid cmp t' \<and>
      length (ist_items t') \<le> Suc (length (ist_items t)) \<and>
      (\<forall>k'. ist234_find cmp t' k' = (if cmp k' k = CMP_EQUAL then d else ist234_find cmp t k')) \<and>
      ist_data t' \<subseteq> insert d (ist_data t) \<and> ap \<le> ap' \<and> ap' \<le> ap + IST234_MAX_ALLOCATION_IN_INSERT"
    if v: "ist_valid cmp t" "ist_fits (length (ist_items t))" and d: "d \<notin> ist_data t" for t k d ap
  proof -
    obtain h where h: "complete h t" "increasing cmp (ist_items t)" using v(1) by (auto simp: ist_valid_def)
    have h26: "h < 27" using height_bound [OF h(1)] v(2) by (simp add: ist_fits_def)
    obtain t' ap' where t': "ist234_insert cmp None t k d ap = Some (t', ap')" "ist_valid cmp t'"
        "inserted cmp None k d t t'" "ap \<le> ap'" "ap' \<le> ap + 13 * h + 5"
      using ist234_insert_ok [OF total h, of None k d ap] h26 by (auto simp: MAX_PATH_def)
    have "increasing cmp (ist_items t')" using t'(2) by (simp add: ist_valid_def)
    then show ?thesis
      using t' inserted_fresh [OF t'(3) d total h(2)] find_assoc [OF total] h(2) h26
      by (auto simp: IST234_MAX_ALLOCATION_IN_INSERT_def)
  qed
  show "\<exists>t' ap'. ist234_delete cmp None t k NULL_WORD ap = Some (t', ap') \<and> ist_valid cmp t' \<and>
      length (ist_items t') \<le> length (ist_items t) \<and>
      (\<forall>k'. ist234_find cmp t' k' = (if cmp k' k = CMP_EQUAL then NULL_WORD else ist234_find cmp t k')) \<and>
      ist_data t' \<subseteq> ist_data t \<and> ap \<le> ap' \<and> ap' \<le> ap + IST234_MAX_ALLOCATION_IN_DELETE"
    if v: "ist_valid cmp t" "ist_fits (length (ist_items t))" for t k ap
  proof -
    obtain h where h: "complete h t" "increasing cmp (ist_items t)" using v(1) by (auto simp: ist_valid_def)
    have h26: "h < 27" using height_bound [OF h(1)] v(2) by (simp add: ist_fits_def)
    obtain t' ap' where t': "ist234_delete cmp None t k NULL_WORD ap = Some (t', ap')" "ist_valid cmp t'"
        "deleted cmp k t t'" "ap \<le> ap'" "ap' \<le> ap + 27 * h"
      using ist234_delete_ok [OF total h, of k NULL_WORD ap] by blast
    have "increasing cmp (ist_items t')" using t'(2) by (simp add: ist_valid_def)
    then show ?thesis
      using t' deleted_items [OF t'(3) total h(2)] find_assoc [OF total] h(2) h26
      by (auto simp: IST234_MAX_ALLOCATION_IN_DELETE_def)
  qed
qed simp_all

context ordered_items
begin

lemma ist_run:
  assumes "fresh_puts {} ops" and "ist_fits (length ops)"
  shows "\<exists>t ap'. map_run (\<lambda>t k d. ist234_insert cmp None t k d) (\<lambda>t k. ist234_delete cmp None t k NULL_WORD) ops
      NULL_IST ap = Some (t, ap') \<and> ist_valid cmp t \<and>
    (\<forall>k. ist234_find cmp t k = map_spec (\<lambda>k' k. cmp k' k = CMP_EQUAL) ops (\<lambda>_. NULL_WORD) k) \<and>
    ap' \<le> ap + length ops * IST234_MAX_ALLOCATION_IN_DELETE"
  using ist.fresh_run_from_null [of ops ap] assms
  by (simp add: ist_fits_def IST234_MAX_ALLOCATION_IN_DELETE_def IST234_MAX_ALLOCATION_IN_INSERT_def)

end

section \<open>Properties\<close>

text \<open>C18. Every sequence of fewer than \<open>2^27 - 1\<close> insertions of fresh data and deletions on the 2-3-4 tree,
  from the empty tree and for every ordering comparison function, fails no assertion, stays inside the
  table of 32 path entries, leaves a tree in which every lookup finds what a map would hold, and
  allocates in all at most \<^verbatim>\<open>IST234_MAX_ALLOCATION_IN_DELETE\<close> words times its length
  (\<open>ist234_step_invariant\<close> bounds each operation).\<close>

theorem ist234_run_correct:
  assumes "total_cmp cmp" and "fresh_puts {} ops" and "length ops < 2 ^ 27 - 1"
  shows "\<exists>t ap'. map_run (\<lambda>t k d. ist234_insert cmp None t k d) (\<lambda>t k. ist234_delete cmp None t k NULL_WORD) ops
      NULL_IST ap = Some (t, ap') \<and>
    (\<forall>k. ist234_find cmp t k = map_spec (\<lambda>k' k. cmp k' k = CMP_EQUAL) ops (\<lambda>_. NULL_WORD) k) \<and>
    ap' \<le> ap + length ops * IST234_MAX_ALLOCATION_IN_DELETE"
  using ordered_items.ist_run [OF ordered_items.intro [OF assms(1)] assms(2), of ap] assms(3)
  unfolding ist_fits_def by blast

theorem ist234_run_correct_witness:
  "\<exists>t ap'. map_run (\<lambda>t k d. ist234_insert item_cmp None t k d) (\<lambda>t k. ist234_delete item_cmp None t k NULL_WORD)
      [Put 5 11, Put 7 12, Put 3 13, Put 9 14, Remove 7, Put 7 15, Remove 1] NULL_IST 0 = Some (t, ap') \<and>
    (\<forall>k. ist234_find item_cmp t k = map_spec (\<lambda>k' k. item_cmp k' k = CMP_EQUAL)
      [Put 5 11, Put 7 12, Put 3 13, Put 9 14, Remove 7, Put 7 15, Remove 1] (\<lambda>_. NULL_WORD) k) \<and>
    ap' \<le> 0 + length [Put 5 11, Put 7 12, Put 3 13, Put 9 14, Remove 7, Put 7 15, Remove 1 :: word_t map_op] *
      IST234_MAX_ALLOCATION_IN_DELETE"
  by (rule ist234_run_correct) (simp_all add: total_item_cmp)

text \<open>C19. Both operations keep the tree balanced (every leaf at the same depth) and its keys in
  increasing order, and the assertions of the tests hold of every such tree.  An insertion allocates
  at most 13 words per level and 5 more, a deletion at most 27 words per level.\<close>

theorem ist234_step_invariant:
  assumes "complete h t" and "increasing item_cmp (ist_items t)" and "h \<le> MAX_PATH"
  shows "ist234_make_assertions t \<and>
    (\<exists>t' ap'. ist234_insert item_cmp f t k d ap = Some (t', ap') \<and> ist234_make_assertions t' \<and>
      (\<exists>h'. complete h' t') \<and> increasing item_cmp (ist_items t') \<and> ap' \<le> ap + 13 * h + 5) \<and>
    (\<exists>t' ap'. ist234_delete item_cmp None t k d ap = Some (t', ap') \<and> ist234_make_assertions t' \<and>
      (\<exists>h'. complete h' t') \<and> increasing item_cmp (ist_items t') \<and> ap' \<le> ap + 27 * h)"
proof -
  have a: "ist234_make_assertions t'" if "complete h' t'" "increasing item_cmp (ist_items t')" for t' h'
    using valid_assertions [OF that, of 0] complete_leftmost [OF that(1)] by (simp add: ist234_make_assertions_def)
  show ?thesis
    using a [OF assms(1,2)] a ist234_insert_ok [OF total_item_cmp assms, of f k d ap]
      ist234_delete_ok [OF total_item_cmp assms(1,2), of k d ap]
    unfolding ist_valid_def by metis
qed

theorem ist234_step_invariant_witness:
  "ist234_make_assertions (Node2 NULL_IST 4 1 NULL_IST) \<and>
    (\<exists>t' ap'. ist234_insert item_cmp None (Node2 NULL_IST 4 1 NULL_IST) 6 2 0 = Some (t', ap') \<and>
      ist234_make_assertions t' \<and>
      (\<exists>h'. complete h' t') \<and> increasing item_cmp (ist_items t') \<and> ap' \<le> 0 + 13 * 1 + 5) \<and>
    (\<exists>t' ap'. ist234_delete item_cmp None (Node2 NULL_IST 4 1 NULL_IST) 6 2 0 = Some (t', ap') \<and>
      ist234_make_assertions t' \<and>
      (\<exists>h'. complete h' t') \<and> increasing item_cmp (ist_items t') \<and> ap' \<le> 0 + 27 * 1)"
  by (rule ist234_step_invariant) (simp_all add: MAX_PATH_def)

text \<open>C20. The nilpotence test of \<^verbatim>\<open>ist234_insert\<close> compares with the wrong word: when the key is the
  second key of its node and the new data is the data of the first key of that node, the insertion
  returns the old root, and a lookup still finds the old data.\<close>

theorem ist234_insert_loses_update:
  assumes "cmp key k1 = CMP_GREATER" and "cmp key k2 = CMP_EQUAL" and "d1 \<noteq> d2"
  shows "ist234_insert cmp None (Node3 s1 k1 d1 s2 k2 d2 s3) key d1 ap = Some (Node3 s1 k1 d1 s2 k2 d2 s3, ap) \<and>
    ist234_find cmp (Node3 s1 k1 d1 s2 k2 d2 s3) key \<noteq> d1"
  using assms by (simp add: ist234_insert_def compared_index_def)

theorem ist234_insert_loses_update_witness:
  "ist234_insert item_cmp None (Node3 NULL_IST 2 21 NULL_IST 5 51 NULL_IST) 5 21 0 =
      Some (Node3 NULL_IST 2 21 NULL_IST 5 51 NULL_IST, 0) \<and>
    ist234_find item_cmp (Node3 NULL_IST 2 21 NULL_IST 5 51 NULL_IST) 5 \<noteq> 21"
  by (rule ist234_insert_loses_update) (simp_all add: item_cmp_def)

text \<open>A \<^verbatim>\<open>delete_fun\<close> that gives back the data of the key makes \<^verbatim>\<open>ist234_delete\<close> return the root it was
  given, but without the restoration of the allocation point that the comment promises: the cells
  that were copied on the way down stay allocated.\<close>

theorem ist234_delete_keeps_copies:
  assumes "cmp key k = CMP_LESS" and "cmp key k1 = CMP_EQUAL" and "f d1 data = d1"
  shows "ist234_delete cmp (Some f) (Node2 (Node3 s1 k1 d1 s2 k2 d2 s3) k d r) key data ap =
    Some (Node2 (Node3 s1 k1 d1 s2 k2 d2 s3) k d r, ap + 5)"
  using assms by (simp add: ist234_delete_def delete_loop.simps Let_def cell_size_def)

theorem ist234_delete_keeps_copies_witness:
  "ist234_delete item_cmp (Some (\<lambda>old data. old))
      (Node2 (Node3 NULL_IST 1 10 NULL_IST 3 30 NULL_IST) 5 50 (Node2 NULL_IST 7 70 NULL_IST)) 1 99 0 =
    Some (Node2 (Node3 NULL_IST 1 10 NULL_IST 3 30 NULL_IST) 5 50 (Node2 NULL_IST 7 70 NULL_IST), 0 + 5)"
  by (rule ist234_delete_keeps_copies) (simp_all add: item_cmp_def)

end
