(* ===== verification/Trie_Keys.thy ===== *)
theory Trie_Keys
  imports Bitops
begin

text \<open>
  Keys of the tries as sequences of quaternary digits.  The code shifts a key to the upper end of a
  word and takes two bits from there per node, or more when the node has a common prefix.
\<close>

section \<open>The digits of a key\<close>

definition key_digit :: "word_t \<Rightarrow> nat" where
  "key_digit key = unat (drop_bit 30 key)"

fun digits :: "nat \<Rightarrow> word_t \<Rightarrow> nat list" where
  "digits 0 key = []"
| "digits (Suc n) key = key_digit key # digits n (push_bit 2 key)"

text \<open>The digits of a prefix of \<open>m\<close> digits, which is kept at the lower end of a word.\<close>

definition prefix_digits :: "nat \<Rightarrow> word_t \<Rightarrow> nat list" where
  "prefix_digits m prefix = digits m (push_bit (32 - 2 * m) prefix)"

lemma length_digits [simp]: "length (digits n key) = n"
  by (induction n arbitrary: key) auto

lemma length_prefix_digits [simp]: "length (prefix_digits n key) = n"
  by (simp add: prefix_digits_def)

lemma key_digit_less: "key_digit key < 4"
proof -
  have "unat key < 2 ^ 32" using unsigned_less [of key] by simp
  then show ?thesis by (simp add: key_digit_def unat_drop)
qed

lemma digits_less: "d \<in> set (digits n key) \<Longrightarrow> d < 4"
  by (induction n arbitrary: key) (auto simp: key_digit_less)

lemma digits_add: "digits (m + n) key = digits m key @ digits n (push_bit (2 * m) key)"
proof (induction m arbitrary: key)
  case (Suc m)
  have "push_bit (2 * m) (push_bit 2 key) = push_bit (2 * Suc m) key" by (simp add: push_bit_push_bit)
  then show ?case using Suc by simp
qed simp

lemma take_digits: "m \<le> n \<Longrightarrow> take m (digits n key) = digits m key"
  and drop_digits: "m \<le> n \<Longrightarrow> drop m (digits n key) = digits (n - m) (push_bit (2 * m) key)"
  using digits_add [of m "n - m" key] by simp_all

lemma nth_digits: "i < n \<Longrightarrow> digits n key ! i = key_digit (push_bit (2 * i) key)"
proof -
  assume "i < n"
  then have "digits n key = digits i key @ digits (Suc (n - Suc i)) (push_bit (2 * i) key)"
    using digits_add [of i "Suc (n - Suc i)" key] by simp
  then show ?thesis by (simp add: nth_append)
qed

text \<open>The value of a sequence of digits.\<close>

fun val4 :: "nat list \<Rightarrow> nat" where
  "val4 [] = 0"
| "val4 (d # ds) = d * 4 ^ length ds + val4 ds"

lemma val4_append: "val4 (xs @ ys) = val4 xs * 4 ^ length ys + val4 ys"
  by (induction xs) (auto simp: power_add algebra_simps)

lemma val4_less: "\<forall>d \<in> set ds. d < 4 \<Longrightarrow> val4 ds < 4 ^ length ds"
proof (induction ds)
  case (Cons d ds)
  then have "d * 4 ^ length ds \<le> 3 * 4 ^ length ds" by (intro mult_le_mono1) auto
  moreover have "val4 ds < 4 ^ length ds" using Cons by simp
  ultimately have "d * 4 ^ length ds + val4 ds < 4 * 4 ^ length ds" by linarith
  then show ?case by simp
qed simp

lemma val4_inject:
  assumes "length xs = length ys" and "\<forall>d \<in> set xs. d < 4" and "\<forall>d \<in> set ys. d < 4" and "val4 xs = val4 ys"
  shows "xs = ys"
  using assms
proof (induction xs ys rule: list_induct2)
  case (Cons x xs y ys)
  let ?n = "(4 :: nat) ^ length xs"
  have l: "val4 xs < ?n" "val4 ys < ?n" using val4_less [of xs] val4_less [of ys] Cons.hyps Cons.prems by auto
  have e: "x * ?n + val4 xs = y * ?n + val4 ys" using Cons.prems(3) Cons.hyps by simp
  then have "(x * ?n + val4 xs) div ?n = (y * ?n + val4 ys) div ?n" by simp
  then have "x = y" using l by simp
  then show ?case using e Cons by simp
qed simp

lemma four_power: "(4 :: nat) ^ m = 2 ^ (2 * m)"
  by (simp add: power_mult)

lemma unat_push: "unat (push_bit k (x :: word_t)) = unat x * 2 ^ k mod 2 ^ 32"
  unfolding unsigned_push_bit_eq take_bit_eq_mod push_bit_eq_mult [of k "unat x"] by simp

lemma val4_digits: "m \<le> 16 \<Longrightarrow> val4 (digits m key) = unat key div 2 ^ (32 - 2 * m)"
proof (induction m arbitrary: key)
  case 0
  have "unat key < 2 ^ 32" using unsigned_less [of key] by simp
  then show ?case by simp
next
  case (Suc m)
  let ?U = "unat key" and ?k = "30 - 2 * m"
  define d r where "d = ?U div 2 ^ 30" and "r = ?U mod 2 ^ 30"
  have U: "?U = d * 2 ^ 30 + r" "r < 2 ^ 30" by (simp_all add: d_def r_def)
  have k: "2 * m + ?k = 30" "32 - 2 * m = ?k + 2" using Suc.prems by simp_all
  have p30: "(2 :: nat) ^ 30 = 4 ^ m * 2 ^ ?k" unfolding four_power power_add [symmetric] k(1) ..
  have "unat (push_bit 2 key) = (4 * ?U) mod 2 ^ 32" unfolding unat_push by (simp add: mult.commute)
  also have "\<dots> = 4 * r" unfolding U(1) using U(2) by (simp add: mod_mult_self3 mult.assoc [symmetric])
  finally have "val4 (digits m (push_bit 2 key)) = (4 * r) div 2 ^ (?k + 2)" using Suc k(2) by simp
  also have "\<dots> = r div 2 ^ ?k" by (simp add: power_add mult.commute)
  finally have "val4 (digits (Suc m) key) = d * 4 ^ m + r div 2 ^ ?k"
    by (simp add: key_digit_def unat_drop d_def)
  also have "\<dots> = (d * 4 ^ m * 2 ^ ?k + r) div 2 ^ ?k" by simp
  also have "\<dots> = ?U div 2 ^ ?k" using U(1) p30 by (simp add: mult.assoc)
  finally show ?case by simp
qed

lemma digits_inject: "m \<le> 16 \<Longrightarrow> digits m a = digits m b \<longleftrightarrow> drop_bit (32 - 2 * m) a = drop_bit (32 - 2 * m) b"
proof -
  assume m: "m \<le> 16"
  have "digits m a = digits m b \<longleftrightarrow> val4 (digits m a) = val4 (digits m b)"
    using val4_inject [of "digits m a" "digits m b"] digits_less by auto
  then show ?thesis using m by (simp add: val4_digits word_unat_eq_iff unat_drop)
qed

lemma val4_prefix_digits:
  assumes "unat prefix < 4 ^ m" and "m \<le> 16"
  shows "val4 (prefix_digits m prefix) = unat prefix"
proof -
  have e: "(4 :: nat) ^ m * 2 ^ (32 - 2 * m) = 2 ^ 32"
    unfolding four_power power_add [symmetric] using assms(2) by simp
  then have "unat prefix * 2 ^ (32 - 2 * m) < 2 ^ 32"
    using assms(1) by (metis mult_less_cancel2 zero_less_numeral zero_less_power)
  then show ?thesis using assms(2)
    by (simp add: prefix_digits_def val4_digits unat_push)
qed

text \<open>The comparison of a prefix with the upper bits of a key.\<close>

lemma prefix_matches:
  assumes "unat prefix < 4 ^ m" and "m \<le> 16"
  shows "prefix = drop_bit (32 - 2 * m) key \<longleftrightarrow> prefix_digits m prefix = digits m key"
proof -
  have "prefix_digits m prefix = digits m key \<longleftrightarrow> val4 (prefix_digits m prefix) = val4 (digits m key)"
    using val4_inject [of "prefix_digits m prefix" "digits m key"] digits_less by (auto simp: prefix_digits_def)
  then show ?thesis
    using val4_prefix_digits [OF assms] assms(2)
    by (simp add: val4_digits word_unat_eq_iff unat_drop)
qed
end
