(* ===== verification/Triev2.thy ===== *)
theory Triev2
  imports Trie_Keys Map_Interface Item_Lists
begin

text \<open>
  The quaternary tries of \<^verbatim>\<open>triev2.c\<close>.  A node has up to four sons, one per value of the next two bits
  of the key; its cell type tells which sons it has, and the cell holds only those.  The low 24 bits
  of the first word of a node are its \<open>header\<close>: the length of a common prefix of all keys below it and
  the prefix itself.  The tables of the code are kept as lists.  \<open>None\<close> as the result of an operation
  is a failed assertion, or a read outside of a cell or through a word that is no pointer.
\<close>

section \<open>Cells and tables\<close>

datatype trie_cell =
    CELL_trie1234 | CELL_trie123 | CELL_trie124 | CELL_trie12 | CELL_trie134 | CELL_trie13 | CELL_trie14
  | CELL_trie1 | CELL_trie234 | CELL_trie23 | CELL_trie24 | CELL_trie2 | CELL_trie34 | CELL_trie3 | CELL_trie4

text \<open>\<^verbatim>\<open>CELL_TYPE(p) - CELL_trie1234\<close>.\<close>

fun cell_index :: "trie_cell \<Rightarrow> nat" where
  "cell_index CELL_trie1234 = 0"
| "cell_index CELL_trie123 = 1"
| "cell_index CELL_trie124 = 2"
| "cell_index CELL_trie12 = 3"
| "cell_index CELL_trie134 = 4"
| "cell_index CELL_trie13 = 5"
| "cell_index CELL_trie14 = 6"
| "cell_index CELL_trie1 = 7"
| "cell_index CELL_trie234 = 8"
| "cell_index CELL_trie23 = 9"
| "cell_index CELL_trie24 = 10"
| "cell_index CELL_trie2 = 11"
| "cell_index CELL_trie34 = 12"
| "cell_index CELL_trie3 = 13"
| "cell_index CELL_trie4 = 14"

definition triev2_offset :: "trie_cell \<Rightarrow> nat \<Rightarrow> nat" where
  "triev2_offset ct b =
    [[1, 2, 3, 4],
     [1, 2, 3, 0],
     [1, 2, 0, 3],
     [1, 2, 0, 0],
     [1, 0, 2, 3],
     [1, 0, 2, 0],
     [1, 0, 0, 2],
     [1, 0, 0, 0],
     [0, 1, 2, 3],
     [0, 1, 2, 0],
     [0, 1, 0, 2],
     [0, 1, 0, 0],
     [0, 0, 1, 2],
     [0, 0, 1, 0],
     [0, 0, 0, 1]]
    ! cell_index ct ! b"

definition greatest_non_null :: "trie_cell \<Rightarrow> nat \<Rightarrow> nat" where
  "greatest_non_null ct b =
    [[0, 1, 2, 3, 4],
     [0, 1, 2, 3, 3],
     [0, 1, 2, 2, 3],
     [0, 1, 2, 2, 2],
     [0, 1, 1, 2, 3],
     [0, 1, 1, 2, 2],
     [0, 1, 1, 1, 2],
     [0, 1, 1, 1, 1],
     [0, 0, 1, 2, 3],
     [0, 0, 1, 2, 2],
     [0, 0, 1, 1, 2],
     [0, 0, 1, 1, 1],
     [0, 0, 0, 1, 2],
     [0, 0, 0, 1, 1],
     [0, 0, 0, 0, 1]]
    ! cell_index ct ! b"

definition deoffset :: "trie_cell \<Rightarrow> nat \<Rightarrow> nat" where
  "deoffset ct i =
    [[0, 1, 2, 3],
     [0, 1, 2, 255],
     [0, 1, 3, 255],
     [0, 1, 255, 255],
     [0, 2, 3, 255],
     [0, 2, 255, 255],
     [0, 3, 255, 255],
     [0, 255, 255, 255],
     [1, 2, 3, 255],
     [1, 2, 255, 255],
     [1, 3, 255, 255],
     [1, 255, 255, 255],
     [2, 3, 255, 255],
     [2, 255, 255, 255],
     [3, 255, 255, 255]]
    ! cell_index ct ! i"

definition first_nonexistent_key :: "trie_cell \<Rightarrow> word_t" where
  "first_nonexistent_key ct = [255, 3, 2, 2, 1, 1, 1, 1, 0, 0, 0, 0, 0, 0, 0] ! cell_index ct"

definition uni_cell_type :: "nat \<Rightarrow> trie_cell" where
  "uni_cell_type b = [CELL_trie1, CELL_trie2, CELL_trie3, CELL_trie4] ! b"

text \<open>\<open>None\<close> is \<^verbatim>\<open>CELL_bonk\<close>.\<close>

definition bi_cell_type :: "nat \<Rightarrow> nat \<Rightarrow> trie_cell option" where
  "bi_cell_type a b =
    [[None, Some CELL_trie12, Some CELL_trie13, Some CELL_trie14],
     [Some CELL_trie12, None, Some CELL_trie23, Some CELL_trie24],
     [Some CELL_trie13, Some CELL_trie23, None, Some CELL_trie34],
     [Some CELL_trie14, Some CELL_trie24, Some CELL_trie34, None]]
    ! a ! b"

definition cell_type_without :: "trie_cell \<Rightarrow> nat \<Rightarrow> trie_cell option" where
  "cell_type_without ct b =
    [[Some CELL_trie234, Some CELL_trie134, Some CELL_trie124, Some CELL_trie123],
     [Some CELL_trie23, Some CELL_trie13, Some CELL_trie12, Some CELL_trie123],
     [Some CELL_trie24, Some CELL_trie14, Some CELL_trie124, Some CELL_trie12],
     [Some CELL_trie2, Some CELL_trie1, Some CELL_trie12, Some CELL_trie12],
     [Some CELL_trie34, Some CELL_trie134, Some CELL_trie14, Some CELL_trie13],
     [Some CELL_trie3, Some CELL_trie13, Some CELL_trie1, Some CELL_trie13],
     [Some CELL_trie4, Some CELL_trie14, Some CELL_trie14, Some CELL_trie1],
     [None, Some CELL_trie1, Some CELL_trie1, Some CELL_trie1],
     [Some CELL_trie234, Some CELL_trie34, Some CELL_trie24, Some CELL_trie23],
     [Some CELL_trie23, Some CELL_trie3, Some CELL_trie2, Some CELL_trie23],
     [Some CELL_trie24, Some CELL_trie4, Some CELL_trie24, Some CELL_trie2],
     [Some CELL_trie2, None, Some CELL_trie2, Some CELL_trie2],
     [Some CELL_trie34, Some CELL_trie34, Some CELL_trie4, Some CELL_trie3],
     [Some CELL_trie3, Some CELL_trie3, None, Some CELL_trie3],
     [Some CELL_trie4, Some CELL_trie4, Some CELL_trie4, None]]
    ! cell_index ct ! b"

definition trie_cell_size :: "trie_cell \<Rightarrow> nat" where
  "trie_cell_size ct = [5, 4, 4, 3, 4, 3, 3, 2, 4, 3, 3, 2, 3, 2, 2] ! cell_index ct"

definition TRIEV2_MAX_ALLOCATION :: nat where
  "TRIEV2_MAX_ALLOCATION = (16 + 1) * 5"

text \<open>A son of a node is a tagged word: a node, or the data at the end of a key.\<close>

datatype trie = Data word_t | Node trie_cell word_t "trie list"

definition PREFIX_LENGTH :: "word_t \<Rightarrow> nat" where
  "PREFIX_LENGTH header = unat (drop_bit 19 header AND 0x1E)"

definition NODE_PREFIX :: "word_t \<Rightarrow> word_t" where
  "NODE_PREFIX header = header AND 0xFFFFF"

definition make_header :: "nat \<Rightarrow> word_t \<Rightarrow> word_t" where
  "make_header prefix_length prefix = push_bit 19 (of_nat prefix_length) OR prefix"

definition son_at :: "trie list \<Rightarrow> nat \<Rightarrow> trie option" where
  "son_at sons i = (if 0 < i \<and> i \<le> length sons then Some (sons ! (i - 1)) else None)"

lemma son_at_size [termination_simp]: "son_at sons i = Some s \<Longrightarrow> size s < Suc (size_list size sons)"
  by (auto simp: son_at_def split: if_splits) (metis diff_less less_Suc_eq less_le_trans nth_mem order.strict_trans1 size_list_estimation' zero_less_one le_eq_less_or_eq)

section \<open>Lookup\<close>

text \<open>The loop of \<^verbatim>\<open>triev2_find\<close> and of \<^verbatim>\<open>triev2_contains\<close>; \<open>key\<close> holds its remaining
  \<open>key_length\<close> bits at the upper end.\<close>

function find_loop :: "trie \<Rightarrow> word_t \<Rightarrow> nat \<Rightarrow> word_t option" where
  "find_loop (Data d) key key_length = None"
| "find_loop (Node ct header sons) key key_length =
    (let prefix_length = PREFIX_LENGTH header in
     if prefix_length \<noteq> 0 \<and> NODE_PREFIX header \<noteq> drop_bit (32 - prefix_length) key then Some NULL_WORD
     else if key_length < prefix_length + 2 then None
     else
       let key1 = push_bit prefix_length key; i = triev2_offset ct (key_digit key1) in
       if i = 0 then Some NULL_WORD
       else do {
         data \<leftarrow> son_at sons i;
         (if key_length - prefix_length - 2 = 0 then (case data of Data d \<Rightarrow> Some d | Node _ _ _ \<Rightarrow> None)
          else find_loop data (push_bit 2 key1) (key_length - prefix_length - 2)) })"
  by pat_completeness auto

termination
  by (relation "measure (\<lambda>(p, key, key_length). size p)") (auto simp: son_at_size)

definition triev2_find :: "trie option \<Rightarrow> word_t \<Rightarrow> nat \<Rightarrow> word_t option" where
  "triev2_find root key key_length =
    (case root of
       None \<Rightarrow> Some NULL_WORD
     | Some p \<Rightarrow> if key_length = 0 then None else find_loop p (push_bit (32 - key_length) key) key_length)"

text \<open>\<^verbatim>\<open>triev2_contains\<close> ends as soon as the key does, and never looks at the data.\<close>

function contains_loop :: "trie \<Rightarrow> word_t \<Rightarrow> nat \<Rightarrow> bool option" where
  "contains_loop (Data d) key key_length = None"
| "contains_loop (Node ct header sons) key key_length =
    (let prefix_length = PREFIX_LENGTH header in
     if prefix_length \<noteq> 0 \<and> NODE_PREFIX header \<noteq> drop_bit (32 - prefix_length) key then Some False
     else if key_length < prefix_length + 2 then None
     else
       let key1 = push_bit prefix_length key; i = triev2_offset ct (key_digit key1) in
       if i = 0 then Some False
       else do {
         data \<leftarrow> son_at sons i;
         (if key_length - prefix_length - 2 = 0 then Some True
          else contains_loop data (push_bit 2 key1) (key_length - prefix_length - 2)) })"
  by pat_completeness auto

termination
  by (relation "measure (\<lambda>(p, key, key_length). size p)") (auto simp: son_at_size)

definition triev2_contains :: "trie option \<Rightarrow> word_t \<Rightarrow> nat \<Rightarrow> bool option" where
  "triev2_contains root key key_length =
    (case root of
       None \<Rightarrow> Some False
     | Some p \<Rightarrow> if key_length = 0 then None else contains_loop p (push_bit (32 - key_length) key) key_length)"

text \<open>\<^verbatim>\<open>triev2_find_quick\<close> asserts that the prefix of each node agrees with the key, and follows an offset of 0 as
  well, to the header of the node, which is no son.\<close>

function find_quick_loop :: "trie \<Rightarrow> word_t \<Rightarrow> nat \<Rightarrow> word_t option" where
  "find_quick_loop (Data d) key key_length = None"
| "find_quick_loop (Node ct header sons) key key_length =
    (let prefix_length = PREFIX_LENGTH header in
     if prefix_length = 0 \<or> NODE_PREFIX header = drop_bit (32 - prefix_length) key then
       if key_length < prefix_length + 2 then None
       else do {
         let key1 = push_bit prefix_length key;
         data \<leftarrow> son_at sons (triev2_offset ct (key_digit key1));
         (if key_length - prefix_length = 2 then (case data of Data d \<Rightarrow> Some d | Node _ _ _ \<Rightarrow> None)
          else find_quick_loop data (push_bit 2 key1) (key_length - prefix_length - 2)) }
     else None)"
  by pat_completeness auto

termination
  by (relation "measure (\<lambda>(p, key, key_length). size p)") (auto simp: son_at_size)

definition triev2_find_quick :: "trie option \<Rightarrow> word_t \<Rightarrow> nat \<Rightarrow> word_t option" where
  "triev2_find_quick root key key_length =
    (case root of
       None \<Rightarrow> None
     | Some p \<Rightarrow> if key_length = 0 then None else find_quick_loop p (push_bit (32 - key_length) key) key_length)"

section \<open>Insertion\<close>

text \<open>
  The copies of a node that make room for a son with the digit \<open>b\<close>: the cell type of the copy, the
  sons before the slot, the old content of the slot, and the sons behind it.  One case for each cell
  type and key_digit, as in the \<^verbatim>\<open>switch\<close> of \<^verbatim>\<open>triev2_insert\<close> and \<^verbatim>\<open>triev2_replace\<close>.
\<close>

definition copy_with_12 :: "trie_cell \<Rightarrow> nat \<Rightarrow> 't list \<Rightarrow> (trie_cell \<times> 't list \<times> 't option \<times> 't list) option" where
  "copy_with_12 ct b sons =
    (case ct of
       CELL_trie1234 \<Rightarrow> (case sons of [p1, p2, p3, p4] \<Rightarrow>
           if b = 0 then Some (CELL_trie1234, [], Some p1, [p2, p3, p4])
           else if b = 1 then Some (CELL_trie1234, [p1], Some p2, [p3, p4])
           else if b = 2 then Some (CELL_trie1234, [p1, p2], Some p3, [p4])
           else if b = 3 then Some (CELL_trie1234, [p1, p2, p3], Some p4, [])
           else None
         | _ \<Rightarrow> None)
     | CELL_trie123 \<Rightarrow> (case sons of [p1, p2, p3] \<Rightarrow>
           if b = 0 then Some (CELL_trie123, [], Some p1, [p2, p3])
           else if b = 1 then Some (CELL_trie123, [p1], Some p2, [p3])
           else if b = 2 then Some (CELL_trie123, [p1, p2], Some p3, [])
           else if b = 3 then Some (CELL_trie1234, [p1, p2, p3], None, [])
           else None
         | _ \<Rightarrow> None)
     | CELL_trie124 \<Rightarrow> (case sons of [p1, p2, p3] \<Rightarrow>
           if b = 0 then Some (CELL_trie124, [], Some p1, [p2, p3])
           else if b = 1 then Some (CELL_trie124, [p1], Some p2, [p3])
           else if b = 2 then Some (CELL_trie1234, [p1, p2], None, [p3])
           else if b = 3 then Some (CELL_trie124, [p1, p2], Some p3, [])
           else None
         | _ \<Rightarrow> None)
     | CELL_trie12 \<Rightarrow> (case sons of [p1, p2] \<Rightarrow>
           if b = 0 then Some (CELL_trie12, [], Some p1, [p2])
           else if b = 1 then Some (CELL_trie12, [p1], Some p2, [])
           else if b = 2 then Some (CELL_trie123, [p1, p2], None, [])
           else if b = 3 then Some (CELL_trie124, [p1, p2], None, [])
           else None
         | _ \<Rightarrow> None)
     | _ \<Rightarrow> None)"

definition copy_with_1 :: "trie_cell \<Rightarrow> nat \<Rightarrow> 't list \<Rightarrow> (trie_cell \<times> 't list \<times> 't option \<times> 't list) option" where
  "copy_with_1 ct b sons =
    (case ct of
       CELL_trie134 \<Rightarrow> (case sons of [p1, p2, p3] \<Rightarrow>
           if b = 0 then Some (CELL_trie134, [], Some p1, [p2, p3])
           else if b = 1 then Some (CELL_trie1234, [p1], None, [p2, p3])
           else if b = 2 then Some (CELL_trie134, [p1], Some p2, [p3])
           else if b = 3 then Some (CELL_trie134, [p1, p2], Some p3, [])
           else None
         | _ \<Rightarrow> None)
     | CELL_trie13 \<Rightarrow> (case sons of [p1, p2] \<Rightarrow>
           if b = 0 then Some (CELL_trie13, [], Some p1, [p2])
           else if b = 1 then Some (CELL_trie123, [p1], None, [p2])
           else if b = 2 then Some (CELL_trie13, [p1], Some p2, [])
           else if b = 3 then Some (CELL_trie134, [p1, p2], None, [])
           else None
         | _ \<Rightarrow> None)
     | CELL_trie14 \<Rightarrow> (case sons of [p1, p2] \<Rightarrow>
           if b = 0 then Some (CELL_trie14, [], Some p1, [p2])
           else if b = 1 then Some (CELL_trie124, [p1], None, [p2])
           else if b = 2 then Some (CELL_trie134, [p1], None, [p2])
           else if b = 3 then Some (CELL_trie14, [p1], Some p2, [])
           else None
         | _ \<Rightarrow> None)
     | CELL_trie1 \<Rightarrow> (case sons of [p1] \<Rightarrow>
           if b = 0 then Some (CELL_trie1, [], Some p1, [])
           else if b = 1 then Some (CELL_trie12, [p1], None, [])
           else if b = 2 then Some (CELL_trie13, [p1], None, [])
           else if b = 3 then Some (CELL_trie14, [p1], None, [])
           else None
         | _ \<Rightarrow> None)
     | _ \<Rightarrow> None)"

definition copy_with_2 :: "trie_cell \<Rightarrow> nat \<Rightarrow> 't list \<Rightarrow> (trie_cell \<times> 't list \<times> 't option \<times> 't list) option" where
  "copy_with_2 ct b sons =
    (case ct of
       CELL_trie234 \<Rightarrow> (case sons of [p1, p2, p3] \<Rightarrow>
           if b = 0 then Some (CELL_trie1234, [], None, [p1, p2, p3])
           else if b = 1 then Some (CELL_trie234, [], Some p1, [p2, p3])
           else if b = 2 then Some (CELL_trie234, [p1], Some p2, [p3])
           else if b = 3 then Some (CELL_trie234, [p1, p2], Some p3, [])
           else None
         | _ \<Rightarrow> None)
     | CELL_trie23 \<Rightarrow> (case sons of [p1, p2] \<Rightarrow>
           if b = 0 then Some (CELL_trie123, [], None, [p1, p2])
           else if b = 1 then Some (CELL_trie23, [], Some p1, [p2])
           else if b = 2 then Some (CELL_trie23, [p1], Some p2, [])
           else if b = 3 then Some (CELL_trie234, [p1, p2], None, [])
           else None
         | _ \<Rightarrow> None)
     | CELL_trie24 \<Rightarrow> (case sons of [p1, p2] \<Rightarrow>
           if b = 0 then Some (CELL_trie124, [], None, [p1, p2])
           else if b = 1 then Some (CELL_trie24, [], Some p1, [p2])
           else if b = 2 then Some (CELL_trie234, [p1], None, [p2])
           else if b = 3 then Some (CELL_trie24, [p1], Some p2, [])
           else None
         | _ \<Rightarrow> None)
     | CELL_trie2 \<Rightarrow> (case sons of [p1] \<Rightarrow>
           if b = 0 then Some (CELL_trie12, [], None, [p1])
           else if b = 1 then Some (CELL_trie2, [], Some p1, [])
           else if b = 2 then Some (CELL_trie23, [p1], None, [])
           else if b = 3 then Some (CELL_trie24, [p1], None, [])
           else None
         | _ \<Rightarrow> None)
     | _ \<Rightarrow> None)"

definition copy_with_34 :: "trie_cell \<Rightarrow> nat \<Rightarrow> 't list \<Rightarrow> (trie_cell \<times> 't list \<times> 't option \<times> 't list) option" where
  "copy_with_34 ct b sons =
    (case ct of
       CELL_trie34 \<Rightarrow> (case sons of [p1, p2] \<Rightarrow>
           if b = 0 then Some (CELL_trie134, [], None, [p1, p2])
           else if b = 1 then Some (CELL_trie234, [], None, [p1, p2])
           else if b = 2 then Some (CELL_trie34, [], Some p1, [p2])
           else if b = 3 then Some (CELL_trie34, [p1], Some p2, [])
           else None
         | _ \<Rightarrow> None)
     | CELL_trie3 \<Rightarrow> (case sons of [p1] \<Rightarrow>
           if b = 0 then Some (CELL_trie13, [], None, [p1])
           else if b = 1 then Some (CELL_trie23, [], None, [p1])
           else if b = 2 then Some (CELL_trie3, [], Some p1, [])
           else if b = 3 then Some (CELL_trie34, [p1], None, [])
           else None
         | _ \<Rightarrow> None)
     | CELL_trie4 \<Rightarrow> (case sons of [p1] \<Rightarrow>
           if b = 0 then Some (CELL_trie14, [], None, [p1])
           else if b = 1 then Some (CELL_trie24, [], None, [p1])
           else if b = 2 then Some (CELL_trie34, [], None, [p1])
           else if b = 3 then Some (CELL_trie4, [], Some p1, [])
           else None
         | _ \<Rightarrow> None)
     | _ \<Rightarrow> None)"

definition copy_with :: "trie_cell \<Rightarrow> nat \<Rightarrow> 't list \<Rightarrow> (trie_cell \<times> 't list \<times> 't option \<times> 't list) option" where
  "copy_with ct b sons =
    (if cell_index ct < 4 then copy_with_12 ct b sons
     else if cell_index ct < 8 then copy_with_1 ct b sons
     else if cell_index ct < 12 then copy_with_2 ct b sons
     else copy_with_34 ct b sons)"

text \<open>A new node, or the copy of a node, with a slot for the rest of the key: its cell type and header,
  the sons before and behind the slot, the old content of the slot, the rest of the key and its
  length, and the allocation point.\<close>

type_synonym step = "trie_cell \<times> word_t \<times> trie list \<times> trie option \<times> trie list \<times> word_t \<times> nat \<times> nat"

text \<open>A node with one son, where there was none; its prefix takes all but two of the bits that are left,
  but not more than 20.\<close>

definition new_uni_node :: "word_t \<Rightarrow> nat \<Rightarrow> nat \<Rightarrow> step" where
  "new_uni_node key key_length ap =
    (if key_length > 2 then
       let prefix_length = if key_length < 22 then key_length - 2 else 20;
           key_prefix = drop_bit (32 - prefix_length) key;
           key1 = push_bit prefix_length key
       in (uni_cell_type (key_digit key1), make_header prefix_length key_prefix, [], None, [],
           push_bit 2 key1, key_length - prefix_length - 2, ap + 2)
     else (uni_cell_type (key_digit key), 0, [], None, [], push_bit 2 key, key_length - 2, ap + 2))"

text \<open>The label \<^verbatim>\<open>split\<close>: the prefix of the node differs from the key.  A node with two sons takes the
  part of the prefix that agrees; one son is the old node with the rest of its prefix.\<close>

definition split_node :: "trie_cell \<Rightarrow> word_t \<Rightarrow> trie list \<Rightarrow> word_t \<Rightarrow> nat \<Rightarrow> nat \<Rightarrow> step option" where
  "split_node ct header sons key key_length ap =
    (let node_prefix = NODE_PREFIX header;
         prefix_length = PREFIX_LENGTH header;
         key_prefix = drop_bit (32 - prefix_length) key;
         old_prefix_length = 2 * (highest_bit (node_prefix XOR key_prefix) div 2);
         old_prefix = node_prefix AND (push_bit old_prefix_length 1 - 1);
         old_p = Node ct (make_header old_prefix_length old_prefix) sons;
         new_prefix_length = prefix_length - (2 + old_prefix_length);
         node_digit = unat (drop_bit old_prefix_length node_prefix AND 3);
         key1 = push_bit new_prefix_length key
     in do {
       new_ct \<leftarrow> bi_cell_type (key_digit key1) node_digit;
       let new_header = (if new_prefix_length > 0 then make_header new_prefix_length (drop_bit (32 - new_prefix_length) key) else 0);
       let left = (triev2_offset new_ct node_digit < triev2_offset new_ct (key_digit key1));
       Some (new_ct, new_header, if left then [old_p] else [], None, if left then [] else [old_p],
         push_bit 2 key1, key_length - new_prefix_length - 2, ap + trie_cell_size ct + 3) })"

definition insert_step :: "trie option \<Rightarrow> word_t \<Rightarrow> nat \<Rightarrow> nat \<Rightarrow> step option" where
  "insert_step p key key_length ap =
    (case p of
       None \<Rightarrow> Some (new_uni_node key key_length ap)
     | Some (Data _) \<Rightarrow> None
     | Some (Node ct header sons) \<Rightarrow>
         (let prefix_length = PREFIX_LENGTH header;
              key_prefix = drop_bit (32 - prefix_length) key
          in if header \<noteq> 0 \<and> NODE_PREFIX header \<noteq> key_prefix then split_node ct header sons key key_length ap
             else if key_length < prefix_length + 2 then None
             else do {
               let key1 = push_bit prefix_length key;
               (new_ct, left, old_data, right) \<leftarrow> copy_with ct (key_digit key1) sons;
               Some (new_ct, header, left, old_data, right, push_bit 2 key1, key_length - prefix_length - 2,
                 ap + trie_cell_size new_ct) }))"

text \<open>The result of the descent: the insertion is nilpotent, or the new node and the allocation point.\<close>

datatype insert_result = Nilpotent | Inserted trie nat

fun wrap_result :: "trie_cell \<Rightarrow> word_t \<Rightarrow> trie list \<Rightarrow> trie list \<Rightarrow> insert_result \<Rightarrow> insert_result" where
  "wrap_result ct header left right Nilpotent = Nilpotent"
| "wrap_result ct header left right (Inserted s ap) = Inserted (Node ct header (left @ s # right)) ap"

text \<open>The end of the key: \<open>old_data\<close> is the old content of the slot, \<open>None\<close> for \<^verbatim>\<open>NULL_WORD\<close>.\<close>

definition store_data :: "(word_t \<Rightarrow> word_t \<Rightarrow> word_t) option \<Rightarrow> word_t \<Rightarrow> trie option \<Rightarrow> nat \<Rightarrow> insert_result option" where
  "store_data f data old_data ap =
    (case old_data of
       None \<Rightarrow> Some (Inserted (Data data) ap)
     | Some (Data old) \<Rightarrow>
         if old = NULL_WORD then Some (Inserted (Data data) ap)
         else
           let data' = (case f of None \<Rightarrow> data | Some f \<Rightarrow> f old data)
           in if old = data' then Some Nilpotent else Some (Inserted (Data data') ap)
     | Some (Node _ _ _) \<Rightarrow> None)"

function trie_insert_loop :: "(word_t \<Rightarrow> word_t \<Rightarrow> word_t) option \<Rightarrow> word_t \<Rightarrow> trie option \<Rightarrow> word_t \<Rightarrow> nat \<Rightarrow> nat \<Rightarrow>
    insert_result option" where
  "trie_insert_loop f data p key key_length ap =
    (if odd key_length \<or> key_length = 0 then None
     else do {
       (ct, header, left, old_data, right, key1, key_length1, ap1) \<leftarrow> insert_step p key key_length ap;
       (if key_length1 \<ge> key_length then None
        else do {
          r \<leftarrow> (if key_length1 = 0 then store_data f data old_data ap1
               else trie_insert_loop f data old_data key1 key_length1 ap1);
          Some (wrap_result ct header left right r) }) })"
  by pat_completeness auto

termination
  by (relation "measure (\<lambda>(f, data, p, key, key_length, ap). key_length)") auto

declare trie_insert_loop.simps [simp del]

definition triev2_insert :: "trie option \<Rightarrow> word_t \<Rightarrow> nat \<Rightarrow> (word_t \<Rightarrow> word_t \<Rightarrow> word_t) option \<Rightarrow> word_t \<Rightarrow> nat \<Rightarrow>
    (trie option \<times> nat) option" where
  "triev2_insert root key key_length f data ap = do {
     r \<leftarrow> trie_insert_loop f data root (push_bit (32 - key_length) key) key_length ap;
     Some (case r of Nilpotent \<Rightarrow> (root, ap) | Inserted t ap' \<Rightarrow> (Some t, ap')) }"

section \<open>Replacement\<close>

text \<open>\<^verbatim>\<open>triev2_replace\<close> asserts that there is a node and that its prefix agrees with the key; \<open>f\<close> is called
  for any old data.\<close>

definition replace_step :: "trie option \<Rightarrow> word_t \<Rightarrow> nat \<Rightarrow> nat \<Rightarrow> step option" where
  "replace_step p key key_length ap =
    (case p of
       Some (Node ct header sons) \<Rightarrow>
         (let prefix_length = PREFIX_LENGTH header
          in if header \<noteq> 0 \<and> NODE_PREFIX header \<noteq> drop_bit (32 - prefix_length) key then None
             else if key_length < prefix_length + 2 then None
             else do {
               let key1 = push_bit prefix_length key;
               (new_ct, left, old_data, right) \<leftarrow> copy_with ct (key_digit key1) sons;
               Some (new_ct, header, left, old_data, right, push_bit 2 key1, key_length - prefix_length - 2,
                 ap + trie_cell_size new_ct) })
     | _ \<Rightarrow> None)"

definition replace_data :: "(word_t \<Rightarrow> word_t \<Rightarrow> word_t) option \<Rightarrow> word_t \<Rightarrow> trie option \<Rightarrow> nat \<Rightarrow> insert_result option" where
  "replace_data f data old_data ap =
    (case old_data of
       Some (Node _ _ _) \<Rightarrow> None
     | _ \<Rightarrow>
       (let old = (case old_data of Some (Data old) \<Rightarrow> old | _ \<Rightarrow> NULL_WORD);
            data' = (case f of None \<Rightarrow> data | Some f \<Rightarrow> f old data)
        in if old = data' then Some Nilpotent else Some (Inserted (Data data') ap)))"

function replace_loop :: "(word_t \<Rightarrow> word_t \<Rightarrow> word_t) option \<Rightarrow> word_t \<Rightarrow> trie option \<Rightarrow> word_t \<Rightarrow> nat \<Rightarrow> nat \<Rightarrow>
    insert_result option" where
  "replace_loop f data p key key_length ap =
    (if odd key_length \<or> key_length = 0 then None
     else do {
       (ct, header, left, old_data, right, key1, key_length1, ap1) \<leftarrow> replace_step p key key_length ap;
       (if key_length1 \<ge> key_length then None
        else do {
          r \<leftarrow> (if key_length1 = 0 then replace_data f data old_data ap1
               else replace_loop f data old_data key1 key_length1 ap1);
          Some (wrap_result ct header left right r) }) })"
  by pat_completeness auto

termination
  by (relation "measure (\<lambda>(f, data, p, key, key_length, ap). key_length)") auto

declare replace_loop.simps [simp del]

definition triev2_replace :: "trie option \<Rightarrow> word_t \<Rightarrow> nat \<Rightarrow> (word_t \<Rightarrow> word_t \<Rightarrow> word_t) option \<Rightarrow> word_t \<Rightarrow> nat \<Rightarrow>
    (trie option \<times> nat) option" where
  "triev2_replace root key key_length f data ap = do {
     r \<leftarrow> replace_loop f data root (push_bit (32 - key_length) key) key_length ap;
     Some (case r of Nilpotent \<Rightarrow> (root, ap) | Inserted t ap' \<Rightarrow> (Some t, ap')) }"

end
