(* ===== verification/Triev2_Lookup.thy ===== *)
theory Triev2_Lookup
  imports Triev2
begin

text \<open>
  A trie as a map from sequences of digits to words: the headers and tables mean what they should,
  \<open>trie_ok\<close> is the invariant of a trie, \<open>lookup\<close> the map it stands for, and the three search loops read
  that map.
\<close>

section \<open>Headers\<close>

text \<open>A header is built and taken apart without loss, as long as the prefix has at most 20 bits.\<close>

lemma bit_small:
  assumes "unat (w :: word_t) < 2 ^ k" and "bit w n"
  shows "n < k"
proof (rule ccontr)
  assume "\<not> n < k"
  then have "(2 :: nat) ^ k \<le> 2 ^ n" by (intro power_increasing) auto
  then have "unat w div 2 ^ n = 0" using assms(1) by (intro div_less) linarith
  then have "\<not> bit (unat w) n" by (simp add: bit_iff_odd)
  then show False using assms(2) by (auto simp: bit_unsigned_iff dest: bit_imp_le_length)
qed

lemma header_bits:
  assumes "unat prefix < 2 ^ 20" and "m \<le> 10"
  shows "PREFIX_LENGTH (make_header (2 * m) prefix) = 2 * m" and "NODE_PREFIX (make_header (2 * m) prefix) = prefix"
proof -
  have b: "n < 20" if "bit prefix n" for n using bit_small [OF assms(1) that] .
  have m: "m \<in> {0, 1, 2, 3, 4, 5, 6, 7, 8, 9, 10}" using assms(2) by simp presburger
  have even: "\<not> bit (of_nat (2 * m) :: word_t) 0" by (simp add: bit_0)
  have "drop_bit 19 (make_header (2 * m) prefix) AND 0x1E = (of_nat (2 * m) AND 0x1E :: word_t)"
  proof (rule bit_word_eqI)
    fix n :: nat
    assume n: "n < LENGTH(32)"
    have "bit (of_nat (2 * m) :: word_t) n \<Longrightarrow> n < 13"
    proof (rule bit_small)
      show "unat (of_nat (2 * m) :: word_t) < 2 ^ 13" using m by (elim insertE) simp_all
    qed
    then show "bit (drop_bit 19 (make_header (2 * m) prefix) AND 0x1E) n = bit (of_nat (2 * m) AND 0x1E :: word_t) n"
      using b [of "19 + n"] n by (cases "n = 0") (auto simp: make_header_def bit_simps)
  qed
  then show "PREFIX_LENGTH (make_header (2 * m) prefix) = 2 * m"
    using m by (auto simp: PREFIX_LENGTH_def)
  have mask: "(0xFFFFF :: word_t) = mask 20" by (simp add: mask_eq_exp_minus_1)
  show "NODE_PREFIX (make_header (2 * m) prefix) = prefix"
  proof (rule bit_word_eqI)
    fix n :: nat
    assume n: "n < LENGTH(32)"
    consider "n < 19" | "n = 19" | "n \<ge> 20" by linarith
    then show "bit (NODE_PREFIX (make_header (2 * m) prefix)) n = bit prefix n"
      using b [of n] n even unfolding NODE_PREFIX_def make_header_def mask by cases (auto simp: bit_simps)
  qed
qed

text \<open>\<open>header_ok m header\<close>: the header of a node with a prefix of \<open>m\<close> digits, \<open>header_digits header\<close>.\<close>

definition header_ok :: "nat \<Rightarrow> word_t \<Rightarrow> bool" where
  "header_ok m header \<longleftrightarrow> m \<le> 10 \<and> (\<exists>prefix. header = make_header (2 * m) prefix \<and> unat prefix < 4 ^ m)"

definition header_digits :: "word_t \<Rightarrow> nat list" where
  "header_digits header = prefix_digits (PREFIX_LENGTH header div 2) (NODE_PREFIX header)"

lemma header_okD:
  assumes "header_ok m header"
  shows "PREFIX_LENGTH header = 2 * m" and "unat (NODE_PREFIX header) < 4 ^ m" and "m \<le> 10"
    and "length (header_digits header) = m" and "header_digits header = prefix_digits m (NODE_PREFIX header)"
    and "header = make_header (2 * m) (NODE_PREFIX header)"
proof -
  obtain prefix where p: "header = make_header (2 * m) prefix" "unat prefix < 4 ^ m" and m: "m \<le> 10"
    using assms by (auto simp: header_ok_def)
  have "(4 :: nat) ^ m \<le> 2 ^ 20" using m unfolding four_power by (intro power_increasing) auto
  then have "unat prefix < 2 ^ 20" using p(2) by linarith
  note h = header_bits [OF this m]
  show "PREFIX_LENGTH header = 2 * m" "unat (NODE_PREFIX header) < 4 ^ m" "m \<le> 10"
    "length (header_digits header) = m" "header_digits header = prefix_digits m (NODE_PREFIX header)"
    "header = make_header (2 * m) (NODE_PREFIX header)"
    using h p m by (simp_all add: header_digits_def)
qed

lemma header_ok_make: "m \<le> 10 \<Longrightarrow> unat prefix < 4 ^ m \<Longrightarrow> header_ok m (make_header (2 * m) prefix)"
  by (auto simp: header_ok_def)

lemma header_digits_make:
  assumes "m \<le> 10" and "unat prefix < 4 ^ m"
  shows "header_digits (make_header (2 * m) prefix) = prefix_digits m prefix"
proof -
  have "NODE_PREFIX (make_header (2 * m) prefix) = prefix"
    using header_bits(2) [of prefix m] assms header_okD(2) power_increasing [of "2 * m" 20 "2 :: nat"]
    by (simp add: four_power)
  then show ?thesis using header_okD(5) [OF header_ok_make [OF assms]] by simp
qed

lemma header_ok_0: "header_ok m 0 \<longleftrightarrow> m = 0" and header_digits_0: "header_digits 0 = []"
proof -
  show "header_digits 0 = []" by (simp add: header_digits_def PREFIX_LENGTH_def prefix_digits_def)
  have "PREFIX_LENGTH 0 = 0" by (simp add: PREFIX_LENGTH_def)
  moreover have "make_header 0 0 = 0" by (simp add: make_header_def)
  ultimately show "header_ok m 0 \<longleftrightarrow> m = 0" using header_okD(1) [of m 0] by (auto simp: header_ok_def)
qed

text \<open>The test of a node's prefix against the key.\<close>

lemma header_matches:
  assumes "header_ok m header"
  shows "NODE_PREFIX header = drop_bit (32 - PREFIX_LENGTH header) key \<longleftrightarrow> header_digits header = digits m key"
  using prefix_matches [OF header_okD(2) [OF assms], of key] header_okD(1,3,5) [OF assms] by simp

section \<open>Tables\<close>

lemma triev2_offset_simps [simp]:
  "triev2_offset CELL_trie1234 0 = 1" "triev2_offset CELL_trie1234 (Suc 0) = 2" "triev2_offset CELL_trie1234 2 = 3" "triev2_offset CELL_trie1234 3 = 4"
  "triev2_offset CELL_trie123 0 = 1" "triev2_offset CELL_trie123 (Suc 0) = 2" "triev2_offset CELL_trie123 2 = 3" "triev2_offset CELL_trie123 3 = 0"
  "triev2_offset CELL_trie124 0 = 1" "triev2_offset CELL_trie124 (Suc 0) = 2" "triev2_offset CELL_trie124 2 = 0" "triev2_offset CELL_trie124 3 = 3"
  "triev2_offset CELL_trie12 0 = 1" "triev2_offset CELL_trie12 (Suc 0) = 2" "triev2_offset CELL_trie12 2 = 0" "triev2_offset CELL_trie12 3 = 0"
  "triev2_offset CELL_trie134 0 = 1" "triev2_offset CELL_trie134 (Suc 0) = 0" "triev2_offset CELL_trie134 2 = 2" "triev2_offset CELL_trie134 3 = 3"
  "triev2_offset CELL_trie13 0 = 1" "triev2_offset CELL_trie13 (Suc 0) = 0" "triev2_offset CELL_trie13 2 = 2" "triev2_offset CELL_trie13 3 = 0"
  "triev2_offset CELL_trie14 0 = 1" "triev2_offset CELL_trie14 (Suc 0) = 0" "triev2_offset CELL_trie14 2 = 0" "triev2_offset CELL_trie14 3 = 2"
  "triev2_offset CELL_trie1 0 = 1" "triev2_offset CELL_trie1 (Suc 0) = 0" "triev2_offset CELL_trie1 2 = 0" "triev2_offset CELL_trie1 3 = 0"
  "triev2_offset CELL_trie234 0 = 0" "triev2_offset CELL_trie234 (Suc 0) = 1" "triev2_offset CELL_trie234 2 = 2" "triev2_offset CELL_trie234 3 = 3"
  "triev2_offset CELL_trie23 0 = 0" "triev2_offset CELL_trie23 (Suc 0) = 1" "triev2_offset CELL_trie23 2 = 2" "triev2_offset CELL_trie23 3 = 0"
  "triev2_offset CELL_trie24 0 = 0" "triev2_offset CELL_trie24 (Suc 0) = 1" "triev2_offset CELL_trie24 2 = 0" "triev2_offset CELL_trie24 3 = 2"
  "triev2_offset CELL_trie2 0 = 0" "triev2_offset CELL_trie2 (Suc 0) = 1" "triev2_offset CELL_trie2 2 = 0" "triev2_offset CELL_trie2 3 = 0"
  "triev2_offset CELL_trie34 0 = 0" "triev2_offset CELL_trie34 (Suc 0) = 0" "triev2_offset CELL_trie34 2 = 1" "triev2_offset CELL_trie34 3 = 2"
  "triev2_offset CELL_trie3 0 = 0" "triev2_offset CELL_trie3 (Suc 0) = 0" "triev2_offset CELL_trie3 2 = 1" "triev2_offset CELL_trie3 3 = 0"
  "triev2_offset CELL_trie4 0 = 0" "triev2_offset CELL_trie4 (Suc 0) = 0" "triev2_offset CELL_trie4 2 = 0" "triev2_offset CELL_trie4 3 = 1"
  by (simp_all add: triev2_offset_def)

lemma trie_cell_size_simps [simp]:
  "trie_cell_size CELL_trie1234 = 5"
  "trie_cell_size CELL_trie123 = 4"
  "trie_cell_size CELL_trie124 = 4"
  "trie_cell_size CELL_trie12 = 3"
  "trie_cell_size CELL_trie134 = 4"
  "trie_cell_size CELL_trie13 = 3"
  "trie_cell_size CELL_trie14 = 3"
  "trie_cell_size CELL_trie1 = 2"
  "trie_cell_size CELL_trie234 = 4"
  "trie_cell_size CELL_trie23 = 3"
  "trie_cell_size CELL_trie24 = 3"
  "trie_cell_size CELL_trie2 = 2"
  "trie_cell_size CELL_trie34 = 3"
  "trie_cell_size CELL_trie3 = 2"
  "trie_cell_size CELL_trie4 = 2"
  by (simp_all add: trie_cell_size_def)

definition kid :: "trie_cell \<Rightarrow> trie list \<Rightarrow> nat \<Rightarrow> trie option" where
  "kid ct sons b = son_at sons (triev2_offset ct b)"

lemma less_4: "(b :: nat) < 4 \<longleftrightarrow> b = 0 \<or> b = Suc 0 \<or> b = 2 \<or> b = 3"
  by auto

lemma cell_tables:
  "b < 4 \<Longrightarrow> triev2_offset ct b < trie_cell_size ct" "trie_cell_size ct \<ge> 2" "trie_cell_size ct \<le> 5"
  by (cases ct; auto simp: less_4)+

lemma son_at_simps [simp]:
  "son_at sons 0 = None" "son_at (s # sons) (Suc 0) = Some s" "son_at (s # sons) 1 = Some s"
  "son_at (s # t # sons) 2 = Some t" "son_at (s # t # u # sons) 3 = Some u" "son_at (s # t # u # v # sons) 4 = Some v"
  by (simp_all add: son_at_def numeral_eq_Suc)

lemma four_sons:
  "length sons = 1 \<Longrightarrow> \<exists>p1. sons = [p1]" "length sons = Suc 0 \<Longrightarrow> \<exists>p1. sons = [p1]"
  "length sons = 2 \<Longrightarrow> \<exists>p1 p2. sons = [p1, p2]"
  "length sons = 3 \<Longrightarrow> \<exists>p1 p2 p3. sons = [p1, p2, p3]" "length sons = 4 \<Longrightarrow> \<exists>p1 p2 p3 p4. sons = [p1, p2, p3, p4]"
  by (auto simp: length_Suc_conv numeral_eq_Suc)

definition copied :: "trie_cell \<Rightarrow> trie list \<Rightarrow> nat \<Rightarrow> (trie_cell \<times> trie list \<times> trie option \<times> trie list) option \<Rightarrow> bool" where
  "copied ct sons b r \<longleftrightarrow> (\<exists>ct' left right. r = Some (ct', left, kid ct sons b, right) \<and>
    set left \<subseteq> set sons \<and> set right \<subseteq> set sons \<and>
    (\<forall>s. length (left @ s # right) = trie_cell_size ct' - 1 \<and>
      (\<forall>c < 4. kid ct' (left @ s # right) c = (if c = b then Some s else kid ct sons c))))"

lemma all_less_4: "(\<forall>c < 4. P c) \<longleftrightarrow> P 0 \<and> P (Suc 0) \<and> P 2 \<and> P (3 :: nat)"
  by (auto simp: less_4)

lemma copied_simps:
  "copied ct sons b (Some (ct', left, old, right)) \<longleftrightarrow> old = kid ct sons b \<and>
    set left \<subseteq> set sons \<and> set right \<subseteq> set sons \<and>
    (\<forall>s. length (left @ s # right) = trie_cell_size ct' - 1 \<and>
      (\<forall>c < 4. kid ct' (left @ s # right) c = (if c = b then Some s else kid ct sons c)))"
  by (auto simp: copied_def)

lemma copy_with_ok:
  assumes "length sons = trie_cell_size ct - 1" and "b < 4"
  shows "copied ct sons b (copy_with ct b sons)"
  using assms(1) assms(2) [unfolded less_4]
  by (cases ct; simp)
    (drule four_sons, (elim exE disjE; simp add: copied_simps all_less_4 kid_def copy_with_def copy_with_12_def
      copy_with_1_def copy_with_2_def copy_with_34_def))+

section \<open>Tries as maps from key_digit sequences\<close>

text \<open>\<open>trie_ok n p\<close>: every key below \<open>p\<close> has \<open>n\<close> digits.\<close>

fun trie_ok :: "nat \<Rightarrow> trie \<Rightarrow> bool" where
  "trie_ok n (Data d) \<longleftrightarrow> n = 0 \<and> d \<noteq> NULL_WORD"
| "trie_ok n (Node ct header sons) \<longleftrightarrow>
    (let m = PREFIX_LENGTH header div 2 in header_ok m header \<and> m < n \<and> length sons = trie_cell_size ct - 1 \<and>
      (\<forall>s \<in> set sons. trie_ok (n - m - 1) s))"

definition root_ok :: "nat \<Rightarrow> trie option \<Rightarrow> bool" where
  "root_ok n root \<longleftrightarrow> (case root of None \<Rightarrow> True | Some p \<Rightarrow> trie_ok n p)"

lemma root_ok_simps [simp]: "root_ok n None" "root_ok n (Some p) \<longleftrightarrow> trie_ok n p"
  by (simp_all add: root_ok_def)

function lookup :: "trie \<Rightarrow> nat list \<Rightarrow> word_t" where
  "lookup (Data d) ds = d"
| "lookup (Node ct header sons) ds =
    (let m = length (header_digits header) in
     if take m ds = header_digits header then
       (case kid ct sons (ds ! m) of None \<Rightarrow> NULL_WORD | Some s \<Rightarrow> lookup s (drop (m + 1) ds))
     else NULL_WORD)"
  by pat_completeness auto

termination
  by (relation "measure (\<lambda>(p, ds). size p)") (auto simp: kid_def son_at_size)

definition root_lookup :: "trie option \<Rightarrow> nat list \<Rightarrow> word_t" where
  "root_lookup root ds = (case root of None \<Rightarrow> NULL_WORD | Some p \<Rightarrow> lookup p ds)"

lemma root_lookup_simps [simp]: "root_lookup None ds = NULL_WORD" "root_lookup (Some p) ds = lookup p ds"
  by (simp_all add: root_lookup_def)

lemma trie_ok_Node:
  assumes "trie_ok n (Node ct header sons)"
  obtains m where "header_ok m header" "PREFIX_LENGTH header = 2 * m" "length (header_digits header) = m" "m < n" "m \<le> 10"
    "length sons = trie_cell_size ct - 1" "\<And>s. s \<in> set sons \<Longrightarrow> trie_ok (n - m - 1) s"
proof -
  let ?m = "PREFIX_LENGTH header div 2"
  have "header_ok ?m header" using assms by (simp add: Let_def)
  then show thesis using that [of ?m] header_okD [of ?m header] assms by (auto simp: Let_def)
qed

lemma trie_ok_Node_iff:
  assumes "header_ok m header"
  shows "trie_ok n (Node ct header sons) \<longleftrightarrow> m < n \<and> length sons = trie_cell_size ct - 1 \<and>
      (\<forall>s \<in> set sons. trie_ok (n - m - 1) s)"
  using assms header_okD(1) [OF assms] by simp

lemma kid_in: "kid ct sons b = Some s \<Longrightarrow> s \<in> set sons"
  by (auto simp: kid_def son_at_def split: if_splits)

lemma kid_offset:
  assumes "length sons = trie_cell_size ct - 1" and "b < 4"
  shows "triev2_offset ct b = 0 \<longleftrightarrow> kid ct sons b = None" and "triev2_offset ct b \<noteq> 0 \<Longrightarrow> \<exists>s. son_at sons (triev2_offset ct b) = Some s"
  using cell_tables(1) [OF assms(2), of ct] assms(1) by (auto simp: kid_def son_at_def)

text \<open>The digits of a key when a node's prefix and one more digit are taken off.\<close>

lemma digits_below:
  assumes "m < n"
  shows "digits n key = digits m key @ key_digit (push_bit (2 * m) key) # digits (n - m - 1) (push_bit 2 (push_bit (2 * m) key))"
proof -
  have "digits n key = digits m key @ digits (Suc (n - m - 1)) (push_bit (2 * m) key)"
    using digits_add [of m "Suc (n - m - 1)" key] assms by simp
  then show ?thesis by simp
qed

lemma lookup_Node:
  assumes "header_ok m header" and "m < n"
  shows "lookup (Node ct header sons) (digits n key) =
    (if header_digits header = digits m key then
       root_lookup (kid ct sons (key_digit (push_bit (2 * m) key))) (digits (n - m - 1) (push_bit 2 (push_bit (2 * m) key)))
     else NULL_WORD)"
  using header_okD(4) [OF assms(1)] digits_below [OF assms(2), of key]
  by (auto simp: Let_def nth_append root_lookup_def split: option.split)

lemma find_loop_ok:
  "trie_ok n p \<Longrightarrow> n > 0 \<Longrightarrow> find_loop p key (2 * n) = Some (lookup p (digits n key))"
proof (induction p arbitrary: n key)
  case (Data d)
  then show ?case by simp
next
  case (Node ct header sons)
  from trie_ok_Node [OF Node.prems(1)] obtain m where m: "header_ok m header" "PREFIX_LENGTH header = 2 * m" "m < n"
    "length sons = trie_cell_size ct - 1" "\<And>s. s \<in> set sons \<Longrightarrow> trie_ok (n - m - 1) s" by metis
  let ?key = "push_bit (2 * m) key"
  have match: "(0 < m \<and> NODE_PREFIX header \<noteq> drop_bit (32 - 2 * m) key) \<longleftrightarrow> header_digits header \<noteq> digits m key"
    using header_matches [OF m(1), of key] m(2) header_okD(4) [OF m(1)] by (cases m) auto
  show ?case
  proof (cases "header_digits header = digits m key")
    case False
    then show ?thesis using m lookup_Node [OF m(1,3)] by (simp add: Let_def match)
  next
    case True
    have ok: "find_loop (Node ct header sons) key (2 * n) =
      (if triev2_offset ct (key_digit ?key) = 0 then Some NULL_WORD
       else do {
         data \<leftarrow> son_at sons (triev2_offset ct (key_digit ?key));
         (if 2 * n - 2 * m - 2 = 0 then (case data of Data d \<Rightarrow> Some d | Node _ _ _ \<Rightarrow> None)
          else find_loop data (push_bit 2 ?key) (2 * n - 2 * m - 2)) })"
      using True m(2,3) by (simp add: Let_def match)
    show ?thesis
    proof (cases "kid ct sons (key_digit ?key)")
      case None
      then show ?thesis using ok True kid_offset(1) [OF m(4) key_digit_less [of ?key]] lookup_Node [OF m(1,3), of ct sons key]
        by simp
    next
      case (Some s)
      have s: "s \<in> set sons" "trie_ok (n - m - 1) s" using kid_in [OF Some] m(5) by auto
      have o: "triev2_offset ct (key_digit ?key) \<noteq> 0" "son_at sons (triev2_offset ct (key_digit ?key)) = Some s"
        using kid_offset(1) [OF m(4) key_digit_less [of ?key]] Some by (auto simp: kid_def)
      have e: "2 * n - 2 * m - 2 = 2 * (n - m - 1)" by simp
      show ?thesis
      proof (cases "n - m - 1 = 0")
        case True
        then show ?thesis using ok o s lookup_Node [OF m(1,3), of ct sons key] Some \<open>header_digits header = digits m key\<close>
          by (cases s) (auto simp: Let_def)
      next
        case False
        then show ?thesis using ok o Node.IH [OF s(1,2)] lookup_Node [OF m(1,3), of ct sons key] Some True unfolding e
          by simp
      qed
    qed
  qed
qed

lemma find_quick_loop_ok: "find_loop p key kl = Some d \<Longrightarrow> d \<noteq> NULL_WORD \<Longrightarrow> find_quick_loop p key kl = Some d"
proof (induction p key kl rule: find_loop.induct)
  case (1 d key kl)
  then show ?case by simp
next
  case (2 ct header sons key kl)
  let ?m = "PREFIX_LENGTH header"
  let ?key = "push_bit ?m key"
  from 2(2,3) have match: "?m = 0 \<or> NODE_PREFIX header = drop_bit (32 - ?m) key" and kl: "\<not> kl < ?m + 2"
    by (auto simp: Let_def split: if_splits)
  have m: "\<not> (?m \<noteq> 0 \<and> NODE_PREFIX header \<noteq> drop_bit (32 - ?m) key)" using match by metis
  have o: "\<not> triev2_offset ct (key_digit ?key) = 0"
    using 2(2,3) unfolding find_loop.simps Let_def if_not_P [OF m] if_not_P [OF kl] by (auto split: if_splits)
  obtain s where s: "son_at sons (triev2_offset ct (key_digit ?key)) = Some s"
      "(if kl - ?m - 2 = 0 then (case s of Data d \<Rightarrow> Some d | Node _ _ _ \<Rightarrow> None)
        else find_loop s (push_bit 2 ?key) (kl - ?m - 2)) = Some d"
    using 2(2) unfolding find_loop.simps Let_def if_not_P [OF m] if_not_P [OF kl] if_not_P [OF o] bind_eq_Some_conv by blast
  show ?case
  proof (cases "kl - ?m - 2 = 0")
    case True
    then have "kl - ?m = 2" using kl by simp
    then show ?thesis unfolding find_quick_loop.simps Let_def if_P [OF match] if_not_P [OF kl] s(1) bind.bind_lunit
      using s(2) True by simp
  next
    case False
    then have "kl - ?m \<noteq> 2" by simp
    then show ?thesis unfolding find_quick_loop.simps Let_def if_P [OF match] if_not_P [OF kl] s(1) bind.bind_lunit
      using s(2) 2(1) [OF refl m kl refl refl o s(1) False] False 2(3) by simp
  qed
qed

lemma contains_loop_ok: "find_loop p key kl = Some d \<Longrightarrow> trie_ok n p \<Longrightarrow> contains_loop p key kl = Some (d \<noteq> NULL_WORD)"
proof (induction p key kl arbitrary: n rule: find_loop.induct)
  case (1 d key kl)
  then show ?case by simp
next
  case (2 ct header sons key kl)
  let ?m = "PREFIX_LENGTH header"
  let ?key = "push_bit ?m key"
  from trie_ok_Node [OF 2(3)] obtain k where sons: "\<And>s. s \<in> set sons \<Longrightarrow> trie_ok (n - k - 1) s" by metis
  show ?case
  proof (cases "(?m \<noteq> 0 \<and> NODE_PREFIX header \<noteq> drop_bit (32 - ?m) key)")
    case True
    then show ?thesis using 2(2) by (simp add: Let_def)
  next
    case m: False
    from 2(2) m have kl: "\<not> kl < ?m + 2" unfolding find_loop.simps Let_def if_not_P [OF m] by (auto split: if_splits)
    show ?thesis
    proof (cases "triev2_offset ct (key_digit ?key) = 0")
      case True
      then show ?thesis using 2(2) unfolding find_loop.simps contains_loop.simps Let_def if_not_P [OF m] if_not_P [OF kl] by simp
    next
      case o: False
      obtain s where s: "son_at sons (triev2_offset ct (key_digit ?key)) = Some s"
          "(if kl - ?m - 2 = 0 then (case s of Data d \<Rightarrow> Some d | Node _ _ _ \<Rightarrow> None)
            else find_loop s (push_bit 2 ?key) (kl - ?m - 2)) = Some d"
        using 2(2) unfolding find_loop.simps Let_def if_not_P [OF m] if_not_P [OF kl] if_not_P [OF o] bind_eq_Some_conv by blast
      have ok: "trie_ok (n - k - 1) s" using sons s(1) by (auto simp: son_at_def split: if_splits)
      show ?thesis
        unfolding contains_loop.simps Let_def if_not_P [OF m] if_not_P [OF kl] if_not_P [OF o] s(1) bind.bind_lunit
        using s(2) ok 2(1) [OF refl m kl refl refl o s(1) _ _ ok] by (cases s) (auto split: if_splits)
    qed
  qed
qed

text \<open>A key of \<open>n\<close> digits stands at the lower end of a word; its other bits are ignored.\<close>

lemma key_digits: "push_bit (32 - 2 * n) key = key' \<Longrightarrow> digits n key' = prefix_digits n key"
  by (auto simp: prefix_digits_def)

definition trie_lookup :: "nat \<Rightarrow> trie option \<Rightarrow> word_t \<Rightarrow> word_t" where
  "trie_lookup n root key = root_lookup root (prefix_digits n key)"

lemma triev2_find_ok:
  assumes "root_ok n root" and "n > 0"
  shows "triev2_find root key (2 * n) = Some (trie_lookup n root key)"
    and "triev2_contains root key (2 * n) = Some (trie_lookup n root key \<noteq> NULL_WORD)"
    and "trie_lookup n root key \<noteq> NULL_WORD \<Longrightarrow> triev2_find_quick root key (2 * n) = Some (trie_lookup n root key)"
proof -
  have l: "find_loop p (push_bit (32 - 2 * n) key) (2 * n) = Some (trie_lookup n (Some p) key)" if "trie_ok n p" for p
    using find_loop_ok [OF that assms(2)] by (simp add: trie_lookup_def prefix_digits_def)
  show "triev2_find root key (2 * n) = Some (trie_lookup n root key)"
    using assms l by (cases root) (simp_all add: triev2_find_def trie_lookup_def)
  show "triev2_contains root key (2 * n) = Some (trie_lookup n root key \<noteq> NULL_WORD)"
    using assms l contains_loop_ok [OF l] by (cases root) (simp_all add: triev2_contains_def trie_lookup_def)
  show "triev2_find_quick root key (2 * n) = Some (trie_lookup n root key)" if "trie_lookup n root key \<noteq> NULL_WORD"
    using assms that find_quick_loop_ok [OF l] by (cases root) (simp_all add: triev2_find_quick_def trie_lookup_def)
qed

end
