(* ===== verification/Triev2_Insert.thy ===== *)
theory Triev2_Insert
  imports Triev2_Lookup
begin

text \<open>
  Insertion and replacement keep the invariant of a trie, change the map it stands for at one key, and
  allocate a bounded number of words.
\<close>

section \<open>Where a prefix and a key differ\<close>

lemma digit_push: "m \<le> 15 \<Longrightarrow> key_digit (push_bit (2 * m) key) = unat (drop_bit (30 - 2 * m) key AND 3)"
proof -
  assume m: "m \<le> 15"
  have three: "(3 :: word_t) = mask 2" by (simp add: mask_eq_exp_minus_1)
  have "drop_bit 30 (push_bit (2 * m) key) = drop_bit (30 - 2 * m) key AND 3"
    unfolding three
  proof (rule bit_word_eqI)
    fix n :: nat
    assume "n < LENGTH(32)"
    show "bit (drop_bit 30 (push_bit (2 * m) key)) n = bit (drop_bit (30 - 2 * m) key AND mask 2) n"
      using m bit_imp_le_length [of key "30 - 2 * m + n"] by (auto simp: bit_simps)
  qed
  then show ?thesis by (simp add: key_digit_def)
qed

lemma upper_digits: "m \<le> 16 \<Longrightarrow> prefix_digits m (drop_bit (32 - 2 * m) key) = digits m key"
  and upper_less: "m \<le> 16 \<Longrightarrow> unat (drop_bit (32 - 2 * m) key) < 4 ^ m"
proof -
  assume m: "m \<le> 16"
  have "unat key < 2 ^ 32" using unsigned_less [of key] by simp
  also have "(2 :: nat) ^ 32 = 4 ^ m * 2 ^ (32 - 2 * m)" unfolding four_power power_add [symmetric] using m by simp
  finally show l: "unat (drop_bit (32 - 2 * m) key) < 4 ^ m" by (simp add: unat_drop less_mult_imp_div_less)
  show "prefix_digits m (drop_bit (32 - 2 * m) key) = digits m key" using prefix_matches [OF l m] by blast
qed

lemma digits_Suc_iff: "digits (Suc m) a = digits (Suc m) b \<longleftrightarrow>
    digits m a = digits m b \<and> key_digit (push_bit (2 * m) a) = key_digit (push_bit (2 * m) b)"
  using digits_below [of m "Suc m" a] digits_below [of m "Suc m" b] by simp

lemma digits_eq_mono: "digits n a = digits n b \<Longrightarrow> m \<le> n \<Longrightarrow> digits m a = digits m b"
  using take_digits [of m n a] take_digits [of m n b] by simp

lemma digits_eq_rest:
  assumes "m < n" and "digits (Suc m) a = digits (Suc m) b"
  shows "digits n a = digits n b \<longleftrightarrow>
    digits (n - m - 1) (push_bit 2 (push_bit (2 * m) a)) = digits (n - m - 1) (push_bit 2 (push_bit (2 * m) b))"
  using assms(2) unfolding digits_Suc_iff digits_below [OF assms(1), of a] digits_below [OF assms(1), of b] by simp

lemma xor_zero_iff: "a XOR b = 0 \<longleftrightarrow> a = b" for a b :: word_t
  by (metis bit.xor_left_self xor.right_neutral xor_self_eq)

text \<open>The place of the first difference between a prefix of \<open>M\<close> digits, the upper digits of the key
  \<open>P\<close>, and a key; the code computes it from the highest bit of the exclusive or.\<close>

lemma split_place:
  assumes M: "M \<le> 10" and np: "np = drop_bit (32 - 2 * M) P" and kp: "kp = drop_bit (32 - 2 * M) key"
    and diff: "np \<noteq> kp"
  defines "r \<equiv> highest_bit (np XOR kp) div 2"
  shows "r < M" and "digits (M - 1 - r) P = digits (M - 1 - r) key"
    and "key_digit (push_bit (2 * (M - 1 - r)) P) \<noteq> key_digit (push_bit (2 * (M - 1 - r)) key)"
    and "key_digit (push_bit (2 * (M - 1 - r)) P) = unat (drop_bit (2 * r) np AND 3)"
proof -
  let ?x = "np XOR kp" and ?h = "highest_bit (np XOR kp)"
  have x: "?x \<noteq> 0" using diff by (simp add: xor_zero_iff)
  have h: "2 ^ ?h \<le> unat ?x" "unat ?x < 2 * 2 ^ ?h" using highest_bit_ok [OF x] by auto
  have "unat np < 4 ^ M" "unat kp < 4 ^ M" using upper_less [of M] M np kp by simp_all
  then have "drop_bit (2 * M) np = 0" "drop_bit (2 * M) kp = 0" by (simp_all add: drop_bit_zero_iff four_power)
  then have "drop_bit (2 * M) ?x = 0" by (simp add: drop_bit_xor)
  then have "unat ?x < 2 ^ (2 * M)" by (simp only: drop_bit_zero_iff)
  then have "(2 :: nat) ^ ?h < 2 ^ (2 * M)" using h(1) by linarith
  then have hM: "?h < 2 * M" by simp
  then show rM: "r < M" by (simp add: r_def)
  let ?m = "M - 1 - r"
  have r2: "2 * r \<le> ?h" "?h + 1 \<le> 2 * r + 2" by (simp_all add: r_def)
  have e: "32 - 2 * M + (2 * r + 2) = 32 - 2 * ?m" "32 - 2 * M + 2 * r = 30 - 2 * ?m"
    using rM M by linarith+
  have "30 - 2 * k = 32 - 2 * Suc k" for k :: nat by arith
  note e = e this [of ?m]
  have "(2 :: nat) ^ (?h + 1) \<le> 2 ^ (2 * r + 2)" using r2(2) by (intro power_increasing) simp_all
  then have "unat ?x < 2 ^ (2 * r + 2)" using h(2) by simp
  then have "drop_bit (2 * r + 2) ?x = 0" by (simp only: drop_bit_zero_iff)
  then have "drop_bit (2 * r + 2) np = drop_bit (2 * r + 2) kp"
    by (simp only: drop_bit_xor xor_zero_iff)
  then have "drop_bit (32 - 2 * ?m) P = drop_bit (32 - 2 * ?m) key" unfolding np kp drop_bit_drop_bit add.commute [of _ "32 - 2 * M"] e(1) .
  then show eq: "digits ?m P = digits ?m key" using M by (simp add: digits_inject)
  have d: "drop_bit (2 * r) np = drop_bit (30 - 2 * ?m) P" unfolding np drop_bit_drop_bit add.commute [of _ "32 - 2 * M"] e(2) ..
  have dk: "drop_bit (2 * r) kp = drop_bit (30 - 2 * ?m) key" unfolding kp drop_bit_drop_bit add.commute [of _ "32 - 2 * M"] e(2) ..
  have "(2 :: nat) ^ (2 * r) \<le> 2 ^ ?h" using r2(1) by (intro power_increasing) simp_all
  then have "\<not> unat ?x < 2 ^ (2 * r)" using h(1) by linarith
  then have "drop_bit (2 * r) ?x \<noteq> 0" by (simp only: drop_bit_zero_iff not_False_eq_True)
  then have "drop_bit (30 - 2 * ?m) P \<noteq> drop_bit (30 - 2 * ?m) key" by (simp only: drop_bit_xor xor_zero_iff d dk not_False_eq_True)
  then have "digits (Suc ?m) P \<noteq> digits (Suc ?m) key" unfolding e(3) using M digits_inject [of "Suc ?m"] by auto
  then show "key_digit (push_bit (2 * ?m) P) \<noteq> key_digit (push_bit (2 * ?m) key)" using eq by (simp add: digits_Suc_iff del: digits.simps)
  show "key_digit (push_bit (2 * ?m) P) = unat (drop_bit (2 * r) np AND 3)" unfolding d using M by (intro digit_push) simp
qed

section \<open>Insertion\<close>

abbreviation rest :: "nat \<Rightarrow> word_t \<Rightarrow> word_t" where
  "rest m key \<equiv> push_bit 2 (push_bit (2 * m) key)"

text \<open>
  \<open>room n p key m step\<close>: the step makes a node with \<open>m\<close> digits in its prefix and a slot for \<open>key\<close>.  With
  a trie in the slot it holds the keys of \<open>p\<close> that leave the way of \<open>key\<close> before the slot.
\<close>

definition room :: "nat \<Rightarrow> trie option \<Rightarrow> word_t \<Rightarrow> nat \<Rightarrow> step \<Rightarrow> bool" where
  "room n p key m = (\<lambda>(ct, header, left, old, right, key1, key_length1, ap1).
     header_ok m header \<and> m < n \<and> key1 = rest m key \<and> key_length1 = 2 * (n - m - 1) \<and> root_ok (n - m - 1) old \<and>
     (\<forall>s. trie_ok (n - m - 1) s \<longrightarrow> trie_ok n (Node ct header (left @ s # right))) \<and>
     (\<forall>s key'. lookup (Node ct header (left @ s # right)) (digits n key') =
        (if digits (Suc m) key' = digits (Suc m) key then lookup s (digits (n - m - 1) (rest m key'))
         else root_lookup p (digits n key'))) \<and>
     (\<forall>key'. digits (Suc m) key' = digits (Suc m) key \<longrightarrow>
        root_lookup p (digits n key') = root_lookup old (digits (n - m - 1) (rest m key'))))"

lemma roomI:
  assumes h: "header_ok m header" "header_digits header = digits m key" and mn: "m < n"
    and size: "\<And>s. length (left @ s # right) = trie_cell_size ct - 1"
    and sons: "\<And>s. s \<in> set left \<union> set right \<Longrightarrow> trie_ok (n - m - 1) s"
    and kids: "\<And>s c. c < 4 \<Longrightarrow> kid ct (left @ s # right) c = (if c = key_digit (push_bit (2 * m) key) then Some s else K c)"
    and old: "old = K (key_digit (push_bit (2 * m) key))" "root_ok (n - m - 1) old"
    and p1: "\<And>key'. digits m key' = digits m key \<Longrightarrow> root_lookup p (digits n key') =
      root_lookup (K (key_digit (push_bit (2 * m) key'))) (digits (n - m - 1) (rest m key'))"
    and p2: "\<And>key'. digits m key' \<noteq> digits m key \<Longrightarrow> root_lookup p (digits n key') = NULL_WORD"
    and kl: "key_length1 = 2 * (n - m - 1)"
  shows "room n p key m (ct, header, left, old, right, rest m key, key_length1, ap1)"
proof -
  have "trie_ok n (Node ct header (left @ s # right))" if "trie_ok (n - m - 1) s" for s
    using that sons size [of s] mn unfolding trie_ok_Node_iff [OF h(1)] by auto
  moreover have "lookup (Node ct header (left @ s # right)) (digits n key') =
        (if digits (Suc m) key' = digits (Suc m) key then lookup s (digits (n - m - 1) (rest m key'))
         else root_lookup p (digits n key'))" for s key'
    using lookup_Node [OF h(1) mn, of ct "left @ s # right" key'] h(2) kids [OF key_digit_less [of "push_bit (2 * m) key'"], of s] p1 [of key'] p2 [of key']
    unfolding digits_Suc_iff by auto
  moreover have "root_lookup p (digits n key') = root_lookup old (digits (n - m - 1) (rest m key'))"
    if "digits (Suc m) key' = digits (Suc m) key" for key'
    using that p1 [of key'] old(1) unfolding digits_Suc_iff by simp
  ultimately show ?thesis using h(1) mn old(2) kl by (simp add: room_def)
qed

text \<open>The cost of the rest of an insertion: at most two words for a digit where there is no node, and
  five where there is one, with five more for a split.\<close>

definition cost :: "trie option \<Rightarrow> nat \<Rightarrow> nat" where
  "cost p n = (if p = None then 2 * n else 5 * n + 5)"

lemma uni_kid: "d < 4 \<Longrightarrow> c < 4 \<Longrightarrow> kid (uni_cell_type d) [s] c = (if c = d then Some s else None)"
  and uni_size: "d < 4 \<Longrightarrow> trie_cell_size (uni_cell_type d) = 2"
  by (auto simp: less_4 kid_def uni_cell_type_def)

lemma new_header:
  assumes "m \<le> 10"
  shows "header_ok m (if 2 * m > 0 then make_header (2 * m) (drop_bit (32 - 2 * m) key) else 0)"
    and "header_digits (if 2 * m > 0 then make_header (2 * m) (drop_bit (32 - 2 * m) key) else 0) = digits m key"
  using assms header_ok_make [OF assms upper_less [of m key]] header_digits_make [OF assms upper_less [of m key]]
    upper_digits [of m key] by (auto simp: header_ok_0 header_digits_0)

lemma uni_room:
  assumes n: "n > 0" "n \<le> 16"
  shows "\<exists>m. room n None key m (new_uni_node key (2 * n) ap)" and "\<exists>ct h l r k kl. new_uni_node key (2 * n) ap = (ct, h, l, None, r, k, kl, ap + 2)"
proof -
  show "\<exists>ct h l r k kl. new_uni_node key (2 * n) ap = (ct, h, l, None, r, k, kl, ap + 2)"
    by (auto simp: new_uni_node_def Let_def)
  define m where "m = (if 2 * n < 22 then n - 1 else 10)"
  let ?h = "if 2 * m > 0 then make_header (2 * m) (drop_bit (32 - 2 * m) key) else 0"
  have m: "m \<le> 10" "m < n" using n by (auto simp: m_def)
  note h = new_header [OF m(1), of key]
  have "new_uni_node key (2 * n) ap =
    (uni_cell_type (key_digit (push_bit (2 * m) key)), ?h, [], None, [], rest m key, 2 * (n - m - 1), ap + 2)"
  proof (cases "n > 1")
    case True
    then have "(if 2 * n < 22 then 2 * n - 2 else 20) = 2 * m" by (auto simp: m_def)
    then show ?thesis using True by (simp only: new_uni_node_def Let_def) (auto simp: m_def)
  next
    case False
    then have "n = 1" "m = 0" using n by (auto simp: m_def)
    then show ?thesis by (simp add: new_uni_node_def del: push_bit_numeral_minus_1)
  qed
  moreover have "room n None key m (uni_cell_type (key_digit (push_bit (2 * m) key)), ?h, [], None, [], rest m key, 2 * (n - m - 1), ap + 2)"
    by (rule roomI [where K = "\<lambda>_. None", OF h m(2)]) (simp_all add: uni_kid uni_size key_digit_less)
  ultimately show "\<exists>m. room n None key m (new_uni_node key (2 * n) ap)" by auto
qed

lemma copy_room:
  assumes p: "trie_ok n (Node ct header sons)" and match: "header_ok m header" "header_digits header = digits m key"
    and c: "copy_with ct (key_digit (push_bit (2 * m) key)) sons = Some (ct', left, old, right)"
  shows "room n (Some (Node ct header sons)) key m (ct', header, left, old, right, rest m key, 2 * (n - m - 1), ap')"
    and "trie_cell_size ct' \<le> 5"
proof -
  have s: "m < n" "length sons = trie_cell_size ct - 1" "\<And>s. s \<in> set sons \<Longrightarrow> trie_ok (n - m - 1) s"
    using p unfolding trie_ok_Node_iff [OF match(1)] by auto
  note d = key_digit_less [of "push_bit (2 * m) key"]
  have cp: "old = kid ct sons (key_digit (push_bit (2 * m) key))" "set left \<subseteq> set sons" "set right \<subseteq> set sons"
    "\<And>s. length (left @ s # right) = trie_cell_size ct' - 1"
    "\<And>s c. c < 4 \<Longrightarrow> kid ct' (left @ s # right) c = (if c = key_digit (push_bit (2 * m) key) then Some s else kid ct sons c)"
    using copy_with_ok [OF s(2) d] unfolding c copied_simps by auto
  have ok: "root_ok (n - m - 1) (kid ct sons c)" for c
    using s(3) kid_in [of ct sons c] by (cases "kid ct sons c") auto
  show "room n (Some (Node ct header sons)) key m (ct', header, left, old, right, rest m key, 2 * (n - m - 1), ap')"
    by (rule roomI [where K = "kid ct sons", OF match s(1)])
      (use cp ok s(3) lookup_Node [OF match(1) s(1)] match(2) in \<open>auto simp: subset_iff\<close>)
  show "trie_cell_size ct' \<le> 5" by (rule cell_tables)
qed

lemma bi_kids:
  assumes "a < 4" and "b < 4" and "a \<noteq> b"
  shows "\<exists>ct. bi_cell_type a b = Some ct \<and> trie_cell_size ct = 3 \<and>
    (\<forall>s t c. c < 4 \<longrightarrow> kid ct (if triev2_offset ct b < triev2_offset ct a then [t, s] else [s, t]) c =
      (if c = a then Some s else if c = b then Some t else None))"
  using assms unfolding less_4 by (auto simp: bi_cell_type_def kid_def)

lemma lower_digits:
  assumes "M \<le> 10" and "r < M"
  shows "prefix_digits r (np AND (push_bit (2 * r) 1 - 1)) = digits r (rest (M - 1 - r) (push_bit (32 - 2 * M) np))"
    and "unat (np AND (push_bit (2 * r) 1 - 1)) < 4 ^ r"
proof -
  have m: "push_bit (2 * r) 1 - 1 = (mask (2 * r) :: word_t)" by (simp add: mask_eq_exp_minus_1 push_bit_eq_mult)
  have t: "np AND (push_bit (2 * r) 1 - 1) = take_bit (2 * r) np" unfolding m by (simp add: take_bit_eq_mask)
  have "unat (take_bit (2 * r) np) = take_bit (2 * r) (unat np)" by (rule unsigned_take_bit_eq)
  then show "unat (np AND (push_bit (2 * r) 1 - 1)) < 4 ^ r" unfolding t four_power by simp
  have "push_bit (32 - 2 * r) (take_bit (2 * r) np) = push_bit (32 - 2 * r) np"
    using assms by (intro bit_word_eqI) (auto simp: bit_simps)
  also have "\<dots> = rest (M - 1 - r) (push_bit (32 - 2 * M) np)"
  proof -
    have "32 - 2 * r = 2 + (2 * (M - 1 - r) + (32 - 2 * M))" using assms by linarith
    then show ?thesis by (simp only: push_bit_push_bit)
  qed
  finally show "prefix_digits r (np AND (push_bit (2 * r) 1 - 1)) = digits r (rest (M - 1 - r) (push_bit (32 - 2 * M) np))"
    unfolding t prefix_digits_def by simp
qed

lemma split_room:
  assumes p: "trie_ok n (Node ct header sons)" and n: "n \<le> 16" and h: "header_ok M header"
    and diff: "header_digits header \<noteq> digits M key"
  shows "\<exists>m ct' h' left right. split_node ct header sons key (2 * n) ap =
      Some (ct', h', left, None, right, rest m key, 2 * (n - m - 1), ap + trie_cell_size ct + 3) \<and>
    room n (Some (Node ct header sons)) key m
      (ct', h', left, None, right, rest m key, 2 * (n - m - 1), ap + trie_cell_size ct + 3)"
proof -
  let ?np = "NODE_PREFIX header" and ?kp = "drop_bit (32 - 2 * M) key"
  define P where "P = push_bit (32 - 2 * M) ?np"
  define r where "r = highest_bit (?np XOR ?kp) div 2"
  define m where "m = M - 1 - r"
  note hd = header_okD [OF h]
  have M: "M \<le> 10" "M < n" "length sons = trie_cell_size ct - 1" "\<And>s. s \<in> set sons \<Longrightarrow> trie_ok (n - M - 1) s"
    using hd(3) p unfolding trie_ok_Node_iff [OF h] by auto
  have ds: "header_digits header = digits M P" using hd(5) by (simp add: P_def prefix_digits_def)
  have np: "?np = drop_bit (32 - 2 * M) P"
    using prefix_matches [OF hd(2), of P] M(1) ds hd(5) by simp
  have "?np \<noteq> ?kp" using prefix_matches [OF hd(2), of key] M(1) diff hd(5) by simp
  note sp = split_place [OF M(1) np refl this, folded r_def, folded m_def]
  have Mmr: "M = m + r + 1" using sp(1) by (simp add: m_def)
  let ?nd = "key_digit (push_bit (2 * m) P)" and ?kd = "key_digit (push_bit (2 * m) key)"
  let ?oh = "make_header (2 * r) (?np AND (push_bit (2 * r) 1 - 1))"
  let ?old_p = "Node ct ?oh sons" and ?h = "if 2 * m > 0 then make_header (2 * m) (drop_bit (32 - 2 * m) key) else 0"
  have m10: "m \<le> 10" "r \<le> 10" and mn: "m < n" using Mmr M by simp_all
  note nh = new_header [OF m10(1), of key]
  have oh: "header_ok r ?oh" "header_digits ?oh = digits r (rest m P)"
    using lower_digits [OF M(1) sp(1), of ?np] m10(2) by (simp_all add: header_ok_make header_digits_make P_def m_def)
  have n_eq: "n - m - 1 - r - 1 = n - M - 1" "r < n - m - 1" "M - m - 1 = r" using Mmr M(2) by simp_all
  have old_ok: "trie_ok (n - m - 1) ?old_p" unfolding trie_ok_Node_iff [OF oh(1)] using M(3,4) n_eq by simp
  obtain ct' where ct': "bi_cell_type ?kd ?nd = Some ct'" "trie_cell_size ct' = 3"
     "\<And>s t c. c < 4 \<Longrightarrow> kid ct' (if triev2_offset ct' ?nd < triev2_offset ct' ?kd then [t, s] else [s, t]) c =
        (if c = ?kd then Some s else if c = ?nd then Some t else None)"
    using bi_kids [OF key_digit_less [of "push_bit (2 * m) key"] key_digit_less [of "push_bit (2 * m) P"]] sp(3) by metis
  let ?b = "triev2_offset ct' ?nd < triev2_offset ct' ?kd"
  let ?left = "if ?b then [?old_p] else []" and ?right = "if ?b then [] else [?old_p]"
  let ?step = "(ct', ?h, ?left, None, ?right, rest m key, 2 * (n - m - 1), ap + trie_cell_size ct + 3)"
  have pl: "2 * M - (2 + 2 * r) = 2 * m" "2 * n - 2 * m - 2 = 2 * (n - m - 1)" using Mmr by simp_all
  have "split_node ct header sons key (2 * n) ap = Some ?step"
    unfolding split_node_def Let_def hd(1) r_def [symmetric] pl sp(4) [symmetric] ct'(1) bind.bind_lunit ..
  moreover have "room n (Some (Node ct header sons)) key m ?step"
  proof (rule roomI [where K = "\<lambda>c. if c = ?nd then Some ?old_p else None", OF nh mn])
    show "kid ct' (?left @ s # ?right) c = (if c = ?kd then Some s else if c = ?nd then Some ?old_p else None)"
      if "c < 4" for s c
      using ct'(3) [OF that, of ?old_p s] by (auto split: if_splits)
    show "root_lookup (Some (Node ct header sons)) (digits n key') =
      root_lookup (if key_digit (push_bit (2 * m) key') = ?nd then Some ?old_p else None) (digits (n - m - 1) (rest m key'))"
      if "digits m key' = digits m key" for key'
    proof -
      have "digits M P = digits M key' \<longleftrightarrow> ?nd = key_digit (push_bit (2 * m) key') \<and> digits r (rest m P) = digits r (rest m key')"
        using that sp(2) Mmr digits_below [of m M P] digits_below [of m M key'] by simp
      note eq = this
      have sh: "push_bit (2 * r) (rest m key') = push_bit (2 * M) key'"
        unfolding push_bit_push_bit by (rule arg_cong [where f = "\<lambda>k. push_bit k key'"]) (use Mmr in simp)
      note L = lookup_Node [OF h M(2), of ct sons key', unfolded ds eq]
        and R = lookup_Node [OF oh(1) n_eq(2), of ct sons "rest m key'", unfolded oh(2) n_eq(1) sh]
      show ?thesis
      proof (cases "?nd = key_digit (push_bit (2 * m) key')")
        case True
        then show ?thesis unfolding root_lookup_simps L if_P [OF True [symmetric]] R by simp
      next
        case False
        then show ?thesis unfolding root_lookup_simps L by simp
      qed
    qed
    show "root_lookup (Some (Node ct header sons)) (digits n key') = NULL_WORD" if "digits m key' \<noteq> digits m key" for key'
      using that sp(2) ds digits_eq_mono [of M P key' m] Mmr lookup_Node [OF h M(2), of ct sons key'] by auto
  qed (use ct'(2) old_ok sp(3) in \<open>auto simp del: trie_ok.simps split: if_splits\<close>)
  ultimately show ?thesis by blast
qed

definition step_ok :: "nat \<Rightarrow> trie option \<Rightarrow> word_t \<Rightarrow> nat \<Rightarrow> nat \<Rightarrow> step \<Rightarrow> bool" where
  "step_ok n p key ap m step \<longleftrightarrow> room n p key m step \<and> (case step of (ct, header, left, old, right, key1, key_length1, ap1) \<Rightarrow>
     ap \<le> ap1 \<and> ap1 + cost old (n - m - 1) \<le> ap + cost p n)"

lemma insert_step_ok:
  assumes p: "root_ok n p" and n: "n > 0" "n \<le> 16"
  shows "\<exists>m step. insert_step p key (2 * n) ap = Some step \<and> step_ok n p key ap m step"
proof (cases p)
  case None
  obtain m where m: "room n None key m (new_uni_node key (2 * n) ap)" using uni_room(1) [OF n] by blast
  obtain ct h l r k kl where u: "new_uni_node key (2 * n) ap = (ct, h, l, None, r, k, kl, ap + 2)"
    using uni_room(2) [OF n, of key ap] by blast
  have "m < n" using m by (auto simp: room_def split: prod.splits)
  then have "step_ok n None key ap m (new_uni_node key (2 * n) ap)" using m by (simp add: step_ok_def u cost_def)
  then show ?thesis using None by (auto simp: insert_step_def)
next
  case (Some q)
  show ?thesis
  proof (cases q)
    case (Data d)
    then show ?thesis using p n Some by simp
  next
    case (Node ct header sons)
    have q: "trie_ok n (Node ct header sons)" using p Some Node by simp
    from trie_ok_Node [OF q] obtain M where M: "header_ok M header" "PREFIX_LENGTH header = 2 * M" "M < n" "M \<le> 10"
      "length (header_digits header) = M" "length sons = trie_cell_size ct - 1" by metis
    have match: "(header \<noteq> 0 \<and> NODE_PREFIX header \<noteq> drop_bit (32 - 2 * M) key) \<longleftrightarrow> header_digits header \<noteq> digits M key"
      using header_matches [OF M(1), of key] M(2,5) header_ok_0 [of M] M(1) by (cases "header = 0") auto
    show ?thesis
    proof (cases "header_digits header = digits M key")
      case False
      obtain m ct' h' left right where s: "split_node ct header sons key (2 * n) ap =
          Some (ct', h', left, None, right, rest m key, 2 * (n - m - 1), ap + trie_cell_size ct + 3)"
        "room n (Some (Node ct header sons)) key m
          (ct', h', left, None, right, rest m key, 2 * (n - m - 1), ap + trie_cell_size ct + 3)"
        using split_room [OF q n(2) M(1) False, of ap] by blast
      have "step_ok n p key ap m (ct', h', left, None, right, rest m key, 2 * (n - m - 1), ap + trie_cell_size ct + 3)"
        using s(2) Some Node cell_tables(3) [of ct] n(1) by (simp add: step_ok_def cost_def)
      moreover have "insert_step p key (2 * n) ap = split_node ct header sons key (2 * n) ap"
        using Some Node False match M(2) by (simp add: insert_step_def Let_def)
      ultimately show ?thesis using s(1) by auto
    next
      case True
      let ?b = "key_digit (push_bit (2 * M) key)"
      obtain ct' left right where c: "copy_with ct ?b sons = Some (ct', left, kid ct sons ?b, right)"
        using copy_with_ok [OF M(6) key_digit_less [of "push_bit (2 * M) key"]] unfolding copied_def by blast
      note r = copy_room [OF q M(1) True c]
      have e: "2 * n - 2 * M - 2 = 2 * (n - M - 1)" by simp
      have "step_ok n p key ap M (ct', header, left, kid ct sons ?b, right, rest M key, 2 * (n - M - 1), ap + trie_cell_size ct')"
        using r(1) [of "ap + trie_cell_size ct'"] r(2) Some Node M(3) by (cases "kid ct sons ?b") (simp_all add: step_ok_def cost_def)
      moreover have "\<not> (header \<noteq> 0 \<and> NODE_PREFIX header \<noteq> drop_bit (32 - 2 * M) key)" using match True by blast
      then have "insert_step p key (2 * n) ap =
          Some (ct', header, left, kid ct sons ?b, right, rest M key, 2 * (n - M - 1), ap + trie_cell_size ct')"
        unfolding insert_step_def Some Node Let_def M(2) option.case trie.case using c M(3) by (simp add: e del: de_Morgan_conj)
      ultimately show ?thesis by blast
    qed
  qed
qed

text \<open>What an insertion stores, and what it leaves behind.\<close>

definition new_data :: "(word_t \<Rightarrow> word_t \<Rightarrow> word_t) option \<Rightarrow> word_t \<Rightarrow> word_t \<Rightarrow> word_t" where
  "new_data f data old = (if old = NULL_WORD then data else updated f old data)"

fun insert_ok :: "nat \<Rightarrow> trie option \<Rightarrow> word_t \<Rightarrow> word_t \<Rightarrow> nat \<Rightarrow> insert_result \<Rightarrow> bool" where
  "insert_ok n p key new ap Nilpotent \<longleftrightarrow> root_lookup p (digits n key) = new"
| "insert_ok n p key new ap (Inserted t ap') \<longleftrightarrow> trie_ok n t \<and>
    (\<forall>key'. lookup t (digits n key') = (if digits n key' = digits n key then new else root_lookup p (digits n key'))) \<and>
    ap \<le> ap' \<and> ap' \<le> ap + cost p n"

lemma wrap_ok:
  assumes s: "step_ok n p key ap m (ct, header, left, old, right, rest m key, 2 * (n - m - 1), ap1)"
    and r: "insert_ok (n - m - 1) old (rest m key) new ap1 r"
  shows "insert_ok n p key new ap (wrap_result ct header left right r)"
proof -
  have m: "m < n" and ap: "ap \<le> ap1" "ap1 + cost old (n - m - 1) \<le> ap + cost p n"
    using s by (auto simp: step_ok_def room_def)
  have room: "\<And>s. trie_ok (n - m - 1) s \<Longrightarrow> trie_ok n (Node ct header (left @ s # right))"
    "\<And>s key'. lookup (Node ct header (left @ s # right)) (digits n key') =
        (if digits (Suc m) key' = digits (Suc m) key then lookup s (digits (n - m - 1) (rest m key'))
         else root_lookup p (digits n key'))"
    "\<And>key'. digits (Suc m) key' = digits (Suc m) key \<Longrightarrow>
        root_lookup p (digits n key') = root_lookup old (digits (n - m - 1) (rest m key'))"
    using s unfolding step_ok_def room_def by simp_all
  show ?thesis
  proof (cases r)
    case Nilpotent
    then show ?thesis using r room(3) [of key] by simp
  next
    case (Inserted t ap')
    have t: "trie_ok (n - m - 1) t" "\<And>key'. lookup t (digits (n - m - 1) key') =
        (if digits (n - m - 1) key' = digits (n - m - 1) (rest m key) then new else root_lookup old (digits (n - m - 1) key'))"
      "ap1 \<le> ap'" "ap' \<le> ap1 + cost old (n - m - 1)"
      using r Inserted by auto
    have "lookup (Node ct header (left @ t # right)) (digits n key') =
        (if digits n key' = digits n key then new else root_lookup p (digits n key'))" for key'
    proof (cases "digits (Suc m) key' = digits (Suc m) key")
      case True
      show ?thesis unfolding room(2) if_P [OF True] t(2) digits_eq_rest [OF m True] room(3) [OF True] ..
    next
      case False
      then have "digits n key' \<noteq> digits n key" using digits_eq_mono [of n key' key "Suc m"] m by auto
      then show ?thesis unfolding room(2) using False by (simp del: digits.simps)
    qed
    then show ?thesis using Inserted room(1) [OF t(1)] t(3,4) ap by simp
  qed
qed

lemma store_data_ok:
  assumes "root_ok 0 old" and "data \<noteq> NULL_WORD" and "\<And>d. updated f d data \<noteq> NULL_WORD"
  shows "\<exists>r. store_data f data old ap = Some r \<and> insert_ok 0 old key (new_data f data (root_lookup old [])) ap r"
proof (cases old)
  case None
  then show ?thesis using assms by (simp add: store_data_def new_data_def)
next
  case (Some t)
  then obtain d where "t = Data d" "d \<noteq> NULL_WORD" using assms(1) by (cases t) auto
  then show ?thesis using Some assms by (auto simp: store_data_def new_data_def updated_def Let_def)
qed

lemma trie_insert_loop_ok:
  assumes "data \<noteq> NULL_WORD" and "\<And>d. updated f d data \<noteq> NULL_WORD"
  shows "root_ok n p \<Longrightarrow> n > 0 \<Longrightarrow> n \<le> 16 \<Longrightarrow>
    \<exists>r. trie_insert_loop f data p key (2 * n) ap = Some r \<and>
      insert_ok n p key (new_data f data (root_lookup p (digits n key))) ap r"
proof (induction n arbitrary: p key ap rule: less_induct)
  case (less n)
  obtain m step where st: "insert_step p key (2 * n) ap = Some step" "step_ok n p key ap m step"
    using insert_step_ok [OF less.prems] by blast
  obtain ct header left old right ap1 where step: "step = (ct, header, left, old, right, rest m key, 2 * (n - m - 1), ap1)"
      and m: "m < n" "root_ok (n - m - 1) old"
      "root_lookup p (digits n key) = root_lookup old (digits (n - m - 1) (rest m key))"
    using st(2) unfolding step_ok_def room_def by (cases step) auto
  let ?new = "new_data f data (root_lookup p (digits n key))"
  have "\<exists>r. (if 2 * (n - m - 1) = 0 then store_data f data old ap1
      else trie_insert_loop f data old (rest m key) (2 * (n - m - 1)) ap1) = Some r \<and>
    insert_ok (n - m - 1) old (rest m key) ?new ap1 r"
  proof (cases "n - m - 1 = 0")
    case True
    then show ?thesis using store_data_ok [OF _ assms, of old ap1 "rest m key"] m by simp
  next
    case False
    then show ?thesis using less.IH [of "n - m - 1" old "rest m key" ap1] m less.prems by simp
  qed
  then obtain r where r: "(if 2 * (n - m - 1) = 0 then store_data f data old ap1
      else trie_insert_loop f data old (rest m key) (2 * (n - m - 1)) ap1) = Some r"
    "insert_ok (n - m - 1) old (rest m key) ?new ap1 r" by blast
  have k: "\<not> (odd (2 * n) \<or> 2 * n = 0)" "\<not> 2 * (n - m - 1) \<ge> 2 * n" using m(1) by simp_all
  have "trie_insert_loop f data p key (2 * n) ap = Some (wrap_result ct header left right r)"
    unfolding trie_insert_loop.simps [of f data p key "2 * n" ap] if_not_P [OF k(1)] st(1) step bind.bind_lunit prod.case
      if_not_P [OF k(2)] r(1) ..
  then show ?case using wrap_ok [OF _ r(2)] st(2) step by auto
qed

lemma triev2_insert_ok:
  assumes "root_ok n root" and "0 < n" "n \<le> 16" and "data \<noteq> NULL_WORD" "\<And>d. updated f d data \<noteq> NULL_WORD"
  shows "\<exists>root' ap'. triev2_insert root key (2 * n) f data ap = Some (root', ap') \<and> root_ok n root' \<and>
    (\<forall>key'. trie_lookup n root' key' =
      (if prefix_digits n key' = prefix_digits n key then new_data f data (trie_lookup n root key)
       else trie_lookup n root key')) \<and> ap \<le> ap' \<and> ap' \<le> ap + TRIEV2_MAX_ALLOCATION"
proof -
  let ?key = "push_bit (32 - 2 * n) key"
  obtain r where r: "trie_insert_loop f data root ?key (2 * n) ap = Some r"
      "insert_ok n root ?key (new_data f data (root_lookup root (digits n ?key))) ap r"
    using trie_insert_loop_ok [OF assms(4,5) assms(1-3)] by blast
  have cost: "cost root n \<le> TRIEV2_MAX_ALLOCATION" using assms(3) by (simp add: cost_def TRIEV2_MAX_ALLOCATION_def)
  show ?thesis
  proof (cases r)
    case Nilpotent
    then show ?thesis using r assms(1) by (auto simp: triev2_insert_def trie_lookup_def prefix_digits_def)
  next
    case (Inserted t ap')
    then show ?thesis using r cost by (simp add: triev2_insert_def trie_lookup_def prefix_digits_def)
  qed
qed

text \<open>A replacement of a key that is there takes the same steps as an insertion.\<close>

lemma replace_step_eq:
  assumes p: "root_ok n p" and "n > 0" and l: "root_lookup p (digits n key) \<noteq> NULL_WORD"
  shows "replace_step p key (2 * n) ap = insert_step p key (2 * n) ap"
proof -
  obtain ct header sons where q: "p = Some (Node ct header sons)"
    using p l \<open>n > 0\<close> by (cases p) (auto elim: trie_ok.elims)
  then have "trie_ok n (Node ct header sons)" using p by simp
  from trie_ok_Node [OF this] obtain m where m: "header_ok m header" "m < n" by metis
  have "header_digits header = digits m key" using l lookup_Node [OF m, of ct sons key] q by (auto split: if_splits)
  then have match: "\<not> (header \<noteq> 0 \<and> NODE_PREFIX header \<noteq> drop_bit (32 - PREFIX_LENGTH header) key)"
    using header_matches [OF m(1), of key] by simp
  show ?thesis unfolding q replace_step_def insert_step_def option.case trie.case Let_def if_not_P [OF match] ..
qed

lemma replace_loop_eq:
  "root_ok n p \<Longrightarrow> n > 0 \<Longrightarrow> n \<le> 16 \<Longrightarrow> root_lookup p (digits n key) \<noteq> NULL_WORD \<Longrightarrow>
    replace_loop f data p key (2 * n) ap = trie_insert_loop f data p key (2 * n) ap"
proof (induction n arbitrary: p key ap rule: less_induct)
  case (less n)
  obtain m step where st: "insert_step p key (2 * n) ap = Some step" "step_ok n p key ap m step"
    using insert_step_ok [OF less.prems(1-3)] by blast
  obtain ct header left old right ap1 where step: "step = (ct, header, left, old, right, rest m key, 2 * (n - m - 1), ap1)"
      and m: "m < n" "root_ok (n - m - 1) old"
      "root_lookup p (digits n key) = root_lookup old (digits (n - m - 1) (rest m key))"
    using st(2) unfolding step_ok_def room_def by (cases step) auto
  have old: "root_lookup old (digits (n - m - 1) (rest m key)) \<noteq> NULL_WORD" using less.prems(4) m(3) by simp
  have "(if 2 * (n - m - 1) = 0 then replace_data f data old ap1
      else replace_loop f data old (rest m key) (2 * (n - m - 1)) ap1) =
    (if 2 * (n - m - 1) = 0 then store_data f data old ap1
      else trie_insert_loop f data old (rest m key) (2 * (n - m - 1)) ap1)"
  proof (cases "n - m - 1 = 0")
    case True
    then obtain d where "old = Some (Data d)" "d \<noteq> NULL_WORD"
      using old m(2) by (cases old) (auto elim: trie_ok.elims)
    then show ?thesis using True by (simp add: store_data_def replace_data_def)
  next
    case False
    then show ?thesis using less.IH [OF _ m(2) _ _ old, of ap1] less.prems(2,3) by simp
  qed
  note eq = this
  show ?case
    unfolding trie_insert_loop.simps [of f data p key "2 * n" ap] replace_loop.simps [of f data p key "2 * n" ap]
      replace_step_eq [OF less.prems(1,2,4)] st(1) step bind.bind_lunit prod.case eq ..
qed

lemma triev2_replace_eq:
  assumes "root_ok n root" and "0 < n" "n \<le> 16" and "trie_lookup n root key \<noteq> NULL_WORD"
  shows "triev2_replace root key (2 * n) f data ap = triev2_insert root key (2 * n) f data ap"
  using replace_loop_eq [OF assms(1-3)] assms(4)
  by (simp add: triev2_replace_def triev2_insert_def trie_lookup_def prefix_digits_def)

end
