(* ===== verification/Triev2_Delete.thy ===== *)
theory Triev2_Delete
  imports Triev2_Insert
begin

text \<open>
  \<^verbatim>\<open>triev2_delete\<close>: the descent that records a path, the loop that empties or joins nodes on the way
  up, and the loop that copies the rest of the path.  A deletion keeps the invariant of a trie, takes
  away one key, and allocates at most five words for each digit.
\<close>

section \<open>Deletion\<close>

text \<open>An entry of the vector \<open>path\<close>: the parts of the node, the digit and the offset.  The last entry is the
  head of the list.\<close>

type_synonym trie_frame = "trie_cell \<times> word_t \<times> trie list \<times> nat \<times> nat"

datatype descent = Missing | Found word_t "trie_frame list"

text \<open>The first loop of \<^verbatim>\<open>triev2_delete\<close>.\<close>

function path_loop :: "trie \<Rightarrow> word_t \<Rightarrow> nat \<Rightarrow> trie_frame list \<Rightarrow> descent option" where
  "path_loop (Data d) key key_length path = None"
| "path_loop (Node ct header sons) key key_length path =
    (let prefix_length = PREFIX_LENGTH header in
     if prefix_length \<noteq> 0 \<and> NODE_PREFIX header \<noteq> drop_bit (32 - prefix_length) key then Some Missing
     else if key_length < prefix_length + 2 then None
     else
       let key1 = push_bit prefix_length key; ix = key_digit key1; i = triev2_offset ct ix in
       if i = 0 then Some Missing
       else do {
         old_data \<leftarrow> son_at sons i;
         let path' = (ct, header, sons, ix, i) # path;
         (if key_length - prefix_length - 2 = 0
          then (case old_data of Data d \<Rightarrow> Some (Found d path') | Node _ _ _ \<Rightarrow> None)
          else path_loop old_data (push_bit 2 key1) (key_length - prefix_length - 2) path') })"
  by pat_completeness auto

termination
  by (relation "measure (\<lambda>(p, key, key_length, path). size p)") (auto simp: son_at_size)

text \<open>A node without the son at \<open>ix\<close>.\<close>

definition other_sons :: "trie_cell \<Rightarrow> trie list \<Rightarrow> nat \<Rightarrow> trie list" where
  "other_sons ct sons ix =
    concat (map (\<lambda>j. if triev2_offset ct j \<noteq> 0 \<and> j \<noteq> ix then (case son_at sons (triev2_offset ct j) of Some s \<Rightarrow> [s] | None \<Rightarrow> [])
      else []) [0, 1, 2, 3])"

definition shrink_node :: "trie_cell \<Rightarrow> word_t \<Rightarrow> trie list \<Rightarrow> nat \<Rightarrow> trie option" where
  "shrink_node ct header sons ix = do {
     new_ct \<leftarrow> cell_type_without ct ix;
     (if trie_cell_size new_ct = trie_cell_size ct - 1 then Some (Node new_ct header (other_sons ct sons ix))
      else None) }"

text \<open>A node joined with its only descendant.\<close>

definition merge_header :: "trie_cell \<Rightarrow> word_t \<Rightarrow> nat \<Rightarrow> word_t \<Rightarrow> word_t option" where
  "merge_header ct header off q_header =
    (let d = deoffset ct (2 - off) in
     if d = 0xFF then None
     else Some (make_header (PREFIX_LENGTH header + PREFIX_LENGTH q_header + 2)
       (push_bit (PREFIX_LENGTH q_header) (push_bit 2 (NODE_PREFIX header) OR of_nat d) OR NODE_PREFIX q_header)))"

text \<open>The loop that empties nodes: the new subtree, \<open>None\<close> when the whole trie has become empty, the rest
  of the path above it, and the allocation point.  \<open>leaf\<close> tells that the node is the last one of the path.\<close>

fun remove_loop :: "bool \<Rightarrow> trie_frame list \<Rightarrow> nat \<Rightarrow> (trie option \<times> trie_frame list \<times> nat) option" where
  "remove_loop leaf [] ap = Some (None, [], ap)"
| "remove_loop leaf ((ct, header, sons, ix, off) # path) ap =
    (let cs = trie_cell_size ct in
     if cs = 3 then do {
       q \<leftarrow> son_at sons (3 - off);
       (case (leaf, q) of
          (False, Data _) \<Rightarrow> None
        | (False, Node q_ct q_header q_sons) \<Rightarrow>
            if PREFIX_LENGTH header + PREFIX_LENGTH q_header \<le> 18 then do {
              new_header \<leftarrow> merge_header ct header off q_header;
              Some (Some (Node q_ct new_header q_sons), path, ap + trie_cell_size q_ct) }
            else do {
              new_ct \<leftarrow> cell_type_without ct ix;
              (if trie_cell_size new_ct = 2 then Some (Some (Node new_ct header [q]), path, ap + 2) else None) }
        | (True, _) \<Rightarrow> do {
              new_ct \<leftarrow> cell_type_without ct ix;
              (if trie_cell_size new_ct = 2 then Some (Some (Node new_ct header [q]), path, ap + 2) else None) }) }
     else if cs = 4 \<or> cs = 5 then do {
       new_p \<leftarrow> shrink_node ct header sons ix;
       Some (Some new_p, path, ap + cs - 1) }
     else remove_loop False path ap)"

text \<open>The loop that copies the nodes above the new subtree.\<close>

fun copy_up :: "trie \<Rightarrow> trie_frame list \<Rightarrow> nat \<Rightarrow> trie \<times> nat" where
  "copy_up data [] ap = (data, ap)"
| "copy_up data ((ct, header, sons, ix, off) # path) ap =
    copy_up (Node ct header (sons[off - 1 := data])) path (ap + trie_cell_size ct)"

definition triev2_delete :: "trie option \<Rightarrow> word_t \<Rightarrow> nat \<Rightarrow> (word_t \<Rightarrow> word_t \<Rightarrow> word_t) option \<Rightarrow> word_t \<Rightarrow> nat \<Rightarrow>
    (trie option \<times> nat) option" where
  "triev2_delete root key key_length f data ap =
    (case root of
       None \<Rightarrow> Some (None, ap)
     | Some p \<Rightarrow>
       if key_length = 0 then None
       else do {
         d \<leftarrow> path_loop p (push_bit (32 - key_length) key) key_length [];
         (case d of
            Missing \<Rightarrow> Some (root, ap)
          | Found old_data path \<Rightarrow>
            (let data' = (case f of None \<Rightarrow> data | Some f \<Rightarrow> f old_data data) in
             if data' = old_data then Some (root, ap)
             else if data' = NULL_WORD then do {
               (new_p, path', ap') \<leftarrow> remove_loop True path ap;
               (case new_p of
                  None \<Rightarrow> Some (None, ap')
                | Some t \<Rightarrow> (let (t', ap'') = copy_up t path' ap' in Some (Some t', ap''))) }
             else let (t', ap'') = copy_up (Data data') path ap in Some (Some t', ap''))) })"

section \<open>The path to a key\<close>

text \<open>\<open>trie_path_ok N root key n path\<close>: \<open>path\<close> leads along \<open>key\<close>, of \<open>N\<close> digits, from the root to a place where \<open>n\<close>
  digits are left.  \<open>suffix\<close> is the key without the other digits.\<close>

abbreviation suffix :: "nat \<Rightarrow> nat \<Rightarrow> word_t \<Rightarrow> word_t" where
  "suffix N n key \<equiv> push_bit (2 * (N - n)) key"

definition below :: "nat \<Rightarrow> trie option \<Rightarrow> word_t \<Rightarrow> nat \<Rightarrow> trie \<Rightarrow> bool" where
  "below N root key n p \<longleftrightarrow> n \<le> N \<and> trie_ok n p \<and> (\<forall>key'. digits (N - n) key' = digits (N - n) key \<longrightarrow>
      root_lookup root (digits N key') = lookup p (digits n (suffix N n key')))"

definition trie_frame_ok :: "nat \<Rightarrow> word_t \<Rightarrow> nat \<Rightarrow> nat \<Rightarrow> nat \<Rightarrow> trie_frame \<Rightarrow> bool" where
  "trie_frame_ok N key n0 m n = (\<lambda>(ct, header, sons, ix, off). m < n0 \<and> n = n0 - m - 1 \<and>
    header_ok m header \<and> header_digits header = digits m (suffix N n0 key) \<and>
    ix = key_digit (push_bit (2 * m) (suffix N n0 key)) \<and> off = triev2_offset ct ix \<and> off \<noteq> 0)"

fun trie_path_ok :: "nat \<Rightarrow> trie option \<Rightarrow> word_t \<Rightarrow> nat \<Rightarrow> trie_frame list \<Rightarrow> bool" where
  "trie_path_ok N root key n [] \<longleftrightarrow> n = N"
| "trie_path_ok N root key n ((ct, header, sons, ix, off) # path) \<longleftrightarrow>
    (\<exists>m n0. trie_frame_ok N key n0 m n (ct, header, sons, ix, off) \<and> below N root key n0 (Node ct header sons) \<and>
      trie_path_ok N root key n0 path)"

lemma suffix_step:
  assumes "m < n0" and "n0 \<le> N"
  shows "rest m (suffix N n0 key) = suffix N (n0 - m - 1) key"
    and "digits (N - (n0 - m - 1)) key' = digits (N - (n0 - m - 1)) key \<longleftrightarrow>
      digits (N - n0) key' = digits (N - n0) key \<and> digits m (suffix N n0 key') = digits m (suffix N n0 key) \<and>
      key_digit (push_bit (2 * m) (suffix N n0 key')) = key_digit (push_bit (2 * m) (suffix N n0 key))"
proof -
  show "rest m (suffix N n0 key) = suffix N (n0 - m - 1) key"
    unfolding push_bit_push_bit by (rule arg_cong [where f = "\<lambda>k. push_bit k key"]) (use assms in simp)
  have e: "N - (n0 - m - 1) = (N - n0) + Suc m" using assms by simp
  show "digits (N - (n0 - m - 1)) key' = digits (N - (n0 - m - 1)) key \<longleftrightarrow>
      digits (N - n0) key' = digits (N - n0) key \<and> digits m (suffix N n0 key') = digits m (suffix N n0 key) \<and>
      key_digit (push_bit (2 * m) (suffix N n0 key')) = key_digit (push_bit (2 * m) (suffix N n0 key))"
    unfolding e digits_add using digits_Suc_iff [of m "suffix N n0 key'" "suffix N n0 key"] by (simp del: digits.simps)
qed

lemma kid_update:
  assumes "length sons = trie_cell_size ct - 1" "a < 4" "c < 4" "triev2_offset ct a \<noteq> 0"
  shows "kid ct (sons[triev2_offset ct a - 1 := s]) c = (if c = a then Some s else kid ct sons c)"
  using assms unfolding less_4
  by (cases ct; simp) (drule four_sons, (elim exE disjE; simp add: kid_def))+

lemma path_loop_ok:
  "below N root key n p \<Longrightarrow> n > 0 \<Longrightarrow> trie_path_ok N root key n path \<Longrightarrow>
   \<exists>r. path_loop p (suffix N n key) (2 * n) path = Some r \<and>
     (case r of Missing \<Rightarrow> root_lookup root (digits N key) = NULL_WORD
      | Found old path' \<Rightarrow> old = root_lookup root (digits N key) \<and> old \<noteq> NULL_WORD \<and> trie_path_ok N root key 0 path')"
proof (induction p arbitrary: n path)
  case (Data d)
  then show ?case by (simp add: below_def)
next
  case (Node ct header sons)
  have p: "trie_ok n (Node ct header sons)" "n \<le> N"
    "\<And>key'. digits (N - n) key' = digits (N - n) key \<Longrightarrow>
      root_lookup root (digits N key') = lookup (Node ct header sons) (digits n (suffix N n key'))"
    using Node.prems(1) by (auto simp: below_def)
  from trie_ok_Node [OF p(1)] obtain m where m: "header_ok m header" "PREFIX_LENGTH header = 2 * m" "m < n"
    "length sons = trie_cell_size ct - 1" "\<And>s. s \<in> set sons \<Longrightarrow> trie_ok (n - m - 1) s" by metis
  let ?S = "suffix N n key"
  let ?key = "push_bit (2 * m) ?S"
  let ?i = "triev2_offset ct (key_digit ?key)"
  note L = lookup_Node [OF m(1,3), of ct sons]
  have match: "(0 < m \<and> NODE_PREFIX header \<noteq> drop_bit (32 - 2 * m) ?S) \<longleftrightarrow> header_digits header \<noteq> digits m ?S"
    using header_matches [OF m(1), of ?S] m(2) header_okD(4) [OF m(1)] by (cases m) auto
  show ?case
  proof (cases "header_digits header = digits m ?S")
    case False
    then show ?thesis using m p(3) [of key] L by (simp add: Let_def match)
  next
    case True
    show ?thesis
    proof (cases "kid ct sons (key_digit ?key)")
      case None
      then have "path_loop (Node ct header sons) ?S (2 * n) path = Some Missing"
        using kid_offset(1) [OF m(4) key_digit_less [of ?key]] True m(2,3) by (simp add: Let_def match)
      then show ?thesis using p(3) [of key] L None True by simp
    next
      case (Some s)
      have s: "s \<in> set sons" "trie_ok (n - m - 1) s" using kid_in [OF Some] m(5) by auto
      have o: "\<not> ?i = 0" "son_at sons ?i = Some s"
        using kid_offset(1) [OF m(4) key_digit_less [of ?key]] Some by (auto simp: kid_def)
      let ?path = "(ct, header, sons, key_digit ?key, ?i) # path"
      note st = suffix_step [OF m(3) p(2)]
      have bs: "below N root key (n - m - 1) s"
        unfolding below_def st(2) using s(2) p(2,3) L True Some st(1) by (auto simp del: push_bit_numeral_minus_1)
      have path: "trie_path_ok N root key (n - m - 1) ?path"
        unfolding trie_path_ok.simps trie_frame_ok_def prod.case using Node.prems(1,3) m(1,3) True o(1) by blast
      have e: "2 * n - 2 * m - 2 = 2 * (n - m - 1)" by simp
      have c: "\<not> (2 * m \<noteq> 0 \<and> NODE_PREFIX header \<noteq> drop_bit (32 - 2 * m) ?S)" "\<not> 2 * n < 2 * m + 2"
        using True match m(3) by auto
      have pl: "path_loop (Node ct header sons) ?S (2 * n) path =
         (if 2 * (n - m - 1) = 0 then (case s of Data d \<Rightarrow> Some (Found d ?path) | Node _ _ _ \<Rightarrow> None)
          else path_loop s (rest m ?S) (2 * (n - m - 1)) ?path)"
        unfolding path_loop.simps Let_def m(2) if_not_P [OF c(1)] if_not_P [OF c(2)] if_not_P [OF o(1)] o(2) bind.bind_lunit e ..
      show ?thesis
      proof (cases "n - m - 1 = 0")
        case True
        have "root_lookup root (digits N key) = lookup s []" using bs True unfolding below_def by auto
        then show ?thesis unfolding pl using s(2) True path by (cases s) auto
      next
        case False
        then show ?thesis using Node.IH [OF s(1) bs _ path] unfolding pl st(1) by simp
      qed
    qed
  qed
qed

text \<open>Copying a new subtree up the path puts it in the place of the old one.\<close>

lemma copy_up_ok:
  "trie_path_ok N root key n path \<Longrightarrow> n \<le> N \<and> (\<forall>s ap. trie_ok n s \<longrightarrow> trie_ok N (fst (copy_up s path ap))) \<and>
    (\<forall>s ap key'. lookup (fst (copy_up s path ap)) (digits N key') =
      (if digits (N - n) key' = digits (N - n) key then lookup s (digits n (suffix N n key'))
       else root_lookup root (digits N key'))) \<and>
    (\<forall>s ap. ap \<le> snd (copy_up s path ap) \<and> snd (copy_up s path ap) \<le> ap + 5 * (N - n))"
proof (induction path arbitrary: n)
  case Nil
  then show ?case by simp
next
  case (Cons f path)
  obtain ct header sons ix off where f: "f = (ct, header, sons, ix, off)" by (cases f)
  obtain m n0 where fr: "trie_frame_ok N key n0 m n (ct, header, sons, ix, off)" and b: "below N root key n0 (Node ct header sons)"
      and path: "trie_path_ok N root key n0 path"
    using Cons.prems f by auto
  let ?S = "suffix N n0 key"
  have h: "m < n0" "n = n0 - m - 1" "header_ok m header" "header_digits header = digits m ?S"
      "ix = key_digit (push_bit (2 * m) ?S)" "off = triev2_offset ct ix" "off \<noteq> 0"
    using fr unfolding trie_frame_ok_def by auto
  have ok: "n0 \<le> N" "trie_ok n0 (Node ct header sons)"
     "\<And>key'. digits (N - n0) key' = digits (N - n0) key \<Longrightarrow>
      root_lookup root (digits N key') = lookup (Node ct header sons) (digits n0 (suffix N n0 key'))"
    using b unfolding below_def by auto
  from Cons.IH [OF path] have IH: "\<And>s ap. trie_ok n0 s \<Longrightarrow> trie_ok N (fst (copy_up s path ap))"
    "\<And>s ap key'. lookup (fst (copy_up s path ap)) (digits N key') =
      (if digits (N - n0) key' = digits (N - n0) key then lookup s (digits n0 (suffix N n0 key'))
       else root_lookup root (digits N key'))"
    "\<And>s ap. ap \<le> snd (copy_up s path ap) \<and> snd (copy_up s path ap) \<le> ap + 5 * (N - n0)" by auto
  note st = suffix_step [OF h(1) ok(1), folded h(2)]
  let ?p = "\<lambda>s. Node ct header (sons[off - 1 := s])"
  have len: "length sons = trie_cell_size ct - 1" "\<And>s. s \<in> set sons \<Longrightarrow> trie_ok n s"
    using ok(2) unfolding trie_ok_Node_iff [OF h(3)] h(2) by auto
  have tp: "trie_ok n0 (?p s)" if "trie_ok n s" for s
    using len that h(1) set_update_subset_insert [of sons "off - 1" s]
    unfolding trie_ok_Node_iff [OF h(3)] h(2) [symmetric] by auto
  have lp: "lookup (?p s) (digits n0 (suffix N n0 key')) =
      (if digits (N - n) key' = digits (N - n) key then lookup s (digits n (suffix N n key'))
       else root_lookup root (digits N key'))" if "digits (N - n0) key' = digits (N - n0) key" for s key'
    unfolding lookup_Node [OF h(3,1)] ok(3) [OF that] st h(4)
      kid_update [OF len(1), of ix "key_digit (push_bit (2 * m) (suffix N n0 key'))" s, folded h(6), unfolded h(5),
        OF key_digit_less key_digit_less h(7)]
    using that h(2,5) by (auto simp del: push_bit_numeral_minus_1)
  have cs: "trie_cell_size ct \<le> 5" by (rule cell_tables)
  have "N - n = N - n0 + Suc m" using h(1,2) ok(1) by simp
  then have "snd (copy_up s (f # path) ap) \<le> ap + 5 * (N - n)" "ap \<le> snd (copy_up s (f # path) ap)" for s ap
    using IH(3) [where s = "?p s" and ap = "ap + trie_cell_size ct"] cs unfolding f by auto
  moreover have "lookup (fst (copy_up s (f # path) ap)) (digits N key') =
      (if digits (N - n) key' = digits (N - n) key then lookup s (digits n (suffix N n key'))
       else root_lookup root (digits N key'))" for s ap key'
    using lp [of key' s] st(2) [of key'] by (simp add: f IH(2))
  ultimately show ?case using IH(1) [OF tp] ok(1) h(2) unfolding f by auto
qed

section \<open>A node without one of its sons\<close>

lemma deoffset_simps [simp]:
  "deoffset CELL_trie12 0 = 0" "deoffset CELL_trie12 (Suc 0) = 1"
  "deoffset CELL_trie13 0 = 0" "deoffset CELL_trie13 (Suc 0) = 2"
  "deoffset CELL_trie14 0 = 0" "deoffset CELL_trie14 (Suc 0) = 3"
  "deoffset CELL_trie23 0 = 1" "deoffset CELL_trie23 (Suc 0) = 2"
  "deoffset CELL_trie24 0 = 1" "deoffset CELL_trie24 (Suc 0) = 3"
  "deoffset CELL_trie34 0 = 2" "deoffset CELL_trie34 (Suc 0) = 3"
  by (simp_all add: deoffset_def)

lemma uni_kids:
  assumes "trie_cell_size ct = 2" "ix < 4" "triev2_offset ct ix \<noteq> 0" "c < 4" "c \<noteq> ix"
  shows "kid ct sons c = None"
  using assms unfolding less_4 by (cases ct) (auto simp: kid_def)

definition without_ok :: "trie_cell \<Rightarrow> trie list \<Rightarrow> nat \<Rightarrow> trie_cell \<Rightarrow> trie list \<Rightarrow> bool" where
  "without_ok ct sons ix ct' sons' \<longleftrightarrow> length sons' = trie_cell_size ct' - 1 \<and> set sons' \<subseteq> set sons \<and>
    (\<forall>c < 4. kid ct' sons' c = (if c = ix then None else kid ct sons c))"

lemma shrink_node_ok:
  assumes "length sons = trie_cell_size ct - 1" "ix < 4" "triev2_offset ct ix \<noteq> 0" "trie_cell_size ct \<in> {4, 5}"
  shows "\<exists>ct' sons'. shrink_node ct header sons ix = Some (Node ct' header sons') \<and> without_ok ct sons ix ct' sons'"
  using assms unfolding less_4
  by (cases ct; simp)
    (drule four_sons, (elim exE disjE; simp add: shrink_node_def cell_type_without_def other_sons_def without_ok_def
      all_less_4 kid_def))+

lemma shrink_bi:
  assumes "length sons = trie_cell_size ct - 1" "ix < 4" "triev2_offset ct ix \<noteq> 0" "trie_cell_size ct = 3"
  shows "\<exists>q ct' d. son_at sons (3 - triev2_offset ct ix) = Some q \<and> cell_type_without ct ix = Some ct' \<and>
    trie_cell_size ct' = 2 \<and> without_ok ct sons ix ct' [q] \<and>
    d = deoffset ct (2 - triev2_offset ct ix) \<and> d < 4 \<and> d \<noteq> ix \<and>
    (\<forall>c < 4. c \<noteq> ix \<longrightarrow> kid ct sons c = (if c = d then Some q else None))"
  using assms unfolding less_4
  by (cases ct; simp)
    (drule four_sons, (elim exE disjE; simp add: cell_type_without_def without_ok_def all_less_4 kid_def))+

text \<open>The join of the prefixes of two nodes and the digit between them.\<close>

lemma unat_push_or:
  assumes "unat b < 2 ^ k" and "unat a * 2 ^ k < 2 ^ 32"
  shows "unat (push_bit k a OR b :: word_t) = unat a * 2 ^ k + unat b"
proof -
  have "push_bit k a AND b = 0"
  proof (rule bit_word_eqI)
    fix n :: nat
    assume "n < LENGTH(32)"
    show "bit (push_bit k a AND b) n = bit (0 :: word_t) n"
      using bit_small [OF assms(1), of n] by (auto simp: bit_simps)
  qed
  then have "push_bit k a OR b = push_bit k a + b" by (simp add: disjunctive_add_eq_or)
  moreover have u: "unat (push_bit k a) = unat a * 2 ^ k" using assms(2) by (simp add: unat_push)
  moreover have "unat a * 2 ^ k + unat b < 2 ^ 32"
  proof (cases "k \<le> 32")
    case True
    have "unat a < 2 ^ (32 - k)"
    proof (rule ccontr)
      assume "\<not> unat a < 2 ^ (32 - k)"
      then have "2 ^ (32 - k) * 2 ^ k \<le> unat a * 2 ^ k" by (intro mult_le_mono1) simp
      then show False using assms(2) True by (simp add: power_add [symmetric])
    qed
    then have "Suc (unat a) * 2 ^ k \<le> 2 ^ (32 - k) * 2 ^ k" by (intro mult_le_mono1) simp
    then show ?thesis using assms(1) True by (simp add: power_add [symmetric])
  next
    case False
    then have "(2 :: nat) ^ 32 \<le> 2 ^ k" by (intro power_increasing) auto
    then have "unat a = 0" using assms(2) by (cases "unat a") auto
    then show ?thesis using unsigned_less [of b] by simp
  qed
  ultimately show ?thesis by (simp add: unat_word_ariths)
qed

lemma prefix_digitsI:
  assumes "m \<le> 16" "length ds = m" "\<forall>d \<in> set ds. d < 4" "unat w = val4 ds"
  shows "prefix_digits m w = ds" and "unat w < 4 ^ m"
proof -
  show l: "unat w < 4 ^ m" using val4_less [OF assms(3)] assms(2,4) by simp
  show "prefix_digits m w = ds"
    using val4_inject [of "prefix_digits m w" ds] val4_prefix_digits [OF l assms(1)] assms digits_less
    by (auto simp: prefix_digits_def)
qed

lemma merge_header_ok:
  assumes h: "header_ok m header" "header_ok mq q_header" and m: "m + mq \<le> 9"
    and d: "deoffset ct (2 - off) = d" "d < 4"
  shows "\<exists>h'. merge_header ct header off q_header = Some h' \<and> header_ok (m + mq + 1) h' \<and>
    header_digits h' = header_digits header @ d # header_digits q_header"
proof -
  note hd = header_okD [OF h(1)] and qd = header_okD [OF h(2)]
  let ?n = "NODE_PREFIX header" and ?q = "NODE_PREFIX q_header"
  let ?up = "push_bit 2 ?n OR of_nat d"
  let ?p = "push_bit (2 * mq) ?up OR ?q"
  have pw: "(4 :: nat) ^ m * 4 \<le> 4 ^ 10" "(4 :: nat) ^ (m + 1 + mq) \<le> 4 ^ 10"
    using power_increasing [of "m + 1" 10 "4 :: nat"] power_increasing [of "m + 1 + mq" 10 "4 :: nat"] m by simp_all
  have ud: "unat (of_nat d :: word_t) = d" using d(2) by (simp add: unat_of_nat)
  have u1: "unat ?up = unat ?n * 4 + d"
    using unat_push_or [of "of_nat d" 2 ?n] ud d(2) hd(2) pw(1) by simp
  have "Suc (unat ?up) \<le> 4 ^ m * 4" using hd(2) d(2) unfolding u1 by linarith
  then have "Suc (unat ?up) * 4 ^ mq \<le> 4 ^ m * 4 * 4 ^ mq" by (rule mult_le_mono1)
  then have "unat ?up * 4 ^ mq < 2 ^ 32" using pw(2) by (simp add: power_add) 
  then have u2: "unat ?p = (unat ?n * 4 + d) * 4 ^ mq + unat ?q"
    using unat_push_or [of ?q "2 * mq" ?up] qd(2) u1 by (simp add: four_power)
  have v: "val4 (header_digits header) = unat ?n" "val4 (header_digits q_header) = unat ?q"
    unfolding hd(5) qd(5) using val4_prefix_digits hd(2,3) qd(2,3) by simp_all
  have val: "unat ?p = val4 (header_digits header @ d # header_digits q_header)"
    unfolding u2 val4_append using v hd(4) qd(4) by (simp add: algebra_simps)
  have dig: "\<forall>e \<in> set (header_digits header @ d # header_digits q_header). e < 4"
    using d(2) digits_less unfolding hd(5) qd(5) by (auto simp: prefix_digits_def)
  have len: "length (header_digits header @ d # header_digits q_header) = m + mq + 1" using hd(4) qd(4) by simp
  have m16: "m + mq + 1 \<le> 16" using m by simp
  note p = prefix_digitsI [OF m16 len dig val]
  have d255: "\<not> d = 0xFF" using d(2) by simp
  have e: "2 * m + 2 * mq + 2 = 2 * (m + mq + 1)" by simp
  have m10: "m + mq + 1 \<le> 10" using m by simp
  have "merge_header ct header off q_header = Some (make_header (2 * (m + mq + 1)) ?p)"
    unfolding merge_header_def Let_def d(1) hd(1) qd(1) if_not_P [OF d255] e ..
  moreover have "header_digits (make_header (2 * (m + mq + 1)) ?p) = header_digits header @ d # header_digits q_header"
    by (rule trans [OF header_digits_make [OF m10 p(2)] p(1)])
  moreover have "header_ok (m + mq + 1) (make_header (2 * (m + mq + 1)) ?p)" by (rule header_ok_make [OF m10 p(2)])
  ultimately show ?thesis by (intro exI conjI)
qed

section \<open>Removal\<close>

text \<open>\<open>removed N n root key t\<close>: \<open>t\<close> is the trie without the keys that agree with \<open>key\<close> in all but \<open>n\<close> digits.\<close>

definition removed :: "nat \<Rightarrow> nat \<Rightarrow> trie option \<Rightarrow> word_t \<Rightarrow> trie option \<Rightarrow> bool" where
  "removed N n root key t \<longleftrightarrow> (\<forall>key'. root_lookup t (digits N key') =
    (if digits (N - n) key' = digits (N - n) key then NULL_WORD else root_lookup root (digits N key')))"

definition removal_ok :: "nat \<Rightarrow> nat \<Rightarrow> trie option \<Rightarrow> word_t \<Rightarrow> nat \<Rightarrow> trie option \<times> trie_frame list \<times> nat \<Rightarrow> bool" where
  "removal_ok N n root key ap = (\<lambda>(t, path, ap'). case t of
       None \<Rightarrow> removed N n root key None \<and> ap' = ap
     | Some new \<Rightarrow> trie_ok N (fst (copy_up new path ap')) \<and> removed N n root key (Some (fst (copy_up new path ap'))) \<and>
         ap \<le> snd (copy_up new path ap') \<and> snd (copy_up new path ap') \<le> ap + 5 * (N - n))"

text \<open>A node that has lost the keys with the prefix and the digit of the frame.\<close>

definition node_removed :: "nat \<Rightarrow> nat \<Rightarrow> word_t \<Rightarrow> trie \<Rightarrow> trie \<Rightarrow> bool" where
  "node_removed n0 m key p new \<longleftrightarrow> trie_ok n0 new \<and> (\<forall>k. lookup new (digits n0 k) =
    (if digits (Suc m) k = digits (Suc m) key then NULL_WORD else lookup p (digits n0 k)))"

lemma suffix_digits:
  assumes "m < n0" and "n0 \<le> N" and "n = n0 - m - 1"
  shows "digits (N - n) key' = digits (N - n) key \<longleftrightarrow> digits (N - n0) key' = digits (N - n0) key \<and>
      digits (Suc m) (suffix N n0 key') = digits (Suc m) (suffix N n0 key)"
  unfolding assms(3) suffix_step(2) [OF assms(1,2)] digits_Suc_iff ..

lemma removal_okI:
  assumes f: "trie_frame_ok N key n0 m n (ct, header, sons, ix, off)" and b: "below N root key n0 (Node ct header sons)"
    and path: "trie_path_ok N root key n0 path"
    and new: "node_removed n0 m (suffix N n0 key) (Node ct header sons) new" and ap: "ap \<le> ap'" "ap' \<le> ap + 5"
  shows "removal_ok N n root key ap (Some new, path, ap')"
proof -
  have h: "m < n0" "n = n0 - m - 1" using f unfolding trie_frame_ok_def by auto
  have ok: "n0 \<le> N" "\<And>key'. digits (N - n0) key' = digits (N - n0) key \<Longrightarrow>
      root_lookup root (digits N key') = lookup (Node ct header sons) (digits n0 (suffix N n0 key'))"
    using b unfolding below_def by auto
  note c = copy_up_ok [OF path]
  have n: "trie_ok n0 new" "\<And>k. lookup new (digits n0 k) =
    (if digits (Suc m) k = digits (Suc m) (suffix N n0 key) then NULL_WORD else lookup (Node ct header sons) (digits n0 k))"
    using new unfolding node_removed_def by auto
  have "removed N n root key (Some (fst (copy_up new path ap')))"
    using c ok(2) n(2) unfolding removed_def suffix_digits [OF h(1) ok(1) h(2)] root_lookup_simps
    by (simp del: digits.simps lookup.simps)
  moreover have "trie_ok N (fst (copy_up new path ap'))" using c n(1) by blast
  moreover have "ap' \<le> snd (copy_up new path ap')" "snd (copy_up new path ap') \<le> ap' + 5 * (N - n0)" using c by blast+
  moreover have "5 * (N - n) \<ge> 5 * (N - n0) + 5" using h ok(1) by simp
  ultimately show ?thesis using ap unfolding removal_ok_def prod.case option.case by linarith
qed

lemma shrink_removed:
  assumes f: "trie_frame_ok N key n0 m n (ct, header, sons, ix, off)" and p: "trie_ok n0 (Node ct header sons)"
    and w: "without_ok ct sons ix ct' sons'"
  shows "node_removed n0 m (suffix N n0 key) (Node ct header sons) (Node ct' header sons')"
proof -
  let ?S = "suffix N n0 key"
  have h: "m < n0" "header_ok m header" "header_digits header = digits m ?S" "ix = key_digit (push_bit (2 * m) ?S)"
    using f unfolding trie_frame_ok_def by auto
  have "trie_ok n0 (Node ct' header sons')"
    using p w h(1) unfolding trie_ok_Node_iff [OF h(2)] without_ok_def by blast
  moreover have "kid ct' sons' (key_digit k) = (if key_digit k = ix then None else kid ct sons (key_digit k))" for k
    using w key_digit_less [of k] unfolding without_ok_def by blast
  ultimately show ?thesis
    unfolding node_removed_def lookup_Node [OF h(2,1)] digits_Suc_iff using h(3,4) by auto
qed

lemma merge_removed:
  assumes f: "trie_frame_ok N key n0 m n (ct, header, sons, ix, off)" and p: "trie_ok n0 (Node ct header sons)"
    and q: "trie_ok n (Node q_ct q_header q_sons)" "header_ok mq q_header" and d: "d < 4" "d \<noteq> ix"
    and kids: "\<And>c. c < 4 \<Longrightarrow> c \<noteq> ix \<Longrightarrow> kid ct sons c = (if c = d then Some (Node q_ct q_header q_sons) else None)"
    and h': "header_ok (m + mq + 1) h'" "header_digits h' = header_digits header @ d # header_digits q_header"
  shows "node_removed n0 m (suffix N n0 key) (Node ct header sons) (Node q_ct h' q_sons)"
proof -
  let ?S = "suffix N n0 key"
  have h: "m < n0" "n = n0 - m - 1" "header_ok m header" "header_digits header = digits m ?S"
      "ix = key_digit (push_bit (2 * m) ?S)"
    using f unfolding trie_frame_ok_def by auto
  have qs: "mq < n" "length q_sons = trie_cell_size q_ct - 1" "\<And>s. s \<in> set q_sons \<Longrightarrow> trie_ok (n - mq - 1) s"
    using q(1) unfolding trie_ok_Node_iff [OF q(2)] by auto
  have n: "m + mq + 1 < n0" "n0 - (m + mq + 1) - 1 = n - mq - 1" using qs(1) h(1,2) by simp_all
  have "trie_ok n0 (Node q_ct h' q_sons)" unfolding trie_ok_Node_iff [OF h'(1)] n(2) using qs n(1) by blast
  moreover have "lookup (Node q_ct h' q_sons) (digits n0 k) =
      (if digits (Suc m) k = digits (Suc m) ?S then NULL_WORD else lookup (Node ct header sons) (digits n0 k))" for k
  proof -
    let ?c = "key_digit (push_bit (2 * m) k)" and ?r = "rest m k"
    have sh: "push_bit (2 * (m + mq + 1)) k = push_bit (2 * mq) ?r"
      unfolding push_bit_push_bit by (rule arg_cong [where f = "\<lambda>j. push_bit j k"]) simp
    have dg: "digits (m + mq + 1) k = digits m k @ ?c # digits mq ?r"
      using digits_below [of m "m + mq + 1" k] by simp
    have len: "length (header_digits header) = length (digits m k)" using header_okD(4) [OF h(3)] by simp
    have L: "lookup (Node q_ct h' q_sons) (digits n0 k) =
      (if header_digits header = digits m k \<and> d = ?c \<and> header_digits q_header = digits mq ?r
       then root_lookup (kid q_ct q_sons (key_digit (push_bit (2 * mq) ?r))) (digits (n - mq - 1) (rest mq ?r)) else NULL_WORD)"
      unfolding lookup_Node [OF h'(1) n(1)] h'(2) dg n(2) sh append_eq_append_conv [OF disjI1 [OF len]] list.inject by blast
    have R: "lookup (Node ct header sons) (digits n0 k) =
      (if header_digits header = digits m k then root_lookup (kid ct sons ?c) (digits n ?r) else NULL_WORD)"
      unfolding lookup_Node [OF h(3,1)] h(2) ..
    have Q: "lookup (Node q_ct q_header q_sons) (digits n ?r) =
      (if header_digits q_header = digits mq ?r
       then root_lookup (kid q_ct q_sons (key_digit (push_bit (2 * mq) ?r))) (digits (n - mq - 1) (rest mq ?r)) else NULL_WORD)"
      unfolding lookup_Node [OF q(2) qs(1)] ..
    show ?thesis
    proof (cases "?c = ix")
      case True
      then show ?thesis unfolding L R digits_Suc_iff using d(2) h(4,5) by (auto simp del: push_bit_numeral_minus_1)
    next
      case False
      then have "digits (Suc m) k \<noteq> digits (Suc m) ?S" unfolding digits_Suc_iff h(5) by blast
      moreover have "kid ct sons ?c = (if ?c = d then Some (Node q_ct q_header q_sons) else None)"
        by (rule kids [OF key_digit_less False])
      ultimately show ?thesis unfolding L R by (cases "?c = d"; simp only: Q if_True if_False root_lookup_simps refl simp_thms if_cancel split: if_split; blast)
    qed
  qed
  ultimately show ?thesis unfolding node_removed_def by blast
qed

lemma cell_size_cases: "trie_cell_size ct \<in> {2, 3, 4, 5}"
  by (cases ct) simp_all

text \<open>A node with one son disappears with it.\<close>

lemma removal_up:
  assumes f: "trie_frame_ok N key n0 m n (ct, header, sons, ix, off)" and b: "below N root key n0 (Node ct header sons)"
    and cs: "trie_cell_size ct = 2" and r: "removal_ok N n0 root key ap r"
  shows "removal_ok N n root key ap r"
proof -
  have h: "m < n0" "n = n0 - m - 1" "header_ok m header" "header_digits header = digits m (suffix N n0 key)"
      "ix = key_digit (push_bit (2 * m) (suffix N n0 key))" "off = triev2_offset ct ix" "off \<noteq> 0"
    using f unfolding trie_frame_ok_def by auto
  have ok: "n0 \<le> N" "\<And>key'. digits (N - n0) key' = digits (N - n0) key \<Longrightarrow>
      root_lookup root (digits N key') = lookup (Node ct header sons) (digits n0 (suffix N n0 key'))"
    using b unfolding below_def by auto
  have "root_lookup root (digits N key') = NULL_WORD"
    if k: "digits (N - n0) key' = digits (N - n0) key" "digits (N - n) key' \<noteq> digits (N - n) key" for key'
  proof -
    let ?c = "key_digit (push_bit (2 * m) (suffix N n0 key'))"
    have "header_digits header \<noteq> digits m (suffix N n0 key') \<or> ?c \<noteq> ix"
      using k h(4,5) unfolding h(2) suffix_step(2) [OF h(1) ok(1)] by metis
    moreover have "kid ct sons ?c = None" if "?c \<noteq> ix"
      by (rule uni_kids [OF cs _ _ key_digit_less that]) (use h(5-7) key_digit_less in auto)
    ultimately show ?thesis unfolding ok(2) [OF k(1)] lookup_Node [OF h(3,1)] by auto
  qed
  moreover have "digits (N - n) key' = digits (N - n) key \<Longrightarrow> digits (N - n0) key' = digits (N - n0) key" for key'
    unfolding h(2) suffix_step(2) [OF h(1) ok(1)] by blast
  ultimately have "removed N n root key t" if "removed N n0 root key t" for t
    using that unfolding removed_def by metis
  moreover have "5 * (N - n0) \<le> 5 * (N - n)" using h(2) by simp
  ultimately show ?thesis using r unfolding removal_ok_def by (auto split: option.splits)
qed

lemma remove_loop_ok:
  "trie_path_ok N root key n path \<Longrightarrow> leaf = (n = 0) \<Longrightarrow>
    \<exists>r. remove_loop leaf path ap = Some r \<and> removal_ok N n root key ap r"
proof (induction path arbitrary: n leaf)
  case Nil
  then have "removed N n root key None" by (simp add: removed_def)
  then show ?case by (simp add: removal_ok_def)
next
  case (Cons f path)
  obtain ct header sons ix off where f: "f = (ct, header, sons, ix, off)" by (cases f)
  obtain m n0 where fr: "trie_frame_ok N key n0 m n (ct, header, sons, ix, off)"
      and b: "below N root key n0 (Node ct header sons)" and path: "trie_path_ok N root key n0 path"
    using Cons.prems f by auto
  have h: "m < n0" "n = n0 - m - 1" "header_ok m header" "off = triev2_offset ct ix" "off \<noteq> 0" "ix < 4"
    using fr key_digit_less unfolding trie_frame_ok_def by auto
  have p: "trie_ok n0 (Node ct header sons)" using b unfolding below_def by blast
  have sons: "length sons = trie_cell_size ct - 1" "\<And>s. s \<in> set sons \<Longrightarrow> trie_ok n s"
    using p unfolding trie_ok_Node_iff [OF h(3)] h(2) by auto
  note okI = removal_okI [OF fr b path]
  from cell_size_cases [of ct] consider "trie_cell_size ct = 2" | "trie_cell_size ct = 3" | "trie_cell_size ct \<in> {4, 5}" by auto
  then show ?case
  proof cases
    case 1
    have "False = (n0 = 0)" using h(1) by simp
    from Cons.IH [OF path this] show ?thesis using removal_up [OF fr b 1] unfolding f by (auto simp: 1)
  next
    case 3
    obtain ct' sons' where s: "shrink_node ct header sons ix = Some (Node ct' header sons')" "without_ok ct sons ix ct' sons'"
      using shrink_node_ok [OF sons(1) h(6) h(5) [unfolded h(4)] 3] by blast
    have "remove_loop leaf (f # path) ap = Some (Some (Node ct' header sons'), path, ap + trie_cell_size ct - 1)"
      using 3 s(1) unfolding f by auto
    then show ?thesis using okI [OF shrink_removed [OF fr p s(2)]] 3 by fastforce
  next
    case 2
    obtain q ct' d where q: "son_at sons (3 - off) = Some q" "cell_type_without ct ix = Some ct'" "trie_cell_size ct' = 2"
        "without_ok ct sons ix ct' [q]" "d = deoffset ct (2 - off)" "d < 4" "d \<noteq> ix"
        "\<And>c. c < 4 \<Longrightarrow> c \<noteq> ix \<Longrightarrow> kid ct sons c = (if c = d then Some q else None)"
      using shrink_bi [OF sons(1) h(6) h(5) [unfolded h(4)] 2] unfolding h(4) by metis
    have qn: "trie_ok n q" using sons(2) q(1) by (auto simp: son_at_def split: if_splits)
    note shrunk = okI [OF shrink_removed [OF fr p q(4)], of ap "ap + 2"]
    show ?thesis
    proof (cases "n = 0")
      case True
      then have "remove_loop leaf (f # path) ap = Some (Some (Node ct' header [q]), path, ap + 2)"
        using Cons.prems(2) 2 q(1-3) unfolding f by simp
      then show ?thesis using shrunk by simp
    next
      case False
      then obtain q_ct q_header q_sons where qN: "q = Node q_ct q_header q_sons" using qn by (cases q) auto
      from trie_ok_Node [OF qn [unfolded qN]] obtain mq where mq: "header_ok mq q_header" "PREFIX_LENGTH q_header = 2 * mq"
        by metis
      show ?thesis
      proof (cases "m + mq \<le> 9")
        case True
        obtain h' where h': "merge_header ct header off q_header = Some h'" "header_ok (m + mq + 1) h'"
            "header_digits h' = header_digits header @ d # header_digits q_header"
          using merge_header_ok [OF h(3) mq(1) True q(5) [symmetric] q(6)] by blast
        have "remove_loop leaf (f # path) ap = Some (Some (Node q_ct h' q_sons), path, ap + trie_cell_size q_ct)"
          using Cons.prems(2) False 2 q(1) qN h'(1) True mq(2) header_okD(1) [OF h(3)] unfolding f by simp
        moreover have "node_removed n0 m (suffix N n0 key) (Node ct header sons) (Node q_ct h' q_sons)"
          by (rule merge_removed [OF fr p qn [unfolded qN] mq(1) q(6,7) q(8) [unfolded qN] h'(2,3)])
        ultimately show ?thesis using okI cell_tables(3) [of q_ct] by simp
      next
        case nm: False
        then have "remove_loop leaf (f # path) ap = Some (Some (Node ct' header [q]), path, ap + 2)"
          using Cons.prems(2) False 2 q(1-3) qN mq(2) header_okD(1) [OF h(3)] unfolding f by simp
        then show ?thesis using shrunk by simp
      qed
    qed
  qed
qed

text \<open>What a deletion leaves behind: nothing when \<open>data\<close>, or the result of \<open>f\<close>, is \<^verbatim>\<open>NULL_WORD\<close>.\<close>

lemma triev2_delete_ok:
  assumes root: "root_ok n root" and n: "0 < n" "n \<le> 16" and old_def: "old = trie_lookup n root key"
  shows "\<exists>root' ap'. triev2_delete root key (2 * n) f data ap = Some (root', ap') \<and> root_ok n root' \<and>
    (\<forall>key'. trie_lookup n root' key' =
      (if prefix_digits n key' = prefix_digits n key then if old = NULL_WORD then NULL_WORD else updated f old data
       else trie_lookup n root key')) \<and>
    ap \<le> ap' \<and> ap' \<le> ap + TRIEV2_MAX_ALLOCATION"
proof (cases root)
  case None
  then show ?thesis by (simp add: triev2_delete_def trie_lookup_def old_def)
next
  case (Some p)
  let ?key = "push_bit (32 - 2 * n) key"
  have p: "below n root ?key n p" using root Some by (simp add: below_def)
  have "trie_path_ok n root ?key n []" by simp
  from path_loop_ok [OF p n(1) this] obtain r where r: "path_loop p ?key (2 * n) [] = Some r"
    "case r of Missing \<Rightarrow> root_lookup root (digits n ?key) = NULL_WORD
      | Found old path' \<Rightarrow> old = root_lookup root (digits n ?key) \<and> old \<noteq> NULL_WORD \<and> trie_path_ok n root ?key 0 path'"
    by auto
  have old: "old = root_lookup root (digits n ?key)" by (simp add: old_def trie_lookup_def prefix_digits_def)
  have bound: "5 * n \<le> TRIEV2_MAX_ALLOCATION" using n by (simp add: TRIEV2_MAX_ALLOCATION_def)
  have zero: "2 * n \<noteq> 0" using n by simp
  show ?thesis
  proof (cases r)
    case Missing
    then have "triev2_delete root key (2 * n) f data ap = Some (root, ap)"
      using r(1) zero by (simp add: triev2_delete_def Some)
    then show ?thesis using Missing r(2) root old by (auto simp: trie_lookup_def prefix_digits_def)
  next
    case (Found d path)
    then have d: "d = old" "old \<noteq> NULL_WORD" and path: "trie_path_ok n root ?key 0 path" using r(2) old by auto
    have del: "triev2_delete root key (2 * n) f data ap =
       (if updated f old data = old then Some (root, ap)
        else if updated f old data = NULL_WORD then do {
          (new_p, path', ap') \<leftarrow> remove_loop True path ap;
          (case new_p of
             None \<Rightarrow> Some (None, ap')
           | Some t \<Rightarrow> (let (t', ap'') = copy_up t path' ap' in Some (Some t', ap''))) }
        else let (t', ap'') = copy_up (Data (updated f old data)) path ap in Some (Some t', ap''))"
      unfolding triev2_delete_def Some option.case if_not_P [OF zero] r(1) Found bind.bind_lunit descent.case d(1) updated_def Let_def ..
    show ?thesis
    proof (cases "updated f old data = old")
      case True
      then show ?thesis using root d(2) unfolding del by (auto simp: old_def trie_lookup_def)
    next
      case False
      show ?thesis
      proof (cases "updated f old data = NULL_WORD")
        case True
        obtain rr where rr: "remove_loop True path ap = Some rr" "removal_ok n 0 root ?key ap rr"
          using remove_loop_ok [OF path, of True ap] by auto
        then show ?thesis using d(2) bound unfolding del True
          by (auto simp: removal_ok_def removed_def trie_lookup_def prefix_digits_def Let_def split: prod.splits option.splits) metis
      next
        case nn: False
        note c = copy_up_ok [OF path]
        let ?t = "fst (copy_up (Data (updated f old data)) path ap)" and ?ap = "snd (copy_up (Data (updated f old data)) path ap)"
        have "triev2_delete root key (2 * n) f data ap = Some (Some ?t, ?ap)"
          using False nn unfolding del by (simp add: split_beta)
        moreover have "trie_ok n ?t" using c nn by simp
        moreover have "lookup ?t (digits n key') =
          (if digits n key' = digits n ?key then updated f old data else root_lookup root (digits n key'))" for key'
          using c by simp
        moreover have "ap \<le> ?ap" "?ap \<le> ap + TRIEV2_MAX_ALLOCATION" using c bound le_trans [of ?ap "ap + 5 * n"] by simp_all
        ultimately show ?thesis using d(2) by (simp add: trie_lookup_def prefix_digits_def)
      qed
    qed
  qed
qed

end
