(* ===== verification/Triev2_Search.thy ===== *)
theory Triev2_Search
  imports Triev2_Delete
begin

text \<open>
  The searches of \<^verbatim>\<open>triev2.c\<close> by the order of the keys: the greatest key, and the greatest key that is at
  most a given one.  A sequence of digits is compared by its value; \<open>present\<close> are the sequences that lead to
  data.
\<close>

section \<open>The greatest key\<close>

function find_max_loop :: "trie \<Rightarrow> word_t \<Rightarrow> nat \<Rightarrow> word_t option" where
  "find_max_loop (Data d) max_key key_length = None"
| "find_max_loop (Node ct header sons) max_key key_length =
    (let prefix_length = PREFIX_LENGTH header;
         max_key1 = (if prefix_length \<noteq> 0 then push_bit prefix_length max_key OR NODE_PREFIX header else max_key);
         i = greatest_non_null ct 4;
         max_key2 = push_bit 2 max_key1 OR of_nat (deoffset ct (i - 1))
     in if i = 0 \<or> key_length < prefix_length + 2 then None
        else do {
          q \<leftarrow> son_at sons i;
          (if key_length - prefix_length - 2 = 0 then Some max_key2
           else find_max_loop q max_key2 (key_length - prefix_length - 2)) })"
  by pat_completeness auto

termination
  by (relation "measure (\<lambda>(p, max_key, key_length). size p)") (auto simp: son_at_size)

definition triev2_find_max :: "trie option \<Rightarrow> nat \<Rightarrow> word_t option" where
  "triev2_find_max root key_length =
    (case root of
       None \<Rightarrow> Some NULL_WORD
     | Some p \<Rightarrow> if key_length = 0 then None else find_max_loop p 0 key_length)"

section \<open>The order of keys\<close>

lemma val4_append_less:
  assumes "length xs = length xs'" "length ys = length ys'"
    "\<forall>d \<in> set xs \<union> set xs' \<union> set ys \<union> set ys'. d < 4" and less: "val4 xs < val4 xs'"
  shows "val4 (xs @ ys) < val4 (xs' @ ys')"
proof -
  have "val4 ys < 4 ^ length ys" using assms(3) by (intro val4_less) auto
  then have "val4 xs * 4 ^ length ys + val4 ys < Suc (val4 xs) * 4 ^ length ys" by simp
  also have "\<dots> \<le> val4 xs' * 4 ^ length ys" using less by (intro mult_le_mono1) simp
  finally show ?thesis using assms(2) by (simp add: val4_append)
qed

text \<open>\<open>present n root ds\<close>: the trie has data for the key with the digits \<open>ds\<close>.\<close>

definition present :: "nat \<Rightarrow> trie \<Rightarrow> nat list \<Rightarrow> bool" where
  "present n p ds \<longleftrightarrow> length ds = n \<and> (\<forall>d \<in> set ds. d < 4) \<and> lookup p ds \<noteq> NULL_WORD"

lemma present_Node:
  assumes "header_ok m header" "m < n"
  shows "present n (Node ct header sons) ds \<longleftrightarrow>
    (\<exists>c s rest. ds = header_digits header @ c # rest \<and> c < 4 \<and> kid ct sons c = Some s \<and> present (n - m - 1) s rest)"
proof -
  note hd = header_okD [OF assms(1)]
  have dh: "\<forall>d \<in> set (header_digits header). d < 4" using digits_less unfolding hd(5) prefix_digits_def by blast
  show ?thesis
  proof
    assume p: "present n (Node ct header sons) ds"
    then have len: "length ds = n" "\<forall>d \<in> set ds. d < 4" and l: "lookup (Node ct header sons) ds \<noteq> NULL_WORD"
      by (auto simp: present_def simp del: lookup.simps)
    have m: "m < length ds" using len(1) assms(2) by simp
    have split: "ds = take m ds @ ds ! m # drop (m + 1) ds" using id_take_nth_drop [OF m] by simp
    obtain s where s: "take m ds = header_digits header" "kid ct sons (ds ! m) = Some s" "lookup s (drop (m + 1) ds) \<noteq> NULL_WORD"
      using l by (auto simp: Let_def hd(4) split: if_splits option.splits)
    have "present (n - m - 1) s (drop (m + 1) ds)"
      using len s(3) by (auto simp: present_def dest: in_set_dropD)
    moreover have "ds ! m < 4" using len m by simp
    ultimately show "\<exists>c s rest. ds = header_digits header @ c # rest \<and> c < 4 \<and> kid ct sons c = Some s \<and> present (n - m - 1) s rest"
      using split s(1,2) by metis
  next
    assume "\<exists>c s rest. ds = header_digits header @ c # rest \<and> c < 4 \<and> kid ct sons c = Some s \<and> present (n - m - 1) s rest"
    then obtain c s rest where "ds = header_digits header @ c # rest" "c < 4" "kid ct sons c = Some s" "present (n - m - 1) s rest"
      by blast
    then show "present n (Node ct header sons) ds" using hd(4) dh assms(2) by (auto simp: present_def Let_def)
  qed
qed

lemma present_DataI: "trie_ok 0 p \<Longrightarrow> present 0 p []"
  by (cases p) (auto simp: present_def)

section \<open>The rightmost path\<close>

function max_digits :: "trie \<Rightarrow> nat list" where
  "max_digits (Data d) = []"
| "max_digits (Node ct header sons) =
    (let i = greatest_non_null ct 4 in
     header_digits header @ deoffset ct (i - 1) # (case son_at sons i of None \<Rightarrow> [] | Some s \<Rightarrow> max_digits s))"
  by pat_completeness auto

termination
  by (relation "measure size") (auto simp: son_at_size)

lemma greatest_kid:
  assumes "length sons = trie_cell_size ct - 1"
  defines "i \<equiv> greatest_non_null ct 4"
  shows "\<exists>s d. i \<noteq> 0 \<and> son_at sons i = Some s \<and> d = deoffset ct (i - 1) \<and> d < 4 \<and> kid ct sons d = Some s \<and>
    (\<forall>c < 4. d < c \<longrightarrow> kid ct sons c = None)"
  using assms
  by (cases ct; simp) (drule four_sons, (elim exE disjE; simp add: greatest_non_null_def deoffset_def kid_def all_less_4))+

lemma max_digits_present:
  "trie_ok n p \<Longrightarrow> present n p (max_digits p)"
  and max_digits_greatest: "trie_ok n p \<Longrightarrow> present n p ds \<Longrightarrow> val4 ds \<le> val4 (max_digits p)"
proof (induction p arbitrary: n ds)
  case (Data d)
  { case 1 then show ?case by (simp add: present_def) }
  { case 2 then show ?case by (simp add: present_def) }
next
  case (Node ct header sons)
  { case 1
    from trie_ok_Node [OF 1] obtain m where m: "header_ok m header" "m < n" "length sons = trie_cell_size ct - 1"
      "\<And>s. s \<in> set sons \<Longrightarrow> trie_ok (n - m - 1) s" by metis
    from greatest_kid [OF m(3)] obtain s where s: "son_at sons (greatest_non_null ct 4) = Some s"
      "deoffset ct (greatest_non_null ct 4 - 1) < 4" "kid ct sons (deoffset ct (greatest_non_null ct 4 - 1)) = Some s" by blast
    have "present (n - m - 1) s (max_digits s)" using Node.IH(1) kid_in [OF s(3)] m(4) by blast
    then show ?case unfolding present_Node [OF m(1,2)] using s by (auto simp: Let_def) }
  { case 2
    from trie_ok_Node [OF 2(1)] obtain m where m: "header_ok m header" "m < n" "length sons = trie_cell_size ct - 1"
      "\<And>s. s \<in> set sons \<Longrightarrow> trie_ok (n - m - 1) s" by metis
    from greatest_kid [OF m(3)] obtain s d where s: "son_at sons (greatest_non_null ct 4) = Some s"
      "d = deoffset ct (greatest_non_null ct 4 - 1)" "d < 4" "kid ct sons d = Some s"
      "\<And>c. c < 4 \<Longrightarrow> d < c \<Longrightarrow> kid ct sons c = None" by blast
    have ok: "trie_ok (n - m - 1) s" "s \<in> set sons" using kid_in [OF s(4)] m(4) by auto
    from 2(2) obtain c s' r where c: "ds = header_digits header @ c # r" "c < 4" "kid ct sons c = Some s'"
      "present (n - m - 1) s' r" unfolding present_Node [OF m(1,2)] by blast
    have mx: "max_digits (Node ct header sons) = header_digits header @ d # max_digits s"
      using s(1,2) by (simp add: Let_def)
    have pm: "present (n - m - 1) s (max_digits s)" using Node.IH(1) ok by blast
    have "c \<le> d" using s(5) [OF c(2)] c(3) by (cases "d < c") auto
    moreover have "val4 (c # r) \<le> val4 (d # max_digits s)" if "c < d"
      using val4_append_less [of "[c]" "[d]" r "max_digits s"] that c(2,4) s(3) pm by (auto simp: present_def ball_Un)
    moreover have "val4 r \<le> val4 (max_digits s)" if "c = d"
      using Node.IH(2) [OF ok(2) ok(1)] c(3,4) s(4) that by simp
    moreover have "length r = length (max_digits s)" using c(4) pm by (simp add: present_def)
    ultimately have "val4 (c # r) \<le> val4 (d # max_digits s)" by (cases "c < d") auto
    then show ?case unfolding mx c(1) val4_append by (simp add: c pm \<open>length r = length (max_digits s)\<close>) }
qed

text \<open>The word that the code builds is the number with these digits.\<close>

lemma extend_key:
  assumes "unat (key :: word_t) = val4 ds" "\<forall>d \<in> set ds. d < 4" "unat (w :: word_t) = val4 es" "\<forall>d \<in> set es. d < 4"
    "length ds + length es \<le> 16"
  shows "unat (push_bit (2 * length es) key OR w) = val4 (ds @ es)"
proof -
  have l: "unat w < 2 ^ (2 * length es)" using val4_less [OF assms(4)] assms(3) by (simp add: four_power)
  have "unat key < 4 ^ length ds" using val4_less [OF assms(2)] assms(1) by simp
  then have "unat key * 4 ^ length es < 4 ^ length ds * 4 ^ length es" by simp
  also have "\<dots> \<le> 4 ^ 16" unfolding power_add [symmetric] using assms(5) by (intro power_increasing) auto
  finally have "unat key * 2 ^ (2 * length es) < 2 ^ 32" by (simp add: four_power)
  from unat_push_or [OF l this] show ?thesis using assms(1,3) by (simp add: val4_append four_power)
qed

lemma extend_header:
  assumes "unat key = val4 ds" "\<forall>d \<in> set ds. d < 4" "header_ok m header" "length ds + m \<le> 16"
  shows "unat (if PREFIX_LENGTH header \<noteq> 0 then push_bit (PREFIX_LENGTH header) key OR NODE_PREFIX header else key) =
    val4 (ds @ header_digits header)"
proof -
  note hd = header_okD [OF assms(3)]
  have v: "unat (NODE_PREFIX header) = val4 (header_digits header)"
    unfolding hd(5) using val4_prefix_digits [OF hd(2)] hd(3) by simp
  have "\<forall>d \<in> set (header_digits header). d < 4" using digits_less unfolding hd(5) prefix_digits_def by blast
  then have "unat (push_bit (2 * m) key OR NODE_PREFIX header) = val4 (ds @ header_digits header)"
    using extend_key [OF assms(1,2) v] hd(4) assms(4) by simp
  moreover have "header_digits header = []" if "m = 0" using hd(4) that by simp
  ultimately show ?thesis unfolding hd(1) using assms(1) by (cases "m = 0") auto
qed

lemma extend_digit:
  assumes "unat (key :: word_t) = val4 ds" "\<forall>d \<in> set ds. d < 4" "d < 4" "length ds < 16"
  shows "unat (push_bit 2 key OR of_nat d) = val4 (ds @ [d])"
proof -
  have "unat (of_nat d :: word_t) = val4 [d]" using assms(3) by (simp add: unat_of_nat)
  then show ?thesis using extend_key [OF assms(1,2), of "of_nat d" "[d]"] assms(3,4) by simp
qed

lemma find_max_loop_ok:
  "trie_ok n p \<Longrightarrow> n > 0 \<Longrightarrow> unat key = val4 ds \<Longrightarrow> \<forall>d \<in> set ds. d < 4 \<Longrightarrow> length ds + n \<le> 16 \<Longrightarrow>
    \<exists>max_key. find_max_loop p key (2 * n) = Some max_key \<and> unat max_key = val4 (ds @ max_digits p)"
proof (induction p arbitrary: n key ds)
  case (Data d)
  then show ?case by simp
next
  case (Node ct header sons)
  from trie_ok_Node [OF Node.prems(1)] obtain m where m: "header_ok m header" "PREFIX_LENGTH header = 2 * m" "m < n"
    "length sons = trie_cell_size ct - 1" "\<And>s. s \<in> set sons \<Longrightarrow> trie_ok (n - m - 1) s" by metis
  note hd = header_okD [OF m(1)]
  let ?i = "greatest_non_null ct 4"
  from greatest_kid [OF m(4)] obtain s d where s: "?i \<noteq> 0" "son_at sons ?i = Some s"
      "d = deoffset ct (?i - 1)" "d < 4" "kid ct sons d = Some s" by blast
  have ok: "s \<in> set sons" "trie_ok (n - m - 1) s" using kid_in [OF s(5)] m(5) by auto
  define key1 where "key1 = (if PREFIX_LENGTH header \<noteq> 0 then push_bit (PREFIX_LENGTH header) key OR NODE_PREFIX header else key)"
  let ?ds = "ds @ header_digits header"
  have k1: "unat key1 = val4 ?ds"
    using extend_header [OF Node.prems(3,4) m(1)] Node.prems(5) m(3) by (simp add: key1_def)
  have d1: "\<forall>d \<in> set ?ds. d < 4" using Node.prems(4) digits_less unfolding hd(5) prefix_digits_def by auto
  define key2 where "key2 = push_bit 2 key1 OR of_nat d"
  have k2: "unat key2 = val4 (?ds @ [d])"
    unfolding key2_def by (rule extend_digit [OF k1 d1 s(4)]) (use Node.prems(5) m(3) hd(4) in simp)
  have e: "2 * n - 2 * m - 2 = 2 * (n - m - 1)" by simp
  have c: "\<not> (?i = 0 \<or> 2 * n < 2 * m + 2)" using s(1) m(3) by simp
  have f: "find_max_loop (Node ct header sons) key (2 * n) =
      (if 2 * (n - m - 1) = 0 then Some key2 else find_max_loop s key2 (2 * (n - m - 1)))"
    unfolding find_max_loop.simps Let_def m(2) key1_def [unfolded m(2), symmetric] s(3) [symmetric] key2_def [symmetric]
      if_not_P [OF c] s(2) bind.bind_lunit e ..
  have mx: "max_digits (Node ct header sons) = header_digits header @ d # max_digits s"
    using s(2,3) by (simp add: Let_def)
  show ?case
  proof (cases "n - m - 1 = 0")
    case True
    then have "max_digits s = []" using ok(2) by (cases s) auto
    then show ?thesis unfolding f mx using True k2 by simp
  next
    case False
    then show ?thesis unfolding f mx
      using Node.IH [OF ok, of key2 "?ds @ [d]"] k2 d1 s(4) Node.prems(5) m(3) hd(4) by auto
  qed
qed

section \<open>The greatest key that is at most a given key\<close>

text \<open>Label \<^verbatim>\<open>find_max\<close>.\<close>

function max_from :: "trie \<Rightarrow> nat \<Rightarrow> word_t \<Rightarrow> (word_t \<times> word_t) option" where
  "max_from (Data d) key_length final_key = (if key_length = 0 then Some (d, final_key) else None)"
| "max_from (Node ct header sons) key_length final_key =
    (let prefix_length = PREFIX_LENGTH header;
         final_key1 = (if prefix_length \<noteq> 0 then push_bit prefix_length final_key OR NODE_PREFIX header else final_key);
         i = greatest_non_null ct 4;
         d = deoffset ct (i - 1)
     in if key_length < prefix_length + 2 \<or> d = 0xFF then None
        else do {
          q \<leftarrow> son_at sons i;
          max_from q (key_length - prefix_length - 2) (push_bit 2 final_key1 OR of_nat d) })"
  by pat_completeness auto

termination
  by (relation "measure (\<lambda>(p, key_length, final_key). size p)") (auto simp: son_at_size)

text \<open>The ways out of the first loop: the key is there, all keys of a subtree are smaller, all keys of a
  subtree are greater, or a node has no son for the next digit.  The first word is what the loop has left in \<open>*keyp\<close>.\<close>

datatype at_most_point =
    Exact word_t word_t
  | All_Smaller trie nat word_t
  | All_Greater word_t "trie_frame list" nat word_t
  | No_Son word_t "trie_frame list" nat word_t

function at_most_loop :: "trie \<Rightarrow> word_t \<Rightarrow> nat \<Rightarrow> word_t \<Rightarrow> trie_frame list \<Rightarrow> at_most_point option" where
  "at_most_loop (Data d) key key_length final_key path = None"
| "at_most_loop (Node ct header sons) key key_length final_key path =
    (let prefix_length = PREFIX_LENGTH header; key_prefix = drop_bit (32 - prefix_length) key in
     if prefix_length \<noteq> 0 \<and> NODE_PREFIX header \<noteq> key_prefix then
       Some (if NODE_PREFIX header < key_prefix then All_Smaller (Node ct header sons) key_length final_key
             else All_Greater key path key_length final_key)
     else if key_length < prefix_length + 2 then None
     else
       let key1 = push_bit prefix_length key;
           final_key1 = (if prefix_length \<noteq> 0 then push_bit prefix_length final_key OR NODE_PREFIX header else final_key);
           ix = key_digit key1;
           i = triev2_offset ct ix
       in if i = 0 then
            Some (No_Son key1 ((ct, header, sons, ix, greatest_non_null ct ix + 1) # path) (key_length - prefix_length) final_key1)
          else do {
            data \<leftarrow> son_at sons i;
            let final_key2 = push_bit 2 final_key1 OR of_nat ix;
            (if key_length - prefix_length - 2 = 0
             then (case data of Data d \<Rightarrow> Some (Exact d final_key2) | Node _ _ _ \<Rightarrow> None)
             else at_most_loop data (push_bit 2 key1) (key_length - prefix_length - 2) final_key2
               ((ct, header, sons, ix, i) # path)) })"
  by pat_completeness auto

termination
  by (relation "measure (\<lambda>(p, key, key_length, final_key, path). size p)") (auto simp: son_at_size)

text \<open>Label \<^verbatim>\<open>find_smaller\<close> and the loop around it; \<open>Some None\<close> when the loop runs out of the path.\<close>

fun find_smaller :: "trie_frame list \<Rightarrow> nat \<Rightarrow> word_t \<Rightarrow> (word_t \<times> word_t) option option" where
  "find_smaller [] key_length final_key = Some None"
| "find_smaller ((ct, header, sons, ix, off) # path) key_length final_key =
    (let prefix_length = PREFIX_LENGTH header;
         final_key1 = drop_bit prefix_length final_key;
         i = off - 1
     in if i < 1 then find_smaller path (key_length + prefix_length + 2) (drop_bit 2 final_key1)
        else
          let final_key2 = (if prefix_length \<noteq> 0 then push_bit prefix_length final_key1 OR NODE_PREFIX header else final_key1);
              d = deoffset ct (i - 1)
          in if d = 0xFF then None
             else do {
               data \<leftarrow> son_at sons i;
               r \<leftarrow> max_from data (key_length - 2) (push_bit 2 final_key2 OR of_nat d);
               Some (Some r) })"

text \<open>The data, and the new value of \<open>*keyp\<close>.\<close>

fun at_most_value :: "at_most_point \<Rightarrow> (word_t \<times> word_t) option" where
  "at_most_value (Exact d final_key) = Some (d, final_key)"
| "at_most_value (All_Smaller q key_length final_key) = max_from q key_length final_key"
| "at_most_value (All_Greater keyp path key_length final_key) = do {
     r \<leftarrow> find_smaller path (key_length + 2) (drop_bit 2 final_key);
     Some (case r of None \<Rightarrow> (NULL_WORD, keyp) | Some r \<Rightarrow> r) }"
| "at_most_value (No_Son keyp path key_length final_key) = do {
     r \<leftarrow> find_smaller path key_length final_key;
     Some (case r of None \<Rightarrow> (NULL_WORD, keyp) | Some r \<Rightarrow> r) }"

definition triev2_find_at_most :: "trie option \<Rightarrow> word_t \<Rightarrow> nat \<Rightarrow> (word_t \<times> word_t) option" where
  "triev2_find_at_most root key key_length =
    (case root of
       None \<Rightarrow> Some (NULL_WORD, key)
     | Some p \<Rightarrow>
       if key_length = 0 then None
       else do {
         r \<leftarrow> at_most_loop p (push_bit (32 - key_length) key) key_length 0 [];
         at_most_value r })"

lemma lookup_at:
  "header_ok m header \<Longrightarrow> lookup (Node ct header sons) (header_digits header @ c # es) = root_lookup (kid ct sons c) es"
  by (auto simp: Let_def root_lookup_def split: option.split)

lemma max_from_ok:
  "trie_ok n p \<Longrightarrow> n = 0 \<and> w = key \<or> n > 0 \<and> find_max_loop p key (2 * n) = Some w \<Longrightarrow>
    max_from p (2 * n) key = Some (lookup p (max_digits p), w)"
proof (induction p arbitrary: n key)
  case (Data d)
  then show ?case by simp
next
  case (Node ct header sons)
  from trie_ok_Node [OF Node.prems(1)] obtain m where m: "header_ok m header" "PREFIX_LENGTH header = 2 * m" "m < n"
    "length sons = trie_cell_size ct - 1" "\<And>s. s \<in> set sons \<Longrightarrow> trie_ok (n - m - 1) s" by metis
  let ?i = "greatest_non_null ct 4"
  from greatest_kid [OF m(4)] obtain s d where s: "?i \<noteq> 0" "son_at sons ?i = Some s"
      "d = deoffset ct (?i - 1)" "d < 4" "kid ct sons d = Some s" by blast
  have ok: "s \<in> set sons" "trie_ok (n - m - 1) s" using kid_in [OF s(5)] m(5) by auto
  let ?key1 = "if 2 * m \<noteq> 0 then push_bit (2 * m) key OR NODE_PREFIX header else key"
  have e: "2 * n - 2 * m - 2 = 2 * (n - m - 1)" by simp
  have c: "\<not> (?i = 0 \<or> 2 * n < 2 * m + 2)" "\<not> (2 * n < 2 * m + 2 \<or> d = 0xFF)" using s(1,4) m(3) by simp_all
  have "find_max_loop (Node ct header sons) key (2 * n) = Some w" using Node.prems(2) m(3) by simp
  then have "(if 2 * (n - m - 1) = 0 then Some (push_bit 2 ?key1 OR of_nat d)
      else find_max_loop s (push_bit 2 ?key1 OR of_nat d) (2 * (n - m - 1))) = Some w"
    unfolding find_max_loop.simps Let_def m(2) s(3) [symmetric] if_not_P [OF c(1)] s(2) bind.bind_lunit e .
  then have "n - m - 1 = 0 \<and> w = (push_bit 2 ?key1 OR of_nat d) \<or>
      n - m - 1 > 0 \<and> find_max_loop s (push_bit 2 ?key1 OR of_nat d) (2 * (n - m - 1)) = Some w"
    by (cases "n - m - 1 = 0") (simp_all del: push_bit_numeral_minus_1)
  from Node.IH [OF ok this]
  have "max_from (Node ct header sons) (2 * n) key = Some (lookup s (max_digits s), w)"
    unfolding max_from.simps Let_def m(2) s(3) [symmetric] if_not_P [OF c(2)] s(2) bind.bind_lunit e .
  moreover have "max_digits (Node ct header sons) = header_digits header @ d # max_digits s"
    using s(2,3) by (simp add: Let_def)
  ultimately show ?case using lookup_at [OF m(1), of ct sons d "max_digits s"] s(5) by simp
qed

lemma max_from_word:
  assumes "trie_ok n p" "unat key = val4 ds" "\<forall>d \<in> set ds. d < 4" "length ds + n \<le> 16"
  shows "\<exists>w. max_from p (2 * n) key = Some (lookup p (max_digits p), w) \<and> unat w = val4 (ds @ max_digits p)"
proof (cases "n = 0")
  case True
  then have "max_digits p = []" using assms(1) by (cases p) auto
  then show ?thesis using max_from_ok [OF assms(1), of key key] True assms(2) by simp
next
  case False
  then show ?thesis using find_max_loop_ok [OF assms(1) _ assms(2-4)] max_from_ok [OF assms(1)] by blast
qed

lemma all_less_few:
  "(\<forall>c < Suc 0. P c) \<longleftrightarrow> P 0" "(\<forall>c < 2. P c) \<longleftrightarrow> P 0 \<and> P (Suc 0)"
  "(\<forall>c < 3. P c) \<longleftrightarrow> P 0 \<and> P (Suc 0) \<and> P (2 :: nat)"
  by (auto simp: less_Suc_eq numeral_eq_Suc)

lemma kid_before:
  assumes "length sons = trie_cell_size ct - 1" "ix < 4"
  defines "i \<equiv> greatest_non_null ct ix"
  shows "if i = 0 then \<forall>c < ix. kid ct sons c = None
    else \<exists>s d. son_at sons i = Some s \<and> d = deoffset ct (i - 1) \<and> d < ix \<and> kid ct sons d = Some s \<and>
      (\<forall>c < ix. d < c \<longrightarrow> kid ct sons c = None)"
  using assms(1,2) unfolding i_def less_4
  by (cases ct; simp)
    (drule four_sons, (elim exE disjE; simp add: greatest_non_null_def deoffset_def kid_def all_less_few))+

lemma offset_before: "triev2_offset ct ix \<noteq> 0 \<Longrightarrow> ix < 4 \<Longrightarrow> triev2_offset ct ix - 1 = greatest_non_null ct ix"
  unfolding less_4 by (cases ct) (auto simp: greatest_non_null_def)

lemma unat_drop_digits:
  assumes "unat (w :: word_t) = val4 (xs @ ys)" "\<forall>d \<in> set ys. d < 4"
  shows "unat (drop_bit (2 * length ys) w) = val4 xs"
proof -
  have "val4 ys < 2 ^ (2 * length ys)" using val4_less [OF assms(2)] by (simp add: four_power)
  then show ?thesis using assms(1) by (simp add: unat_drop val4_append four_power)
qed

subsection \<open>Correctness\<close>

definition all4 :: "nat list \<Rightarrow> bool" where
  "all4 ds \<longleftrightarrow> (\<forall>d \<in> set ds. d < 4)"

lemma all4_simps [simp]: "all4 []" "all4 (d # ds) \<longleftrightarrow> d < 4 \<and> all4 ds" "all4 (xs @ ys) \<longleftrightarrow> all4 xs \<and> all4 ys"
  by (auto simp: all4_def)

lemma all4_digits [simp]: "all4 (digits n key)" and all4_header: "header_ok m header \<Longrightarrow> all4 (header_digits header)"
  using digits_less header_okD(5) [of m header] by (auto simp: all4_def prefix_digits_def)

lemma present_all4: "present n p ds \<longleftrightarrow> length ds = n \<and> all4 ds \<and> lookup p ds \<noteq> NULL_WORD"
  by (simp add: present_def all4_def)

lemma val4_less_append: "length xs = length xs' \<Longrightarrow> length ys = length ys' \<Longrightarrow> all4 (xs @ ys) \<Longrightarrow> all4 (xs' @ ys') \<Longrightarrow>
    val4 xs < val4 xs' \<Longrightarrow> val4 (xs @ ys) < val4 (xs' @ ys')"
  by (rule val4_append_less) (auto simp: all4_def)

text \<open>Two sequences are compared by what comes before a place, and then by what comes behind.\<close>

lemma val4_cases:
  assumes "length ds = length A + k" "all4 ds" "all4 A"
  obtains (Less) "\<And>es. length es = k \<Longrightarrow> all4 es \<Longrightarrow> val4 ds < val4 (A @ es)"
    | (Greater) "\<And>es. length es = k \<Longrightarrow> all4 es \<Longrightarrow> val4 (A @ es) < val4 ds" "take (length A) ds \<noteq> A"
    | (Equal) rs where "ds = A @ rs" "length rs = k" "all4 rs"
proof -
  have e: "ds = take (length A) ds @ drop (length A) ds" by simp
  have l: "length (take (length A) ds) = length A" "length (drop (length A) ds) = k" using assms(1) by auto
  have a: "all4 (take (length A) ds @ drop (length A) ds)" using assms(2) by simp
  consider "val4 (take (length A) ds) < val4 A" | "val4 A < val4 (take (length A) ds)"
    | "val4 (take (length A) ds) = val4 A" by linarith
  then show thesis
  proof cases
    case 1
    then show thesis using Less val4_less_append [OF l(1) _ a] l(2) assms(3) e by simp
  next
    case 2
    then show thesis using Greater val4_less_append [OF l(1) [symmetric] _ _ a] l(2) assms(3) e by fastforce
  next
    case 3
    then have "take (length A) ds = A" using val4_inject [OF l(1)] a assms(3) by (auto simp: all4_def dest: in_set_takeD)
    then show thesis using Equal [of "drop (length A) ds"] e l(2) a by (metis all4_simps(3))
  qed
qed

text \<open>\<open>sub_trie N p K n q\<close>: following the digits \<open>K\<close> down from \<open>p\<close> leads to \<open>q\<close> when \<open>n\<close> digits are left.\<close>

definition sub_trie :: "nat \<Rightarrow> trie \<Rightarrow> nat list \<Rightarrow> nat \<Rightarrow> trie \<Rightarrow> bool" where
  "sub_trie N p K n q \<longleftrightarrow> n \<le> N \<and> trie_ok n q \<and> (\<forall>es. lookup p (take (N - n) K @ es) = lookup q es)"

definition digit_frame :: "nat \<Rightarrow> nat list \<Rightarrow> nat \<Rightarrow> nat \<Rightarrow> nat \<Rightarrow> trie_frame \<Rightarrow> bool" where
  "digit_frame N K n0 m n = (\<lambda>(ct, header, sons, ix, off). m < n0 \<and> n0 \<le> N \<and> n = n0 - m - 1 \<and> header_ok m header \<and> ix < 4 \<and>
    take (N - n) K = take (N - n0) K @ header_digits header @ [ix])"

fun digit_path :: "nat \<Rightarrow> trie \<Rightarrow> nat list \<Rightarrow> nat \<Rightarrow> trie_frame list \<Rightarrow> bool" where
  "digit_path N p K n [] \<longleftrightarrow> n = N"
| "digit_path N p K n ((ct, header, sons, ix, off) # path) \<longleftrightarrow>
    (\<exists>m n0. digit_frame N K n0 m n (ct, header, sons, ix, off) \<and> off = triev2_offset ct ix \<and> off \<noteq> 0 \<and>
      sub_trie N p K n0 (Node ct header sons) \<and> digit_path N p K n0 path)"

text \<open>No key at most \<open>K\<close> starts with the digits of \<open>K\<close> up to the place where \<open>n\<close> are left.\<close>

definition excluded :: "nat \<Rightarrow> trie \<Rightarrow> nat list \<Rightarrow> nat \<Rightarrow> bool" where
  "excluded N p K n \<longleftrightarrow> (\<forall>ds. present N p ds \<longrightarrow> take (N - n) ds = take (N - n) K \<longrightarrow> val4 K < val4 ds)"

definition at_most :: "nat \<Rightarrow> trie \<Rightarrow> nat list \<Rightarrow> (word_t \<times> word_t) option \<Rightarrow> bool" where
  "at_most N p K r = (case r of
     None \<Rightarrow> \<forall>ds. present N p ds \<longrightarrow> val4 K < val4 ds
   | Some (d, w) \<Rightarrow> \<exists>ds. present N p ds \<and> val4 ds \<le> val4 K \<and> d = lookup p ds \<and> unat w = val4 ds \<and>
       (\<forall>ds'. present N p ds' \<longrightarrow> val4 ds' \<le> val4 K \<longrightarrow> val4 ds' \<le> val4 ds))"

lemma at_most_subtree:
  assumes K: "length K = N" "all4 K" and s: "trie_ok n s" and A: "length A + n = N" "all4 A"
    and l: "\<And>es. lookup p (A @ es) = lookup s es"
    and le: "val4 (A @ max_digits s) \<le> val4 K"
    and other: "\<And>ds. present N p ds \<Longrightarrow> val4 ds \<le> val4 K \<Longrightarrow> val4 (A @ max_digits s) < val4 ds \<Longrightarrow> take (length A) ds = A"
    and w: "unat w = val4 (A @ max_digits s)"
  shows "at_most N p K (Some (lookup s (max_digits s), w))"
proof -
  have mx: "present n s (max_digits s)" by (rule max_digits_present [OF s])
  then have "present N p (A @ max_digits s)" using A l by (simp add: present_all4)
  moreover have "val4 ds \<le> val4 (A @ max_digits s)" if ds: "present N p ds" "val4 ds \<le> val4 K" for ds
  proof -
    have len: "length ds = length A + length (max_digits s)" "all4 ds" using ds(1) mx A(1) by (auto simp: present_all4)
    have m4: "all4 (max_digits s)" using mx by (simp add: present_all4)
    from len A(2) show ?thesis
    proof (cases rule: val4_cases)
      case Less
      then show ?thesis using m4 by (simp add: less_imp_le)
    next
      case Greater
      then show ?thesis using other [OF ds] m4 by fastforce
    next
      case (Equal rs)
      then have "present n s rs" using ds(1) mx l by (simp add: present_all4)
      then have "val4 rs \<le> val4 (max_digits s)" by (rule max_digits_greatest [OF s])
      then show ?thesis using Equal by (simp add: val4_append)
    qed
  qed
  ultimately show ?thesis using le w l by (auto simp: at_most_def)
qed

lemma find_smaller_head:
  assumes K: "length K = N" "all4 K" "N \<le> 16"
    and f: "digit_frame N K n0 m n (ct, header, sons, ix, off)" and sub: "sub_trie N p K n0 (Node ct header sons)"
    and off: "off = greatest_non_null ct ix + 1" and ex: "excluded N p K n"
    and w: "unat w = val4 (take (N - n0) K @ header_digits header)"
    and up: "\<And>w. excluded N p K n0 \<Longrightarrow> unat w = val4 (take (N - n0) K) \<Longrightarrow>
      \<exists>r. find_smaller path (2 * n0 + 2) (drop_bit 2 w) = Some r \<and> at_most N p K r"
  shows "\<exists>r. find_smaller ((ct, header, sons, ix, off) # path) (2 * n + 2) w = Some r \<and> at_most N p K r"
proof -
  have h: "m < n0" "n0 \<le> N" "n = n0 - m - 1" "header_ok m header" "ix < 4"
      "take (N - n) K = take (N - n0) K @ header_digits header @ [ix]"
    using f by (auto simp: digit_frame_def)
  note hd = header_okD [OF h(4)]
  define A where "A = take (N - n0) K"
  define L where "L = drop (N - n) K"
  have A: "length A = N - n0" "all4 A" using K(1,2) by (auto simp: A_def all4_def dest: in_set_takeD)
  have h4: "all4 (header_digits header)" by (rule all4_header [OF h(4)])
  have "K = take (N - n) K @ L" by (simp add: L_def)
  then have "K = (A @ header_digits header @ [ix]) @ L" by (simp only: h(6) A_def)
  then have KA: "K = A @ header_digits header @ ix # L" by simp
  have L: "length L = n" "all4 L" using h(1-3) K(1,2) by (auto simp: L_def all4_def dest: in_set_dropD)
  note KA = KA L
  have sons: "length sons = trie_cell_size ct - 1" "\<And>s. s \<in> set sons \<Longrightarrow> trie_ok n s"
    using sub unfolding sub_trie_def trie_ok_Node_iff [OF h(4)] h(3) by auto
  have l: "lookup p (A @ header_digits header @ c # es) = root_lookup (kid ct sons c) es" for c es
    using sub lookup_at [OF h(4)] unfolding sub_trie_def A_def by simp
  have pres: "\<exists>c s es. ds = A @ header_digits header @ c # es \<and> c < 4 \<and> kid ct sons c = Some s \<and> present n s es"
    if "present N p ds" "take (N - n0) ds = A" for ds
  proof -
    have ds: "ds = A @ drop (N - n0) ds" using append_take_drop_id [of "N - n0" ds] that(2) by simp
    have "present n0 (Node ct header sons) (drop (N - n0) ds)"
      using that(1) sub h(2) unfolding present_all4 sub_trie_def A_def [symmetric]
      by (metis all4_simps(3) diff_diff_cancel ds length_drop)
    then show ?thesis unfolding present_Node [OF h(4,1)] h(3) using ds by metis
  qed
  have not_ix: "c \<noteq> ix \<or> val4 K < val4 (A @ header_digits header @ c # es)"
    if "present N p (A @ header_digits header @ c # es)" for c es
    using ex that unfolding excluded_def h(6) A_def [symmetric] using A(1) hd(4) h(1-3) by fastforce
  have above: "val4 K < val4 (A @ header_digits header @ c # es)" if "ix < c" "c < 4" "length es = n" "all4 es" for c es
    using val4_less_append [of "(A @ header_digits header) @ [ix]" "(A @ header_digits header) @ [c]" L es] that KA A(2) h4 h(5)
    by (simp add: val4_append)
  have kl: "2 * n + 2 + 2 * m + 2 = 2 * n0 + 2" "2 * n + 2 - 2 = 2 * n" using h(1,3) by simp_all
  have w1: "unat (drop_bit (2 * m) w) = val4 A"
    using unat_drop_digits [of w A "header_digits header"] w h4 hd(4) by (simp add: A_def all4_def)
  note gk = kid_before [OF sons(1) h(5)]
  let ?i = "greatest_non_null ct ix"
  show ?thesis
  proof (cases "?i = 0")
    case True
    have "excluded N p K n0" unfolding excluded_def A_def [symmetric]
    proof (intro allI impI)
      fix ds
      assume ds: "present N p ds" "take (N - n0) ds = A"
      from pres [OF ds] obtain c s es where c: "ds = A @ header_digits header @ c # es" "c < 4" "kid ct sons c = Some s"
          "present n s es" by blast
      have "\<not> c < ix" using gk True c(3) by auto
      then consider "c = ix" | "ix < c" by linarith
      then show "val4 K < val4 ds"
        using not_ix [of c es] above [of c es] c ds(1) by cases (auto simp: present_all4)
    qed
    from up [OF this w1 [unfolded A_def]] obtain r
      where r: "find_smaller path (2 * n0 + 2) (drop_bit 2 (drop_bit (2 * m) w)) = Some r" "at_most N p K r" by blast
    have "?i + 1 - 1 < 1" using True by simp
    then have "find_smaller ((ct, header, sons, ix, off) # path) (2 * n + 2) w = Some r"
      unfolding find_smaller.simps Let_def hd(1) off kl r(1) by (simp only: if_True)
    then show ?thesis using r(2) by blast
  next
    case False
    from gk False obtain s d where s: "son_at sons ?i = Some s" "d = deoffset ct (?i - 1)" "d < ix" "kid ct sons d = Some s"
        "\<And>c. c < ix \<Longrightarrow> d < c \<Longrightarrow> kid ct sons c = None" by auto
    have ok: "trie_ok n s" using kid_in [OF s(4)] sons(2) by blast
    let ?w2 = "if 2 * m \<noteq> 0 then push_bit (2 * m) (drop_bit (2 * m) w) OR NODE_PREFIX header else drop_bit (2 * m) w"
    let ?B = "A @ header_digits header @ [d]"
    have lenB: "length ?B + n = N" using A(1) hd(4) h(1-3) by simp
    have w2: "unat ?w2 = val4 (A @ header_digits header)"
      using extend_header [OF w1 _ h(4)] A h(1,2) K(3) unfolding hd(1) all4_def by simp
    have q: "\<forall>e \<in> set (A @ header_digits header). e < 4" "d < 4" "length (A @ header_digits header) < 16"
      using A h4 hd(4) h(1,2,5) K(3) s(3) by (auto simp: all4_def)
    have w3: "unat (push_bit 2 ?w2 OR of_nat d) = val4 ?B"
      using extend_digit [OF w2 q] unfolding append_assoc .
    have B4: "all4 ?B" using A(2) h4 s(3) h(5) by simp
    obtain r where r: "max_from s (2 * n) (push_bit 2 ?w2 OR of_nat d) = Some (lookup s (max_digits s), r)"
        "unat r = val4 (?B @ max_digits s)"
      using max_from_word [OF ok w3] B4 lenB K(3) by (auto simp: all4_def)
    have c: "\<not> ?i < 1" "\<not> d = 0xFF" using False s(3) h(5) by simp_all
    have e: "find_smaller ((ct, header, sons, ix, off) # path) (2 * n + 2) w = Some (Some (lookup s (max_digits s), r))"
      unfolding find_smaller.simps Let_def hd(1) off add_diff_cancel_right' if_not_P [OF c(1)] s(2) [symmetric] if_not_P [OF c(2)]
        s(1) bind.bind_lunit kl r(1) ..
    have mx: "present n s (max_digits s)" by (rule max_digits_present [OF ok])
    have "at_most N p K (Some (lookup s (max_digits s), r))"
    proof (rule at_most_subtree [OF K(1,2) ok lenB B4 _ _ _ r(2)])
      show "lookup p (?B @ es) = lookup s es" for es using l [of d es] s(4) by simp
      have "val4 (?B @ max_digits s) < val4 ((A @ header_digits header @ [ix]) @ L)"
        using mx KA(2,3) B4 s(3) h(5) by - (rule val4_less_append, auto simp: present_all4 val4_append)
      then show "val4 (?B @ max_digits s) \<le> val4 K" using KA(1) by simp
      show "take (length ?B) ds = ?B"
        if ds: "present N p ds" "val4 ds \<le> val4 K" "val4 (?B @ max_digits s) < val4 ds" for ds
      proof -
        have len: "length ds = length A + (m + 1 + n)" "all4 ds"
          using ds(1) KA hd(4) K(1) by (auto simp: present_all4)
        from len A(2) have "take (N - n0) ds = A"
        proof (cases rule: val4_cases)
          case Less
          have "val4 ds < val4 (A @ header_digits header @ d # max_digits s)"
            by (rule Less) (use h4 B4 mx hd(4) in \<open>simp_all add: present_all4\<close>)
          then show ?thesis using ds(3) by simp
        next
          case Greater
          have "val4 (A @ header_digits header @ ix # L) < val4 ds"
            by (rule Greater(1)) (use h4 h(5) KA(2,3) hd(4) in simp_all)
          then show ?thesis using ds(2) KA(1) by simp
        next
          case (Equal rs)
          then show ?thesis using A(1) by simp
        qed
        from pres [OF ds(1) this] obtain c t es where c: "ds = A @ header_digits header @ c # es" "c < 4"
          "kid ct sons c = Some t" "present n t es" by blast
        have "\<not> ix < c" using above [of c es] c ds(2) by (auto simp: present_all4)
        moreover have "c \<noteq> ix" using not_ix [of c es] ds(1,2) c(1) by auto
        moreover have "\<not> d < c" using s(5) [of c] c(3) calculation by (cases "d < c") auto
        moreover have "\<not> c < d"
        proof
          assume "c < d"
          then have "val4 ((A @ header_digits header @ [c]) @ es) < val4 (?B @ max_digits s)"
            using mx c(2,4) B4 by - (rule val4_less_append, auto simp: present_all4 val4_append)
          then show False using ds(3) c(1) by simp
        qed
        ultimately have "c = d" by simp
        then show ?thesis using c(1) by simp
      qed
    qed
    then show ?thesis using e by blast
  qed
qed

lemma find_smaller_ok:
  assumes K: "length K = N" "all4 K" "N \<le> 16"
  shows "digit_path N p K n path \<Longrightarrow> excluded N p K n \<Longrightarrow> unat w = val4 (take (N - n) K) \<Longrightarrow>
    \<exists>r. find_smaller path (2 * n + 2) (drop_bit 2 w) = Some r \<and> at_most N p K r"
proof (induction path arbitrary: n w)
  case Nil
  then show ?case by (simp add: excluded_def at_most_def)
next
  case (Cons f path)
  obtain ct header sons ix off where f: "f = (ct, header, sons, ix, off)" by (cases f)
  obtain m n0 where fr: "digit_frame N K n0 m n (ct, header, sons, ix, off)" "off = triev2_offset ct ix" "off \<noteq> 0"
      "sub_trie N p K n0 (Node ct header sons)" "digit_path N p K n0 path"
    using Cons.prems(1) f by auto
  have h: "ix < 4" "take (N - n) K = take (N - n0) K @ header_digits header @ [ix]"
    using fr(1) by (auto simp: digit_frame_def)
  have off: "off = greatest_non_null ct ix + 1" using offset_before [of ct ix] fr(2,3) h(1) by simp
  have "unat (drop_bit (2 * length [ix]) w) = val4 (take (N - n0) K @ header_digits header)"
    by (rule unat_drop_digits) (use Cons.prems(3) h in simp_all)
  then have w: "unat (drop_bit 2 w) = val4 (take (N - n0) K @ header_digits header)" by simp
  show ?case unfolding f
    by (rule find_smaller_head [OF K fr(1,4) off Cons.prems(2) w Cons.IH [OF fr(5)]])
qed

definition at_most_point_ok :: "nat \<Rightarrow> trie \<Rightarrow> nat list \<Rightarrow> at_most_point \<Rightarrow> bool" where
  "at_most_point_ok N p K x = (case x of
      Exact d w \<Rightarrow> at_most N p K (Some (d, w))
    | All_Smaller q kl w \<Rightarrow> \<exists>r. max_from q kl w = Some r \<and> at_most N p K (Some r)
    | All_Greater keyp path kl w \<Rightarrow> \<exists>r. find_smaller path (kl + 2) (drop_bit 2 w) = Some r \<and> at_most N p K r
    | No_Son keyp path kl w \<Rightarrow> \<exists>r. find_smaller path kl w = Some r \<and> at_most N p K r)"

lemma all_smaller:
  assumes K: "length K = N" "all4 K" "N \<le> 16" and sub: "sub_trie N p K n (Node ct header sons)"
    and h: "header_ok m header" "m < n" and dr: "drop (N - n) K = digits n S"
    and w: "unat w = val4 (take (N - n) K)" and less: "val4 (header_digits header) < val4 (digits m S)"
  shows "\<exists>r. max_from (Node ct header sons) (2 * n) w = Some r \<and> at_most N p K (Some r)"
proof -
  let ?q = "Node ct header sons" and ?A = "take (N - n) K"
  have n: "n \<le> N" "trie_ok n ?q" "\<And>es. lookup p (?A @ es) = lookup ?q es" using sub by (auto simp: sub_trie_def)
  have A: "length ?A + n = N" "all4 ?A" using K n(1) by (auto simp: all4_def dest: in_set_takeD)
  obtain r where r: "max_from ?q (2 * n) w = Some (lookup ?q (max_digits ?q), r)" "unat r = val4 (?A @ max_digits ?q)"
    using max_from_word [OF n(2) w] A K by (auto simp: all4_def)
  have mx: "present n ?q (max_digits ?q)" by (rule max_digits_present [OF n(2)])
  have lt: "val4 (?A @ es) < val4 K" if "present n ?q es" for es
  proof -
    have es: "length es = n" "all4 es" using that by (simp_all only: present_all4)
    from that obtain c s rs where "es = header_digits header @ c # rs" unfolding present_Node [OF h] by blast
    note c = this es
    have d: "digits n S = digits m S @ digits (n - m) (push_bit (2 * m) S)" using digits_add [of m "n - m" S] h(2) by simp
    have "val4 es < val4 (digits n S)"
      unfolding c(1) d using c header_okD(4) [OF h(1)] h(2) less by (intro val4_less_append) auto
    moreover have "K = ?A @ digits n S" using append_take_drop_id [of "N - n" K] dr by simp
    then have "val4 K = val4 (?A @ digits n S)" by simp
    ultimately show ?thesis using c(2) by (simp add: val4_append)
  qed
  have "at_most N p K (Some (lookup ?q (max_digits ?q), r))"
  proof (rule at_most_subtree [OF K(1,2) n(2) A n(3) _ _ r(2)])
    show "val4 (?A @ max_digits ?q) \<le> val4 K" using lt [OF mx] by simp
    show "take (length ?A) ds = ?A"
      if ds: "present N p ds" "val4 ds \<le> val4 K" "val4 (?A @ max_digits ?q) < val4 ds" for ds
    proof -
      have len: "length ds = length ?A + n" "all4 ds" using ds(1) A(1) by (auto simp: present_all4)
      from len A(2) show ?thesis
      proof (cases rule: val4_cases)
        case Less
        have "length (max_digits ?q) = n" "all4 (max_digits ?q)" using mx by (simp_all only: present_all4)
        from Less [OF this] show ?thesis using ds(3) by linarith
      next
        case Greater
        have "val4 (?A @ digits n S) < val4 ds" by (rule Greater(1)) simp_all
        moreover have "?A @ digits n S = K" using append_take_drop_id [of "N - n" K] dr by simp
        ultimately show ?thesis using ds(2) by simp
      next
        case (Equal rs)
        then show ?thesis by (metis append_eq_conv_conj)
      qed
    qed
  qed
  then show ?thesis using r(1) by blast
qed

lemma all_greater:
  assumes K: "length K = N" "all4 K" and sub: "sub_trie N p K n (Node ct header sons)"
    and h: "header_ok m header" "m < n" and dr: "drop (N - n) K = digits n S"
    and less: "val4 (digits m S) < val4 (header_digits header)"
  shows "excluded N p K n"
  unfolding excluded_def
proof (intro allI impI)
  fix ds
  assume ds: "present N p ds" "take (N - n) ds = take (N - n) K"
  let ?A = "take (N - n) K"
  have n: "n \<le> N" "\<And>es. lookup p (?A @ es) = lookup (Node ct header sons) es" using sub by (auto simp: sub_trie_def)
  have split: "ds = ?A @ drop (N - n) ds" using append_take_drop_id [of "N - n" ds] ds(2) by simp
  define es where "es = drop (N - n) ds"
  have "all4 es" using ds(1) by (auto simp: es_def present_all4 all4_def dest: in_set_dropD)
  moreover have "length es = n" using ds(1) n(1) by (simp add: es_def present_all4)
  moreover have "lookup (Node ct header sons) es \<noteq> NULL_WORD" using ds(1) n(2) [of es] split by (simp add: es_def present_all4)
  ultimately have p: "present n (Node ct header sons) es" by (simp add: present_all4 del: lookup.simps)
  then obtain c s rs where c: "es = header_digits header @ c # rs" unfolding present_Node [OF h] by blast
  have d: "digits n S = digits m S @ digits (n - m) (push_bit (2 * m) S)" using digits_add [of m "n - m" S] h(2) by simp
  have "val4 (digits n S) < val4 es"
    unfolding c d using c p header_okD(4) [OF h(1)] h(2) less by (intro val4_less_append) (auto simp: present_all4)
  moreover have "K = ?A @ digits n S" using append_take_drop_id [of "N - n" K] dr by simp
  then have "val4 K = val4 (?A @ digits n S)" by simp
  moreover have "ds = ?A @ es" using split by (simp add: es_def)
  then have "val4 ds = val4 (?A @ es)" by simp
  ultimately show "val4 K < val4 ds" using p by (simp add: val4_append present_all4)
qed

lemma at_most_loop_ok:
  assumes K: "length K = N" "all4 K" "N \<le> 16"
  shows "sub_trie N p K n q \<Longrightarrow> n > 0 \<Longrightarrow> digit_path N p K n path \<Longrightarrow> unat w = val4 (take (N - n) K) \<Longrightarrow>
    drop (N - n) K = digits n S \<Longrightarrow>
    \<exists>x. at_most_loop q S (2 * n) w path = Some x \<and> at_most_point_ok N p K x"
proof (induction q arbitrary: n S w path)
  case (Data d)
  then show ?case by (simp add: sub_trie_def)
next
  case (Node ct header sons)
  let ?q = "Node ct header sons" and ?A = "take (N - n) K"
  have sub: "n \<le> N" "trie_ok n ?q" "\<And>es. lookup p (?A @ es) = lookup ?q es"
    using Node.prems(1) by (auto simp: sub_trie_def)
  from trie_ok_Node [OF sub(2)] obtain m where m: "header_ok m header" "PREFIX_LENGTH header = 2 * m" "m < n"
    "length sons = trie_cell_size ct - 1" "\<And>s. s \<in> set sons \<Longrightarrow> trie_ok (n - m - 1) s" by metis
  note hd = header_okD [OF m(1)]
  let ?S = "push_bit (2 * m) S"
  let ?ix = "key_digit ?S"
  let ?w1 = "if 2 * m \<noteq> 0 then push_bit (2 * m) w OR NODE_PREFIX header else w"
  have A: "length ?A + n = N" "all4 ?A" using K sub(1) by (auto simp: all4_def dest: in_set_takeD)
  have match: "(2 * m \<noteq> 0 \<and> NODE_PREFIX header \<noteq> drop_bit (32 - 2 * m) S) \<longleftrightarrow> header_digits header \<noteq> digits m S"
    using header_matches [OF m(1), of S] m(2) header_okD(4) [OF m(1)] by (cases m) auto
  show ?case
  proof (cases "header_digits header = digits m S")
    case False
    have v: "val4 (header_digits header) = unat (NODE_PREFIX header)" "val4 (digits m S) = unat (drop_bit (32 - 2 * m) S)"
      using val4_prefix_digits [OF hd(2)] hd(3,5) val4_digits [of m S] by (simp_all add: unat_drop)
    let ?b = "NODE_PREFIX header < drop_bit (32 - 2 * m) S"
    have b: "?b \<longleftrightarrow> val4 (header_digits header) < val4 (digits m S)" unfolding v by (simp add: word_less_nat_alt)
    have ne: "val4 (header_digits header) \<noteq> val4 (digits m S)"
      using False val4_inject [of "header_digits header" "digits m S"] hd(4) all4_header [OF m(1)] all4_digits [of m S]
      by (auto simp: all4_def)
    have "at_most_loop ?q S (2 * n) w path =
        Some (if ?b then All_Smaller ?q (2 * n) w else All_Greater S path (2 * n) w)"
      using False match by (simp add: Let_def m(2))
    moreover have "at_most_point_ok N p K (if ?b then All_Smaller ?q (2 * n) w else All_Greater S path (2 * n) w)"
    proof (cases ?b)
      case True
      then show ?thesis using all_smaller [OF K Node.prems(1) m(1,3) Node.prems(5,4)] b by (simp add: at_most_point_ok_def)
    next
      case False
      then have "val4 (digits m S) < val4 (header_digits header)" using b ne by simp
      from find_smaller_ok [OF K Node.prems(3) all_greater [OF K(1,2) Node.prems(1) m(1,3) Node.prems(5) this] Node.prems(4)]
      show ?thesis using False by (simp add: at_most_point_ok_def)
    qed
    ultimately show ?thesis by blast
  next
    case True
    let ?n = "n - m - 1"
    have c: "\<not> (2 * m \<noteq> 0 \<and> NODE_PREFIX header \<noteq> drop_bit (32 - 2 * m) S)" "\<not> 2 * n < 2 * m + 2"
      using match True m(3) by auto
    have w1: "unat ?w1 = val4 (?A @ header_digits header)"
      using extend_header [OF Node.prems(4) _ m(1)] A K(3) m(3) unfolding hd(1) all4_def by simp
    have dn: "digits n S = header_digits header @ ?ix # digits ?n (rest m S)"
      using digits_below [OF m(3), of S] True by simp
    have tk: "take (N - ?n) K = ?A @ header_digits header @ [?ix]" and dp: "drop (N - ?n) K = digits ?n (rest m S)"
    proof -
      have "K = ?A @ header_digits header @ ?ix # digits ?n (rest m S)"
        using append_take_drop_id [of "N - n" K] Node.prems(5) dn by simp
      then have e: "K = (?A @ header_digits header @ [?ix]) @ digits ?n (rest m S)" by simp
      have l: "length (?A @ header_digits header @ [?ix]) = N - ?n" using A(1) hd(4) m(3) by simp
      show "take (N - ?n) K = ?A @ header_digits header @ [?ix]" using e l by (metis append_eq_conv_conj)
      show "drop (N - ?n) K = digits ?n (rest m S)" using e l by (metis append_eq_conv_conj)
    qed
    have fr: "digit_frame N K n m ?n (ct, header, sons, ?ix, off)" for off
      unfolding digit_frame_def prod.case using m(1,3) sub(1) key_digit_less tk by blast
    show ?thesis
    proof (cases "kid ct sons ?ix")
      case None
      let ?path = "(ct, header, sons, ?ix, greatest_non_null ct ?ix + 1) # path"
      have o: "triev2_offset ct ?ix = 0" using kid_offset(1) [OF m(4) key_digit_less] None by blast
      have e: "2 * n - 2 * m = 2 * ?n + 2" using m(3) by simp
      have loop: "at_most_loop ?q S (2 * n) w path = Some (No_Son ?S ?path (2 * ?n + 2) ?w1)"
        unfolding at_most_loop.simps Let_def m(2) if_not_P [OF c(1)] if_not_P [OF c(2)] if_P [OF o] e ..
      have ex: "excluded N p K ?n" unfolding excluded_def tk
      proof (intro allI impI)
        fix ds
        assume ds: "present N p ds" "take (N - ?n) ds = ?A @ header_digits header @ [?ix]"
        have "ds = (?A @ header_digits header @ [?ix]) @ drop (N - ?n) ds"
          by (simp only: ds(2) [symmetric] append_take_drop_id)
        then have "lookup p (?A @ header_digits header @ ?ix # drop (N - ?n) ds) \<noteq> NULL_WORD"
          using ds(1) unfolding present_all4 by (metis append.assoc append_Cons append_Nil)
        then show "val4 K < val4 ds" unfolding sub(3) lookup_at [OF m(1)] None by simp
      qed
      have "\<exists>r. find_smaller ?path (2 * ?n + 2) ?w1 = Some r \<and> at_most N p K r"
        by (rule find_smaller_head [OF K fr Node.prems(1) refl ex w1 find_smaller_ok [OF K Node.prems(3)]])
      then show ?thesis unfolding loop by (simp add: at_most_point_ok_def)
    next
      case (Some s)
      let ?i = "triev2_offset ct ?ix"
      have s: "s \<in> set sons" "trie_ok ?n s" using kid_in [OF Some] m(5) by auto
      have o: "\<not> ?i = 0" "son_at sons ?i = Some s"
        using kid_offset(1) [OF m(4) key_digit_less [of ?S]] Some by (auto simp: kid_def)
      let ?path = "(ct, header, sons, ?ix, ?i) # path" and ?w2 = "push_bit 2 ?w1 OR of_nat ?ix"
      have e: "2 * n - 2 * m - 2 = 2 * ?n" using m(3) by simp
      have loop: "at_most_loop ?q S (2 * n) w path =
         (if 2 * ?n = 0 then (case s of Data d \<Rightarrow> Some (Exact d ?w2) | Node _ _ _ \<Rightarrow> None)
          else at_most_loop s (rest m S) (2 * ?n) ?w2 ?path)"
        unfolding at_most_loop.simps Let_def m(2) if_not_P [OF c(1)] if_not_P [OF c(2)] if_not_P [OF o(1)] o(2) bind.bind_lunit e ..
      have q: "\<forall>e \<in> set (?A @ header_digits header). e < 4" "length (?A @ header_digits header) < 16"
        using A all4_header [OF m(1)] hd(4) m(3) K(3) by (auto simp: all4_def)
      have w2: "unat ?w2 = val4 (take (N - ?n) K)"
        using extend_digit [OF w1 q(1) key_digit_less q(2)] unfolding tk append_assoc .
      have s_sub: "sub_trie N p K ?n s"
        using s(2) sub(1,3) lookup_at [OF m(1), of ct sons ?ix] Some unfolding sub_trie_def tk by simp
      show ?thesis
      proof (cases "?n = 0")
        case True
        then obtain d where d: "s = Data d" "d \<noteq> NULL_WORD" using s(2) by (cases s) auto
        have "take N K = K" using K(1) by simp
        then have tN: "take (N - ?n) K = K" using True by simp
        have "lookup p (take (N - ?n) K @ []) = lookup s []" using s_sub unfolding sub_trie_def by blast
        then have lk: "lookup p K = d" using tN d(1) by simp
        have "at_most N p K (Some (d, ?w2))"
          unfolding at_most_def option.case prod.case
          using K lk d(2) w2 unfolding tN by (intro exI [of _ K]) (simp add: present_all4)
        then show ?thesis unfolding loop using True d(1) by (simp add: at_most_point_ok_def)
      next
        case False
        have "digit_path N p K ?n ?path"
          unfolding digit_path.simps using fr o(1) Node.prems(1,3) by blast
        then show ?thesis unfolding loop using Node.IH [OF s(1) s_sub _ _ w2 dp] False by simp
      qed
    qed
  qed
qed

subsection \<open>In terms of keys\<close>

lemma key_digits_ok:
  assumes "n \<le> 16" "unat key < 4 ^ n"
  shows "val4 (prefix_digits n key) = unat key" "all4 (prefix_digits n key)" "length (prefix_digits n key) = n"
  using val4_prefix_digits [OF assms(2,1)] by (simp_all add: prefix_digits_def)

lemma present_key:
  assumes "n \<le> 16" "present n p ds"
  shows "\<exists>key. prefix_digits n key = ds \<and> unat key = val4 ds \<and> unat key < 4 ^ n"
proof -
  have ds: "length ds = n" "\<forall>d \<in> set ds. d < 4" using assms(2) by (auto simp: present_def)
  have l: "val4 ds < 4 ^ n" using val4_less [OF ds(2)] ds(1) by simp
  also have "(4 :: nat) ^ n \<le> 4 ^ 16" using assms(1) by (intro power_increasing) auto
  finally have "unat (of_nat (val4 ds) :: word_t) = val4 ds" by (simp add: unat_of_nat take_bit_nat_eq_self)
  then show ?thesis using prefix_digitsI [OF assms(1) ds] l by metis
qed

lemma triev2_find_max_ok:
  assumes "trie_ok n p" and "0 < n" "n \<le> 16"
  shows "\<exists>key. triev2_find_max (Some p) (2 * n) = Some key \<and> unat key < 4 ^ n \<and> trie_lookup n (Some p) key \<noteq> NULL_WORD \<and>
    (\<forall>key'. unat key' < 4 ^ n \<longrightarrow> trie_lookup n (Some p) key' \<noteq> NULL_WORD \<longrightarrow> key' \<le> key)"
proof -
  obtain key where key: "find_max_loop p 0 (2 * n) = Some key" "unat key = val4 (max_digits p)"
    using find_max_loop_ok [OF assms(1,2), of 0 "[]"] assms(3) by auto
  have mx: "present n p (max_digits p)" by (rule max_digits_present [OF assms(1)])
  then have d: "prefix_digits n key = max_digits p" "unat key < 4 ^ n"
    using prefix_digitsI [OF assms(3), of "max_digits p" key] key(2) by (auto simp: present_def)
  have "key' \<le> key" if "unat key' < 4 ^ n" "trie_lookup n (Some p) key' \<noteq> NULL_WORD" for key'
  proof -
    note k = key_digits_ok [OF assms(3) that(1)]
    have "present n p (prefix_digits n key')" using that(2) k by (simp add: present_all4 trie_lookup_def)
    from max_digits_greatest [OF assms(1) this] show ?thesis using k(1) key(2) by (simp add: word_le_nat_alt)
  qed
  moreover have "trie_lookup n (Some p) key \<noteq> NULL_WORD" using mx d(1) by (simp add: trie_lookup_def present_def)
  ultimately show ?thesis using key(1) d(2) assms(2) by (auto simp: triev2_find_max_def)
qed

lemma at_most_value_ok:
  assumes "at_most_point_ok N p K x"
  shows "\<exists>d key1 r. at_most_value x = Some (d, key1) \<and> at_most N p K r \<and>
    (case r of None \<Rightarrow> d = NULL_WORD | Some y \<Rightarrow> y = (d, key1))"
proof -
  have *: "\<exists>d key1 r. Some (case r' of None \<Rightarrow> (NULL_WORD, keyp) | Some r \<Rightarrow> r) = Some (d, key1) \<and> at_most N p K r \<and>
    (case r of None \<Rightarrow> d = NULL_WORD | Some y \<Rightarrow> y = (d, key1))" if "at_most N p K r'" for r' keyp
    using that by (intro exI [of _ "fst (case r' of None \<Rightarrow> (NULL_WORD, keyp) | Some r \<Rightarrow> r)"]
      exI [of _ "snd (case r' of None \<Rightarrow> (NULL_WORD, keyp) | Some r \<Rightarrow> r)"] exI [of _ r']) (simp split: option.split)
  show ?thesis
  proof (cases x)
    case (Exact d w)
    then show ?thesis using assms by (intro exI [of _ d] exI [of _ w] exI [of _ "Some (d, w)"]) (simp add: at_most_point_ok_def)
  next
    case (All_Smaller q kl w)
    then obtain r where "max_from q kl w = Some r" "at_most N p K (Some r)" using assms by (auto simp: at_most_point_ok_def)
    then show ?thesis using All_Smaller
      by (intro exI [of _ "fst r"] exI [of _ "snd r"] exI [of _ "Some r"]) simp
  next
    case (All_Greater k path kl w)
    then show ?thesis using assms * [where keyp = k] by (auto simp: at_most_point_ok_def)
  next
    case (No_Son k path kl w)
    then show ?thesis using assms * [where keyp = k] by (auto simp: at_most_point_ok_def)
  qed
qed

lemma triev2_find_at_most_ok:
  assumes root: "root_ok n root" and n: "0 < n" "n \<le> 16" and key: "unat key < 4 ^ n"
  shows "\<exists>d key1. triev2_find_at_most root key (2 * n) = Some (d, key1) \<and>
    (if \<exists>key'. key' \<le> key \<and> trie_lookup n root key' \<noteq> NULL_WORD
     then d = trie_lookup n root key1 \<and> d \<noteq> NULL_WORD \<and> key1 \<le> key \<and>
       (\<forall>key'. key' \<le> key \<longrightarrow> trie_lookup n root key' \<noteq> NULL_WORD \<longrightarrow> key' \<le> key1)
     else d = NULL_WORD)"
proof (cases root)
  case None
  then show ?thesis by (simp add: triev2_find_at_most_def trie_lookup_def)
next
  case (Some p)
  let ?K = "prefix_digits n key"
  note k = key_digits_ok [OF n(2) key]
  have p: "trie_ok n p" using root Some by simp
  have K: "length ?K = n" "all4 ?K" "n \<le> 16" using k n by auto
  have "sub_trie n p ?K n p" using p by (simp add: sub_trie_def)
  from at_most_loop_ok [OF K this n(1), of "[]" 0 "push_bit (32 - 2 * n) key"]
  obtain x where x: "at_most_loop p (push_bit (32 - 2 * n) key) (2 * n) 0 [] = Some x" "at_most_point_ok n p ?K x"
    by (auto simp: prefix_digits_def)
  have zero: "\<not> 2 * n = 0" using n by simp
  have "triev2_find_at_most root key (2 * n) = at_most_value x"
    unfolding triev2_find_at_most_def Some option.case if_not_P [OF zero] x(1) bind.bind_lunit ..
  then obtain d key1 r where r: "triev2_find_at_most root key (2 * n) = Some (d, key1)" "at_most n p ?K r"
      "case r of None \<Rightarrow> d = NULL_WORD | Some y \<Rightarrow> y = (d, key1)" using at_most_value_ok [OF x(2)] by auto
  have le: "unat key' < 4 ^ n" if "key' \<le> key" for key' using that key by (simp add: word_le_nat_alt)
  have pk: "present n p (prefix_digits n key') \<longleftrightarrow> trie_lookup n root key' \<noteq> NULL_WORD" if "key' \<le> key" for key'
    using key_digits_ok [OF n(2) le [OF that]] Some by (simp add: present_all4 trie_lookup_def)
  have v: "val4 (prefix_digits n key') = unat key'" if "key' \<le> key" for key'
    using key_digits_ok [OF n(2) le [OF that]] by simp
  show ?thesis
  proof (cases r)
    case None
    have "trie_lookup n root key' = NULL_WORD" if "key' \<le> key" for key'
      using r(2) None pk [OF that] v [OF that] k(1) that by (fastforce simp: at_most_def word_le_nat_alt)
    then show ?thesis using r(1,3) None by auto
  next
    case (Some y)
    then obtain ds where ds: "present n p ds" "val4 ds \<le> unat key" "d = lookup p ds" "unat key1 = val4 ds"
        "\<And>ds'. present n p ds' \<Longrightarrow> val4 ds' \<le> unat key \<Longrightarrow> val4 ds' \<le> val4 ds"
      using r(2,3) k(1) by (auto simp: at_most_def)
    have e: "prefix_digits n key1 = ds"
      using prefix_digitsI(1) [OF n(2)] ds(1,4) by (auto simp: present_def)
    have "key1 \<le> key" using ds(2,4) by (simp add: word_le_nat_alt)
    moreover have "d = trie_lookup n root key1" "d \<noteq> NULL_WORD"
      using ds(1,3) e \<open>root = Some p\<close> by (simp_all add: trie_lookup_def present_def)
    moreover have "key' \<le> key1" if "key' \<le> key" "trie_lookup n root key' \<noteq> NULL_WORD" for key'
      using ds(5) [of "prefix_digits n key'"] pk [OF that(1)] v [OF that(1)] that ds(4) by (simp add: word_le_nat_alt)
    ultimately show ?thesis using r(1) by auto
  qed
qed

end
