(* ===== verification/Triev2_Gaps.thy ===== *)
theory Triev2_Gaps
  imports Triev2_Search
begin

text \<open>
  \<^verbatim>\<open>triev2_find_nonexistent_key\<close> finds a key of a range of 16 that the trie does not have, with a look at
  the last two levels only; and the assertions of the tests.
\<close>

section \<open>A key that is not there\<close>

text \<open>The first loop of \<^verbatim>\<open>triev2_find_nonexistent_key\<close>: \<open>Some None\<close> when the key is not in the trie, otherwise
  its last node and the node above it.\<close>

function nonexistent_loop :: "trie \<Rightarrow> word_t \<Rightarrow> nat \<Rightarrow> trie option \<Rightarrow> (trie \<times> trie option) option option" where
  "nonexistent_loop (Data d) rest_of_key key_length up = None"
| "nonexistent_loop (Node ct header sons) rest_of_key key_length up =
    (let prefix_length = PREFIX_LENGTH header in
     if prefix_length \<noteq> 0 \<and> NODE_PREFIX header \<noteq> drop_bit (32 - prefix_length) rest_of_key then Some None
     else if key_length < prefix_length + 2 then None
     else
       let key1 = push_bit prefix_length rest_of_key; i = triev2_offset ct (key_digit key1) in
       if i = 0 then Some None
       else if key_length - prefix_length - 2 = 0 then Some (Some (Node ct header sons, up))
       else do {
         q \<leftarrow> son_at sons i;
         nonexistent_loop q (push_bit 2 key1) (key_length - prefix_length - 2) (Some (Node ct header sons)) })"
  by pat_completeness auto

termination
  by (relation "measure (\<lambda>(p, rest_of_key, key_length, up). size p)") (auto simp: son_at_size)

text \<open>The sons of the upper node beside the last node; \<open>Some None\<close> when all keys below them exist.\<close>

definition sibling_key :: "trie_cell \<Rightarrow> trie list \<Rightarrow> word_t \<Rightarrow> nat \<Rightarrow> word_t option option" where
  "sibling_key up_ct up_sons key j =
    (if triev2_offset up_ct j = 0 then Some (Some (key + 4 * of_nat j))
     else do {
       p \<leftarrow> son_at up_sons (triev2_offset up_ct j);
       (case p of
          Data _ \<Rightarrow> None
        | Node ct header sons \<Rightarrow>
            if PREFIX_LENGTH header \<noteq> 0 then None
            else if ct \<noteq> CELL_trie1234 then Some (Some (key + 4 * of_nat j + first_nonexistent_key ct))
            else Some None) })"

definition triev2_find_nonexistent_key :: "trie option \<Rightarrow> word_t \<Rightarrow> nat \<Rightarrow> word_t option" where
  "triev2_find_nonexistent_key root key key_length =
    (if key mod 16 \<noteq> 0 then None
     else case root of
       None \<Rightarrow> Some key
     | Some p \<Rightarrow>
       if key_length = 0 then None
       else do {
         r \<leftarrow> nonexistent_loop p (push_bit (32 - key_length) key) key_length None;
         (case r of
            Some (Node ct header sons, up) \<Rightarrow>
              if ct \<noteq> CELL_trie1234 then Some (key + first_nonexistent_key ct)
              else if PREFIX_LENGTH header \<noteq> 0 then Some (key + 4)
              else (case up of
                  Some (Node up_ct up_header up_sons) \<Rightarrow> do {
                    r1 \<leftarrow> sibling_key up_ct up_sons key 1;
                    (case r1 of Some k \<Rightarrow> Some k | None \<Rightarrow> do {
                      r2 \<leftarrow> sibling_key up_ct up_sons key 2;
                      (case r2 of Some k \<Rightarrow> Some k | None \<Rightarrow> do {
                        r3 \<leftarrow> sibling_key up_ct up_sons key 3;
                        Some (case r3 of Some k \<Rightarrow> k | None \<Rightarrow> 0xFFFFFFFF) }) }) }
                | _ \<Rightarrow> None)
          | _ \<Rightarrow> Some key) })"

text \<open>\<open>father_ok N p K n q up\<close>: \<open>up\<close> is the node above \<open>q\<close> on the way of \<open>K\<close> down from \<open>p\<close>.\<close>

definition father_ok :: "nat \<Rightarrow> trie \<Rightarrow> nat list \<Rightarrow> nat \<Rightarrow> trie option \<Rightarrow> bool" where
  "father_ok N p K n up \<longleftrightarrow> (case up of
      None \<Rightarrow> n = N
    | Some q \<Rightarrow> \<exists>ct header sons m n0 c. q = Node ct header sons \<and> header_ok m header \<and> m < n0 \<and> n = n0 - m - 1 \<and>
        sub_trie N p K n0 q \<and> take (N - n) K = take (N - n0) K @ header_digits header @ [c])"

definition leaf_ok :: "nat \<Rightarrow> trie \<Rightarrow> nat list \<Rightarrow> trie \<times> trie option \<Rightarrow> bool" where
  "leaf_ok N p K = (\<lambda>(leaf, up). \<exists>ct header sons m c. leaf = Node ct header sons \<and> header_ok m header \<and>
     sub_trie N p K (Suc m) leaf \<and> father_ok N p K (Suc m) up \<and> K = take (N - Suc m) K @ header_digits header @ [c])"

lemma nonexistent_loop_ok:
  assumes K: "length K = N"
  shows "sub_trie N p K n q \<Longrightarrow> n > 0 \<Longrightarrow> father_ok N p K n up \<Longrightarrow> drop (N - n) K = digits n S \<Longrightarrow>
    \<exists>r. nonexistent_loop q S (2 * n) up = Some r \<and>
      (case r of None \<Rightarrow> lookup p K = NULL_WORD | Some x \<Rightarrow> leaf_ok N p K x)"
proof (induction q arbitrary: n S up)
  case (Data d)
  then show ?case by (simp add: sub_trie_def)
next
  case (Node ct header sons)
  let ?q = "Node ct header sons" and ?A = "take (N - n) K"
  have sub: "n \<le> N" "trie_ok n ?q" "\<And>es. lookup p (?A @ es) = lookup ?q es"
    using Node.prems(1) by (auto simp: sub_trie_def)
  from trie_ok_Node [OF sub(2)] obtain m where m: "header_ok m header" "PREFIX_LENGTH header = 2 * m" "m < n"
    "length sons = trie_cell_size ct - 1" "\<And>s. s \<in> set sons \<Longrightarrow> trie_ok (n - m - 1) s" by metis
  note hd = header_okD [OF m(1)]
  have KA: "K = ?A @ digits n S" using append_take_drop_id [of "N - n" K] Node.prems(4) by simp
  let ?S = "push_bit (2 * m) S"
  let ?ix = "key_digit ?S" and ?n = "n - m - 1"
  have match: "(2 * m \<noteq> 0 \<and> NODE_PREFIX header \<noteq> drop_bit (32 - 2 * m) S) \<longleftrightarrow> header_digits header \<noteq> digits m S"
    using header_matches [OF m(1), of S] m(2) header_okD(4) [OF m(1)] by (cases m) auto
  have look: "lookup p K = lookup ?q (digits n S)" using sub(3) [of "digits n S"] KA by simp
  show ?case
  proof (cases "header_digits header = digits m S")
    case False
    then have "nonexistent_loop ?q S (2 * n) up = Some None" using match by (simp add: Let_def m(2))
    then show ?thesis using look False lookup_Node [OF m(1,3), of ct sons S] by (simp del: lookup.simps)
  next
    case True
    have c: "\<not> (2 * m \<noteq> 0 \<and> NODE_PREFIX header \<noteq> drop_bit (32 - 2 * m) S)" "\<not> 2 * n < 2 * m + 2"
      using match True m(3) by auto
    have dn: "digits n S = header_digits header @ ?ix # digits ?n (rest m S)"
      using digits_below [OF m(3), of S] True by simp
    let ?i = "triev2_offset ct ?ix"
    show ?thesis
    proof (cases "kid ct sons ?ix")
      case None
      have o: "?i = 0" using kid_offset(1) [OF m(4) key_digit_less] None by blast
      have "nonexistent_loop ?q S (2 * n) up = Some None"
        unfolding nonexistent_loop.simps Let_def m(2) if_not_P [OF c(1)] if_not_P [OF c(2)] if_P [OF o] ..
      moreover have "lookup p K = NULL_WORD" unfolding look dn lookup_at [OF m(1)] None by simp
      ultimately show ?thesis by simp
    next
      case (Some s)
      have s: "s \<in> set sons" "trie_ok ?n s" using kid_in [OF Some] m(5) by auto
      have o: "\<not> ?i = 0" "son_at sons ?i = Some s"
        using kid_offset(1) [OF m(4) key_digit_less [of ?S]] Some by (auto simp: kid_def)
      have e: "2 * n - 2 * m - 2 = 2 * ?n" using m(3) by simp
      have loop: "nonexistent_loop ?q S (2 * n) up =
         (if 2 * ?n = 0 then Some (Some (?q, up)) else nonexistent_loop s (rest m S) (2 * ?n) (Some ?q))"
        unfolding nonexistent_loop.simps Let_def m(2) if_not_P [OF c(1)] if_not_P [OF c(2)] if_not_P [OF o(1)] o(2)
          bind.bind_lunit e ..
      show ?thesis
      proof (cases "?n = 0")
        case True
        then have "n = Suc m" using m(3) by simp
        moreover have "K = take (N - n) K @ header_digits header @ [?ix]" using KA dn True by simp
        ultimately have "leaf_ok N p K (?q, up)"
          using m(1) Node.prems(1,3) unfolding leaf_ok_def prod.case by blast
        then show ?thesis unfolding loop using True by simp
      next
        case False
        have KB: "K = (?A @ header_digits header @ [?ix]) @ digits ?n (rest m S)" using KA dn by simp
        have "length ?A = N - n" using K by simp
        then have l: "length (?A @ header_digits header @ [?ix]) = N - ?n" using hd(4) m(3) sub(1) by simp
        have tk: "take (N - ?n) K = ?A @ header_digits header @ [?ix]" using KB l by (metis append_eq_conv_conj)
        have dp: "drop (N - ?n) K = digits ?n (rest m S)" using KB l by (metis append_eq_conv_conj)
        have s_sub: "sub_trie N p K ?n s"
          using s(2) sub(1,3) lookup_at [OF m(1), of ct sons ?ix] Some unfolding sub_trie_def tk by simp
        have "father_ok N p K ?n (Some ?q)" unfolding father_ok_def option.case using m(1,3) Node.prems(1) tk by blast
        then show ?thesis unfolding loop using Node.IH [OF s(1) s_sub _ _ dp] False by simp
      qed
    qed
  qed
qed

lemma full_cell: "length sons = trie_cell_size CELL_trie1234 - 1 \<Longrightarrow> c < 4 \<Longrightarrow> kid CELL_trie1234 sons c \<noteq> None"
  unfolding less_4 by (simp, drule four_sons, elim exE disjE; simp add: kid_def)

lemma first_nonexistent:
  assumes "length sons = trie_cell_size ct - 1" "ct \<noteq> CELL_trie1234"
  shows "\<exists>f < 4. first_nonexistent_key ct = of_nat f \<and> kid ct sons f = None"
  using assms
  by (cases ct; simp)
    (drule four_sons, (elim exE disjE; simp add: first_nonexistent_key_def kid_def less_4; fastforce))+

lemma word_add_unat:
  assumes "unat (key :: word_t) + x < 2 ^ 32"
  shows "unat (key + of_nat x) = unat key + x"
  using assms by (simp add: unat_word_ariths unat_of_nat take_bit_nat_eq_self)

text \<open>The digits of the keys of the range.\<close>

lemma range_digits:
  assumes n: "2 \<le> n" "n \<le> 16" and key: "unat key < 4 ^ n" "key mod 16 = 0" and ji: "j < 4" "i < 4"
  shows "\<exists>B. length B = n - 2 \<and> prefix_digits n key = B @ [0, 0] \<and> prefix_digits n (key + 4 * of_nat j + of_nat i) = B @ [j, i] \<and>
    unat (key + 4 * of_nat j + of_nat i) = unat key + 4 * j + i \<and> unat (key + 4 * of_nat j + of_nat i) < 4 ^ n"
proof -
  note k = key_digits_ok [OF n(2) key(1)]
  let ?D = "prefix_digits n key" and ?B = "take (n - 2) (prefix_digits n key)"
  have B4: "all4 ?B" using k(2) by (auto simp: all4_def dest: in_set_takeD)
  have D: "?D = ?B @ drop (n - 2) ?D" by simp
  obtain a b where ab: "drop (n - 2) ?D = [a, b]"
    using four_sons(3) [of "drop (n - 2) ?D"] k(3) n(1)
    by (metis One_nat_def Suc_1 diff_diff_cancel length_0_conv length_Suc_conv length_drop)
  have l4: "a < 4" "b < 4" using k(2) D ab by (metis all4_simps(2,3))+
  have lB: "length ?B = n - 2" using k(3) by simp
  have v: "unat key = val4 ?B * 16 + 4 * a + b" using k(1) arg_cong [OF D, of val4] ab by (simp add: val4_append)
  have "unat (key mod 16) = unat key mod 16" by (simp add: unat_mod_distrib)
  then have "unat key mod 16 = 0" using key(2) by simp
  then have "(4 * a + b) mod 16 = 0" using v by (metis add.assoc mod_mult_self3)
  then have z: "a = 0" "b = 0" using l4 by presburger+
  have "(4 :: nat) ^ (n - 2 + 2) = 16 * 4 ^ (n - 2)" unfolding power_add by simp
  then have "(4 :: nat) ^ n = 16 * 4 ^ (n - 2)" using le_add_diff_inverse2 [OF n(1)] by metis
  then have "val4 (?B @ [j, i]) < 4 ^ n" using val4_less [of "?B @ [j, i]"] B4 ji lB n(1) by (auto simp: all4_def)
  then have lt: "unat key + (4 * j + i) < 4 ^ n" using v z by (simp add: val4_append)
  also have "(4 :: nat) ^ n \<le> 4 ^ 16" using n(2) by (intro power_increasing) auto
  finally have u: "unat (key + of_nat (4 * j + i)) = unat key + (4 * j + i)" by (intro word_add_unat) simp
  have e: "key + 4 * of_nat j + of_nat i = key + of_nat (4 * j + i)" by simp
  have "prefix_digits n (key + of_nat (4 * j + i)) = ?B @ [j, i]"
    using B4 ji lB n u v z by (intro prefix_digitsI) (auto simp: all4_def val4_append)
  then show ?thesis unfolding e using lB D ab z u lt by (intro exI [of _ ?B]) simp
qed

text \<open>\<open>unused N root key k\<close>: \<open>k\<close> is one of the 16 keys from \<open>key\<close> on, and the trie does not have it.\<close>

definition unused :: "nat \<Rightarrow> trie option \<Rightarrow> word_t \<Rightarrow> word_t \<Rightarrow> bool" where
  "unused n root key k \<longleftrightarrow> unat key \<le> unat k \<and> unat k \<le> unat key + 15 \<and> unat k < 4 ^ n \<and> trie_lookup n root k = NULL_WORD"

lemma unusedI:
  assumes n: "2 \<le> n" "n \<le> 16" and key: "unat key < 4 ^ n" "key mod 16 = 0" and ji: "j < 4" "i < 4"
    and l: "\<And>B. prefix_digits n key = B @ [0, 0] \<Longrightarrow> lookup p (B @ [j, i]) = NULL_WORD"
  shows "unused n (Some p) key (key + 4 * of_nat j + of_nat i)"
  using range_digits [OF n key ji] l ji unfolding unused_def trie_lookup_def by fastforce

definition full_sibling :: "trie_cell \<Rightarrow> trie list \<Rightarrow> nat \<Rightarrow> bool" where
  "full_sibling ct sons j \<longleftrightarrow> (\<forall>i < 4. root_lookup (kid ct sons j) [i] \<noteq> NULL_WORD)"

text \<open>The nodes of the last level have no prefix and hold data.\<close>

lemma last_level:
  assumes "trie_ok 1 q"
  shows "\<exists>ct header sons. q = Node ct header sons \<and> header_ok 0 header \<and> PREFIX_LENGTH header = 0 \<and>
    length sons = trie_cell_size ct - 1 \<and> (\<forall>c. lookup q [c] = root_lookup (kid ct sons c) []) \<and>
    (\<forall>c s. kid ct sons c = Some s \<longrightarrow> lookup s [] \<noteq> NULL_WORD)"
proof -
  obtain ct header sons where q: "q = Node ct header sons" using assms by (cases q) auto
  from trie_ok_Node [OF assms [unfolded q]] obtain m where m: "header_ok m header" "PREFIX_LENGTH header = 2 * m" "m < 1"
    "length sons = trie_cell_size ct - 1" "\<And>s. s \<in> set sons \<Longrightarrow> trie_ok (1 - m - 1) s" by metis
  have "header_digits header = []" using header_okD(4) [OF m(1)] m(3) by simp
  moreover have "lookup s [] \<noteq> NULL_WORD" if "kid ct sons c = Some s" for c s
  proof -
    have "trie_ok 0 s" using m(5) kid_in [OF that] m(3) by fastforce
    then show ?thesis by (cases s) auto
  qed
  ultimately show ?thesis using q m lookup_at [OF m(1), of ct sons _ "[]"] by auto
qed

lemma sibling_key_ok:
  assumes n: "2 \<le> n" "n \<le> 16" and key: "unat key < 4 ^ n" "key mod 16 = 0" and j: "j < 4"
    and up: "length sons = trie_cell_size ct - 1" "\<And>s. s \<in> set sons \<Longrightarrow> trie_ok 1 s"
    and l: "\<And>B c i. prefix_digits n key = B @ [0, 0] \<Longrightarrow> lookup p (B @ [j, i]) = root_lookup (kid ct sons j) [i]"
  shows "\<exists>r. sibling_key ct sons key j = Some r \<and>
    (case r of None \<Rightarrow> full_sibling ct sons j | Some k \<Rightarrow> unused n (Some p) key k)"
proof (cases "kid ct sons j")
  case None
  have "triev2_offset ct j = 0" using kid_offset(1) [OF up(1) j] None by blast
  moreover have "unused n (Some p) key (key + 4 * of_nat j + of_nat 0)"
    by (rule unusedI [OF n key j]) (use l None in simp_all)
  ultimately show ?thesis by (simp add: sibling_key_def)
next
  case (Some q)
  have o: "triev2_offset ct j \<noteq> 0" "son_at sons (triev2_offset ct j) = Some q"
    using kid_offset(1) [OF up(1) j] Some by (auto simp: kid_def)
  from last_level [OF up(2) [OF kid_in [OF Some]]] obtain ct' header' sons' where q: "q = Node ct' header' sons'"
      "PREFIX_LENGTH header' = 0" "length sons' = trie_cell_size ct' - 1" "\<And>c. lookup q [c] = root_lookup (kid ct' sons' c) []"
      "\<And>c s. kid ct' sons' c = Some s \<Longrightarrow> lookup s [] \<noteq> NULL_WORD" by blast
  show ?thesis
  proof (cases "ct' = CELL_trie1234")
    case True
    have "full_sibling ct sons j" unfolding full_sibling_def Some root_lookup_simps q(4)
      using full_cell [of sons'] q(3,5) True by fastforce
    then show ?thesis using o q(1,2) True by (simp add: sibling_key_def)
  next
    case False
    obtain f where f: "f < 4" "first_nonexistent_key ct' = of_nat f" "kid ct' sons' f = None"
      using first_nonexistent [OF q(3) False] by blast
    have "unused n (Some p) key (key + 4 * of_nat j + of_nat f)"
      by (rule unusedI [OF n key j f(1)]) (use l Some q(4) [of f] f(3) in simp)
    then show ?thesis using o q(1,2) False f(2) by (simp add: sibling_key_def)
  qed
qed

lemma all_used:
  assumes n: "2 \<le> n" "n \<le> 16" and key: "unat key < 4 ^ n" "key mod 16 = 0" and D: "prefix_digits n key = B @ [0, 0]"
    and l: "\<And>j i. j < 4 \<Longrightarrow> i < 4 \<Longrightarrow> lookup p (B @ [j, i]) \<noteq> NULL_WORD" and x: "x < 16"
  shows "trie_lookup n (Some p) (key + of_nat x) \<noteq> NULL_WORD"
proof -
  have ji: "x div 4 < 4" "x mod 4 < 4" using x by auto
  obtain B' where B': "prefix_digits n key = B' @ [0, 0]"
      "prefix_digits n (key + 4 * of_nat (x div 4) + of_nat (x mod 4)) = B' @ [x div 4, x mod 4]"
    using range_digits [OF n key ji] by blast
  have "key + 4 * of_nat (x div 4) + of_nat (x mod 4) = key + of_nat (4 * (x div 4) + x mod 4)"
    by (simp only: of_nat_add of_nat_mult of_nat_numeral add.assoc)
  moreover have "4 * (x div 4) + x mod 4 = x" by simp
  ultimately have "key + 4 * of_nat (x div 4) + of_nat (x mod 4) = key + of_nat x" by (simp only:)
  then have "prefix_digits n (key + of_nat x) = B @ [x div 4, x mod 4]" using B' D by (simp only: append_same_eq)
  then show ?thesis using l [OF ji] by (simp add: trie_lookup_def)
qed

lemma siblings_ok:
  assumes n: "2 \<le> n" "n \<le> 16" and key: "unat key < 4 ^ n" "key mod 16 = 0" and D: "prefix_digits n key = B @ [0, 0]"
    and up: "length sons = trie_cell_size ct - 1" "\<And>s. s \<in> set sons \<Longrightarrow> trie_ok 1 s"
    and l: "\<And>j i. lookup p (B @ [j, i]) = root_lookup (kid ct sons j) [i]" and full: "full_sibling ct sons 0"
  shows "\<exists>k. do {
      r1 \<leftarrow> sibling_key ct sons key 1;
      (case r1 of Some k \<Rightarrow> Some k | None \<Rightarrow> do {
        r2 \<leftarrow> sibling_key ct sons key 2;
        (case r2 of Some k \<Rightarrow> Some k | None \<Rightarrow> do {
          r3 \<leftarrow> sibling_key ct sons key 3;
          Some (case r3 of Some k \<Rightarrow> k | None \<Rightarrow> 0xFFFFFFFF) }) }) } = Some k \<and>
    (unused n (Some p) key k \<or> k = 0xFFFFFFFF \<and> (\<forall>x < 16. trie_lookup n (Some p) (key + of_nat x) \<noteq> NULL_WORD))"
proof -
  have s: "\<exists>r. sibling_key ct sons key j = Some r \<and>
    (case r of None \<Rightarrow> full_sibling ct sons j | Some k \<Rightarrow> unused n (Some p) key k)" if "j < 4" for j
    by (rule sibling_key_ok [OF n key that up]) (use D l in auto)
  have all: "\<forall>x < 16. trie_lookup n (Some p) (key + of_nat x) \<noteq> NULL_WORD"
    if "full_sibling ct sons 1" "full_sibling ct sons 2" "full_sibling ct sons 3"
  proof -
    have "full_sibling ct sons j" if "j < 4" for j using that full \<open>full_sibling ct sons 1\<close> \<open>full_sibling ct sons 2\<close>
      \<open>full_sibling ct sons 3\<close> unfolding less_4 by auto
    then show ?thesis using all_used [OF n key D] l unfolding full_sibling_def by metis
  qed
  show ?thesis using s [of 1] s [of 2] s [of 3] all by (force split: option.splits)
qed

lemma triev2_find_nonexistent_key_ok:
  assumes root: "root_ok n root" and n: "2 \<le> n" "n \<le> 16" and key: "unat key < 4 ^ n" "key mod 16 = 0"
  shows "\<exists>k. triev2_find_nonexistent_key root key (2 * n) = Some k \<and>
    (unused n root key k \<or> k = 0xFFFFFFFF \<and> (\<forall>x < 16. trie_lookup n root (key + of_nat x) \<noteq> NULL_WORD))"
proof (cases root)
  case None
  then show ?thesis using key by (simp add: triev2_find_nonexistent_key_def unused_def trie_lookup_def)
next
  case (Some p)
  let ?K = "prefix_digits n key"
  have p: "trie_ok n p" using root Some by simp
  have K: "length ?K = n" by simp
  obtain B where B: "length B = n - 2" "?K = B @ [0, 0]"
    using range_digits [OF n key, of 0 0] by auto
  have "sub_trie n p ?K n p" using p by (simp add: sub_trie_def)
  from nonexistent_loop_ok [OF K this, of None "push_bit (32 - 2 * n) key"] n(1)
  obtain r where r: "nonexistent_loop p (push_bit (32 - 2 * n) key) (2 * n) None = Some r"
      "case r of None \<Rightarrow> lookup p ?K = NULL_WORD | Some x \<Rightarrow> leaf_ok n p ?K x"
    by (auto simp: father_ok_def prefix_digits_def)
  have c: "\<not> key mod 16 \<noteq> 0" "\<not> 2 * n = 0" using key n by auto
  note def = triev2_find_nonexistent_key_def [of root key "2 * n", unfolded Some option.case if_not_P [OF c(1)]
      if_not_P [OF c(2)] r(1) bind.bind_lunit]
  show ?thesis
  proof (cases r)
    case None
    then have "unused n (Some p) key key" using r(2) key by (simp add: unused_def trie_lookup_def)
    then show ?thesis unfolding Some def None by simp
  next
    case r': (Some x)
    then obtain ct header sons m c up where x: "x = (Node ct header sons, up)" and m: "header_ok m header"
        and leaf: "sub_trie n p ?K (Suc m) (Node ct header sons)" and up: "father_ok n p ?K (Suc m) up"
        and KA: "?K = take (n - Suc m) ?K @ header_digits header @ [c]"
      using r(2) by (auto simp: leaf_ok_def)
    let ?A = "take (n - Suc m) ?K"
    have AB: "?A @ header_digits header = B @ [0]" using KA B(2) by (metis append.assoc append_Cons append_Nil butlast_snoc)
    have sons: "length sons = trie_cell_size ct - 1" "\<And>s. s \<in> set sons \<Longrightarrow> trie_ok 0 s"
      using leaf unfolding sub_trie_def trie_ok_Node_iff [OF m] by auto
    have look: "lookup p (B @ [0, i]) = root_lookup (kid ct sons i) []" for i
    proof -
      have "lookup p (?A @ header_digits header @ i # []) = root_lookup (kid ct sons i) []"
        using leaf lookup_at [OF m] unfolding sub_trie_def by simp
      moreover have "?A @ header_digits header @ i # [] = B @ [0, i]"
        using arg_cong [OF AB, of "\<lambda>xs. xs @ [i]"] by simp
      ultimately show ?thesis by simp
    qed
    show ?thesis
    proof (cases "ct = CELL_trie1234")
      case False
      obtain f where f: "f < 4" "first_nonexistent_key ct = of_nat f" "kid ct sons f = None"
        using first_nonexistent [OF sons(1) False] by blast
      have "unused n (Some p) key (key + 4 * of_nat 0 + of_nat f)"
        by (rule unusedI [OF n key _ f(1)]) (use B look f(3) in auto)
      then show ?thesis unfolding Some def r' x using False f(2) by simp
    next
      case full: True
      show ?thesis
      proof (cases m)
        case (Suc m')
        obtain h' where h': "header_digits header = h' @ [0]" "B = ?A @ h'"
          using AB header_okD(4) [OF m] Suc by (cases "header_digits header" rule: rev_cases) auto
        have "lookup p (?A @ h' @ [1, 0]) = lookup (Node ct header sons) (h' @ [1, 0])"
          using leaf unfolding sub_trie_def by blast
        also have "\<dots> = NULL_WORD" by (simp add: Let_def h'(1))
        finally have "lookup p (?A @ h' @ [1, 0]) = NULL_WORD" .
        then have BB: "lookup p (B @ [1, 0]) = NULL_WORD" using h'(2) by (metis append.assoc)
        have "unused n (Some p) key (key + 4 * of_nat 1 + of_nat 0)"
          by (rule unusedI [OF n key]) (use B(2) BB in auto)
        moreover have "PREFIX_LENGTH header \<noteq> 0" using header_okD(1) [OF m] Suc by simp
        ultimately show ?thesis unfolding Some def r' x using full by simp
      next
        case 0
        have hd0: "header_digits header = []" using header_okD(4) [OF m] 0 by simp
        have pl: "PREFIX_LENGTH header = 0" using header_okD(1) [OF m] 0 by simp
        obtain uct uh usons mu n0 c' where u: "up = Some (Node uct uh usons)" "header_ok mu uh" "mu < n0" "1 = n0 - mu - 1"
            "sub_trie n p ?K n0 (Node uct uh usons)" "?A = take (n - n0) ?K @ header_digits uh @ [c']"
          using up 0 n(1) by (cases up) (auto simp: father_ok_def)
        have Bu: "take (n - n0) ?K @ header_digits uh = B"
          using AB hd0 u(6) by (metis append.assoc append_Nil2 butlast_snoc)
        have us: "length usons = trie_cell_size uct - 1" "\<And>s. s \<in> set usons \<Longrightarrow> trie_ok 1 s"
          using u(5) unfolding sub_trie_def trie_ok_Node_iff [OF u(2)] u(4) [symmetric] by auto
        have l: "lookup p (B @ [j, i]) = root_lookup (kid uct usons j) [i]" for j i
          using u(5) lookup_at [OF u(2), of uct usons j "[i]"] unfolding sub_trie_def Bu [symmetric] by simp
        have "lookup s [] \<noteq> NULL_WORD" if "kid ct sons i = Some s" for i s
          using sons(2) [OF kid_in [OF that]] by (cases s) auto
        then have "full_sibling uct usons 0"
          unfolding full_sibling_def l [symmetric] look using full_cell [of sons] sons(1) full by fastforce
        from siblings_ok [OF n key B(2) us l this]
        show ?thesis unfolding Some def r' x u(1) using full pl by simp
      qed
    qed
  qed
qed

section \<open>The assertions\<close>

text \<open>\<^verbatim>\<open>make_assertions\<close> has the same lines for each of the cell types; the word that it computes from the
  prefixes is not used.\<close>

fun trie_make_assertions :: "trie \<Rightarrow> int \<Rightarrow> bool" where
  "trie_make_assertions (Data d) key_length \<longleftrightarrow> even key_length \<and> \<not> key_length > 0"
| "trie_make_assertions (Node ct header sons) key_length \<longleftrightarrow> even key_length \<and>
    (key_length > 0 \<longrightarrow>
      (let prefix_length = PREFIX_LENGTH header in
        (prefix_length > 0 \<or> header = 0) \<and> length sons = trie_cell_size ct - 1 \<and>
        (\<forall>s \<in> set sons. trie_make_assertions s (key_length - (int prefix_length + 2)))))"

definition triev2_make_assertions :: "trie option \<Rightarrow> nat \<Rightarrow> bool" where
  "triev2_make_assertions root key_length =
    (case root of None \<Rightarrow> True | Some p \<Rightarrow> trie_make_assertions p (int key_length))"

lemma trie_make_assertions_ok: "trie_ok n p \<Longrightarrow> trie_make_assertions p (int (2 * n))"
proof (induction p arbitrary: n)
  case (Data d)
  then show ?case by simp
next
  case (Node ct header sons)
  from trie_ok_Node [OF Node.prems] obtain m where m: "header_ok m header" "PREFIX_LENGTH header = 2 * m" "m < n"
    "length sons = trie_cell_size ct - 1" "\<And>s. s \<in> set sons \<Longrightarrow> trie_ok (n - m - 1) s" by metis
  have "header = 0" if "m = 0"
    using header_okD(2,6) [OF m(1)] that by (simp add: make_header_def unat_eq_zero)
  moreover have e: "int (2 * n) - (int (2 * m) + 2) = int (2 * (n - m - 1))" using m(3) by simp
  ultimately show ?case unfolding trie_make_assertions.simps Let_def m(2) e using Node.IH m(4,5) by auto
qed

lemma triev2_make_assertions_ok: "root_ok n root \<Longrightarrow> triev2_make_assertions root (2 * n)"
  using trie_make_assertions_ok by (cases root) (auto simp: triev2_make_assertions_def)

end
