(* ===== verification/Triev2_Store.thy ===== *)
theory Triev2_Store
  imports Triev2_Gaps
begin

text \<open>
  The trie of \<^verbatim>\<open>triev2.c\<close> as a provider of the map contract, for keys of \<open>n\<close> digits, and its properties.  Two
  words are the same key when they agree in their \<open>2 * n\<close> lowest bits.  The data of an insertion must
  not be \<open>NULL_WORD\<close>, as the comment of \<^verbatim>\<open>triev2_insert\<close> demands.
\<close>

section \<open>The contract\<close>

lemma same_key:
  assumes "n \<le> 16"
  shows "prefix_digits n a = prefix_digits n b \<longleftrightarrow> take_bit (2 * n) a = take_bit (2 * n) b"
proof -
  have e: "drop_bit (32 - 2 * n) (push_bit (32 - 2 * n) w) = take_bit (2 * n) w" for w :: word_t
    using assms by (intro bit_word_eqI) (auto simp: bit_simps)
  show ?thesis unfolding prefix_digits_def digits_inject [OF assms] e ..
qed

lemma new_data_None [simp]: "new_data None data old = data"
  by (simp add: new_data_def updated_def)

locale key_digits =
  fixes n :: nat
  assumes n_pos: "0 < n" and n_max: "n \<le> 16"

sublocale key_digits \<subseteq> trie: fresh_map "\<lambda>k' k. take_bit (2 * n) k' = take_bit (2 * n) k" "None :: trie option"
  "trie_lookup n" "\<lambda>t k d. triev2_insert t k (2 * n) None d" "\<lambda>t k. triev2_delete t k (2 * n) None NULL_WORD" "root_ok n"
  "\<lambda>_. 0" "\<lambda>_. {NULL_WORD}" "\<lambda>_. True" TRIEV2_MAX_ALLOCATION TRIEV2_MAX_ALLOCATION
proof
  show "\<exists>t' ap'. triev2_insert t k (2 * n) None d ap = Some (t', ap') \<and> root_ok n t' \<and> 0 \<le> Suc 0 \<and>
      (\<forall>k'. trie_lookup n t' k' = (if take_bit (2 * n) k' = take_bit (2 * n) k then d else trie_lookup n t k')) \<and>
      {NULL_WORD} \<subseteq> insert d {NULL_WORD} \<and> ap \<le> ap' \<and> ap' \<le> ap + TRIEV2_MAX_ALLOCATION"
    if "root_ok n t" "d \<notin> {NULL_WORD}" for t k d ap
    using triev2_insert_ok [OF that(1) n_pos n_max, of d None k ap] that(2)
    unfolding new_data_None by (simp add: same_key [OF n_max] updated_def)
  show "\<exists>t' ap'. triev2_delete t k (2 * n) None NULL_WORD ap = Some (t', ap') \<and> root_ok n t' \<and> 0 \<le> (0 :: nat) \<and>
      (\<forall>k'. trie_lookup n t' k' = (if take_bit (2 * n) k' = take_bit (2 * n) k then NULL_WORD else trie_lookup n t k')) \<and>
      {NULL_WORD} \<subseteq> {NULL_WORD} \<and> ap \<le> ap' \<and> ap' \<le> ap + TRIEV2_MAX_ALLOCATION"
    if "root_ok n t" for t k ap
    using triev2_delete_ok [OF that n_pos n_max refl, of k None NULL_WORD ap]
    unfolding updated_def option.case if_cancel by (simp add: same_key [OF n_max])
qed (simp_all add: trie_lookup_def)

context key_digits
begin

lemma trie_run:
  assumes "NULL_WORD \<notin> puts ops"
  shows "\<exists>t ap'. map_run (\<lambda>t k d. triev2_insert t k (2 * n) None d) (\<lambda>t k. triev2_delete t k (2 * n) None NULL_WORD)
      ops None ap = Some (t, ap') \<and> root_ok n t \<and>
    (\<forall>k. triev2_find t k (2 * n) =
      Some (map_spec (\<lambda>k' k. take_bit (2 * n) k' = take_bit (2 * n) k) ops (\<lambda>_. NULL_WORD) k)) \<and>
    ap' \<le> ap + length ops * TRIEV2_MAX_ALLOCATION"
  using trie.run_without [of ops "{NULL_WORD}" ap] assms triev2_find_ok(1) [OF _ n_pos] by fastforce

end

text \<open>Keys of full words, as the tests use them.\<close>

interpretation full_keys: key_digits 16
  by unfold_locales simp_all

section \<open>Properties\<close>

text \<open>C21. Every sequence of insertions and deletions on the trie behaves as a map from the lowest
  \<open>2 * n\<close> bits of a key to data, from the empty trie on, passes the assertions of the tests, and allocates
  at most 85 words per operation.\<close>

theorem triev2_run_correct:
  assumes "0 < n" and "n \<le> 16" and "NULL_WORD \<notin> puts ops"
  shows "\<exists>t ap'. map_run (\<lambda>t k d. triev2_insert t k (2 * n) None d) (\<lambda>t k. triev2_delete t k (2 * n) None NULL_WORD)
      ops None ap = Some (t, ap') \<and> triev2_make_assertions t (2 * n) \<and>
    (\<forall>k. triev2_find t k (2 * n) =
      Some (map_spec (\<lambda>k' k. take_bit (2 * n) k' = take_bit (2 * n) k) ops (\<lambda>_. NULL_WORD) k)) \<and>
    ap' \<le> ap + length ops * TRIEV2_MAX_ALLOCATION"
  using key_digits.trie_run [OF key_digits.intro [OF assms(1,2)] assms(3), of ap] triev2_make_assertions_ok by blast

theorem triev2_run_correct_witness:
  "\<exists>t ap'. map_run (\<lambda>t k d. triev2_insert t k (2 * 4) None d) (\<lambda>t k. triev2_delete t k (2 * 4) None NULL_WORD)
      [Put 0x1B 7, Put 0x1C 8, Put 0xE4 9, Remove 0x1C, Put 0x11B 10] None 0 = Some (t, ap') \<and>
    triev2_make_assertions t (2 * 4) \<and> triev2_find t 0x1B (2 * 4) = Some 10 \<and> triev2_find t 0x1C (2 * 4) = Some NULL_WORD \<and>
    triev2_find t 0xE4 (2 * 4) = Some 9"
proof -
  have m: "take_bit 8 (0x11B :: word_t) = 0x1B" "take_bit 8 (0xE4 :: word_t) = 0xE4" "take_bit 8 (0x1C :: word_t) = 0x1C"
    "take_bit 8 (0x1B :: word_t) = 0x1B" by (simp_all add: take_bit_eq_mod)
  show ?thesis
    using triev2_run_correct [of 4 "[Put 0x1B 7, Put 0x1C 8, Put 0xE4 9, Remove 0x1C, Put 0x11B 10]" 0] by (auto simp: m)
qed

text \<open>C22. Insertion and deletion with an update function: the function gets the old data of the key and the
  data of the call, a new key gets the data, a missing key is not deleted; the other keys keep
  their data, the invariant holds, and at most 85 words are allocated.\<close>

theorem triev2_update_correct:
  assumes "root_ok n root" and "0 < n" "n \<le> 16" and "data \<noteq> NULL_WORD" "\<And>old. f old data \<noteq> NULL_WORD"
  shows "\<exists>t1 ap1 t2 ap2.
    triev2_insert root key (2 * n) (Some f) data ap = Some (t1, ap1) \<and> root_ok n t1 \<and> ap1 \<le> ap + TRIEV2_MAX_ALLOCATION \<and>
    triev2_delete root key (2 * n) (Some g) data' ap = Some (t2, ap2) \<and> root_ok n t2 \<and> ap2 \<le> ap + TRIEV2_MAX_ALLOCATION \<and>
    (\<forall>k. triev2_find t1 k (2 * n) =
      (if take_bit (2 * n) k = take_bit (2 * n) key
       then map_option (\<lambda>old. if old = NULL_WORD then data else f old data) (triev2_find root key (2 * n))
       else triev2_find root k (2 * n))) \<and>
    (\<forall>k. triev2_find t2 k (2 * n) =
      (if take_bit (2 * n) k = take_bit (2 * n) key
       then map_option (\<lambda>old. if old = NULL_WORD then NULL_WORD else g old data') (triev2_find root key (2 * n))
       else triev2_find root k (2 * n)))"
proof -
  have u: "updated (Some f) old data \<noteq> NULL_WORD" for old using assms(5) by (simp add: updated_def)
  obtain t1 ap1 where 1: "triev2_insert root key (2 * n) (Some f) data ap = Some (t1, ap1)" "root_ok n t1"
      "ap1 \<le> ap + TRIEV2_MAX_ALLOCATION"
      "\<And>k. trie_lookup n t1 k = (if take_bit (2 * n) k = take_bit (2 * n) key
         then new_data (Some f) data (trie_lookup n root key) else trie_lookup n root k)"
    using triev2_insert_ok [OF assms(1-4) u] unfolding same_key [OF assms(3)] by blast
  obtain t2 ap2 where 2: "triev2_delete root key (2 * n) (Some g) data' ap = Some (t2, ap2)" "root_ok n t2"
      "ap2 \<le> ap + TRIEV2_MAX_ALLOCATION"
      "\<And>k. trie_lookup n t2 k = (if take_bit (2 * n) k = take_bit (2 * n) key
         then if trie_lookup n root key = NULL_WORD then NULL_WORD else updated (Some g) (trie_lookup n root key) data'
         else trie_lookup n root k)"
    using triev2_delete_ok [OF assms(1-3) refl, of key "Some g" data' ap] unfolding same_key [OF assms(3)] by blast
  note find = triev2_find_ok(1) [OF _ assms(2)]
  show ?thesis
    using 1 2 by (simp add: find [OF 1(2)] find [OF 2(2)] find [OF assms(1)] new_data_def updated_def)
qed

theorem triev2_update_correct_witness:
  "\<exists>t1 ap1 t2 ap2.
    triev2_insert (Some (Node CELL_trie3 0 [Data 7])) 2 2 (Some (\<lambda>old data. old OR data)) 8 0 = Some (t1, ap1) \<and>
    triev2_delete (Some (Node CELL_trie3 0 [Data 7])) 2 2 (Some (\<lambda>old data. old AND data)) 0 0 = Some (t2, ap2) \<and>
    triev2_find t1 2 2 = Some 15 \<and> triev2_find t2 2 2 = Some NULL_WORD"
proof -
  have ok: "root_ok 1 (Some (Node CELL_trie3 0 [Data 7]))" by (simp add: PREFIX_LENGTH_def header_ok_0)
  have nz: "old OR 8 \<noteq> (0 :: word_t)" for old
  proof
    assume "old OR 8 = 0"
    then have "bit (old OR 8) 3 = bit (0 :: word_t) 3" by simp
    then show False by (simp add: bit_simps)
  qed
  have "triev2_find (Some (Node CELL_trie3 0 [Data 7])) 2 2 = Some 7"
    by (simp add: triev2_find_def PREFIX_LENGTH_def key_digit_def)
  then show ?thesis
    using triev2_update_correct [where f = "\<lambda>old data. old OR data" and data = 8 and key = 2 and ap = 0 and
        g = "\<lambda>old data. old AND data" and data' = 0, OF ok _ _ _ nz] by auto
qed

text \<open>C23. \<open>triev2_replace\<close> and \<open>triev2_find_quick\<close>, which may be called only for a key that exists, then do what
  \<open>triev2_insert\<close> and \<open>triev2_find\<close> do, to the same allocation point; and \<open>triev2_contains\<close> tells when.\<close>

theorem triev2_quick_variants_agree:
  assumes "root_ok n root" and "0 < n" "n \<le> 16" and "triev2_contains root key (2 * n) = Some True"
  shows "triev2_replace root key (2 * n) f data ap = triev2_insert root key (2 * n) f data ap \<and>
    triev2_find_quick root key (2 * n) = triev2_find root key (2 * n)"
proof -
  have "trie_lookup n root key \<noteq> NULL_WORD" using triev2_find_ok(2) [OF assms(1,2)] assms(4) by simp
  then show ?thesis using triev2_replace_eq [OF assms(1-3)] triev2_find_ok(1,3) [OF assms(1,2)] by simp
qed

theorem triev2_quick_variants_agree_witness:
  "triev2_replace (Some (Node CELL_trie3 0 [Data 7])) 2 (2 * 1) None 9 0 =
     triev2_insert (Some (Node CELL_trie3 0 [Data 7])) 2 (2 * 1) None 9 0 \<and>
   triev2_find_quick (Some (Node CELL_trie3 0 [Data 7])) 2 (2 * 1) = triev2_find (Some (Node CELL_trie3 0 [Data 7])) 2 (2 * 1)"
proof (rule triev2_quick_variants_agree)
  show "root_ok 1 (Some (Node CELL_trie3 0 [Data 7]))" by (simp add: PREFIX_LENGTH_def header_ok_0)
  show "triev2_contains (Some (Node CELL_trie3 0 [Data 7])) 2 (2 * 1) = Some True"
    by (simp add: triev2_contains_def PREFIX_LENGTH_def key_digit_def)
qed simp_all

text \<open>C24. \<open>triev2_find_at_most\<close> gives the greatest key that exists and is at most the given one, with its data;
  or \<open>NULL_WORD\<close> when there is none.\<close>

theorem triev2_find_at_most_correct:
  assumes "root_ok n root" and "0 < n" "n \<le> 16" and "unat key < 4 ^ n"
  shows "\<exists>d key1. triev2_find_at_most root key (2 * n) = Some (d, key1) \<and>
    (if \<exists>k \<le> key. triev2_contains root k (2 * n) = Some True
     then triev2_find root key1 (2 * n) = Some d \<and> d \<noteq> NULL_WORD \<and> key1 \<le> key \<and>
       (\<forall>k \<le> key. triev2_contains root k (2 * n) = Some True \<longrightarrow> k \<le> key1)
     else d = NULL_WORD)"
  using triev2_find_at_most_ok [OF assms] unfolding triev2_find_ok(1,2) [OF assms(1,2)] option.inject eq_True
  by (metis (full_types))

theorem triev2_find_at_most_correct_witness:
  "\<exists>d key1. triev2_find_at_most (Some (Node CELL_trie3 0 [Data 7])) 3 (2 * 1) = Some (d, key1) \<and>
    (if \<exists>k \<le> 3. triev2_contains (Some (Node CELL_trie3 0 [Data 7])) k (2 * 1) = Some True
     then triev2_find (Some (Node CELL_trie3 0 [Data 7])) key1 (2 * 1) = Some d \<and> d \<noteq> NULL_WORD \<and> key1 \<le> 3 \<and>
       (\<forall>k \<le> 3. triev2_contains (Some (Node CELL_trie3 0 [Data 7])) k (2 * 1) = Some True \<longrightarrow> k \<le> key1)
     else d = NULL_WORD)"
proof (rule triev2_find_at_most_correct)
  show "root_ok 1 (Some (Node CELL_trie3 0 [Data 7]))" by (simp add: PREFIX_LENGTH_def header_ok_0)
qed simp_all

text \<open>C25. \<open>triev2_find_nonexistent_key\<close>, from a key that is divisible by 16: the result is one of the 16 keys and
  does not exist, or it is \<open>0xFFFFFFFF\<close> and all 16 keys exist.  Keys of less than four bits are excluded:
  the code reads a node above the last one.\<close>

theorem triev2_find_nonexistent_key_correct:
  assumes "root_ok n root" and "2 \<le> n" "n \<le> 16" and "unat key < 4 ^ n" "key mod 16 = 0"
  shows "\<exists>k. triev2_find_nonexistent_key root key (2 * n) = Some k \<and>
    (unat key \<le> unat k \<and> unat k \<le> unat key + 15 \<and> unat k < 4 ^ n \<and> triev2_find root k (2 * n) = Some NULL_WORD \<or>
     k = 0xFFFFFFFF \<and> (\<forall>x < 16. triev2_contains root (key + of_nat x) (2 * n) = Some True))"
proof -
  have n: "0 < n" using assms(2) by simp
  show ?thesis
    using triev2_find_nonexistent_key_ok [OF assms] triev2_find_ok(1,2) [OF assms(1) n] by (auto simp: unused_def)
qed

theorem triev2_find_nonexistent_key_correct_witness:
  "\<exists>k. triev2_find_nonexistent_key (Some (Node CELL_trie1 0 [Node CELL_trie12 0 [Data 7, Data 8]])) 0 (2 * 2) = Some k \<and>
    (unat (0 :: word_t) \<le> unat k \<and> unat k \<le> unat (0 :: word_t) + 15 \<and> unat k < 4 ^ 2 \<and>
       triev2_find (Some (Node CELL_trie1 0 [Node CELL_trie12 0 [Data 7, Data 8]])) k (2 * 2) = Some NULL_WORD \<or>
     k = 0xFFFFFFFF \<and> (\<forall>x < 16. triev2_contains (Some (Node CELL_trie1 0 [Node CELL_trie12 0 [Data 7, Data 8]]))
        (0 + of_nat x) (2 * 2) = Some True))"
proof (rule triev2_find_nonexistent_key_correct)
  show "root_ok 2 (Some (Node CELL_trie1 0 [Node CELL_trie12 0 [Data 7, Data 8]]))" by (simp add: PREFIX_LENGTH_def header_ok_0)
qed simp_all

text \<open>C26. \<open>triev2_find_max\<close> gives the greatest key of a trie.  For the trie with key 0 only this is 0, and so
  \<open>NULL_WORD\<close>, what it gives for the empty trie.\<close>

theorem triev2_find_max_correct:
  assumes "root_ok n (Some p)" and "0 < n" "n \<le> 16"
  shows "(\<exists>key. triev2_find_max (Some p) (2 * n) = Some key \<and> unat key < 4 ^ n \<and>
      triev2_contains (Some p) key (2 * n) = Some True \<and>
      (\<forall>k. unat k < 4 ^ n \<longrightarrow> triev2_contains (Some p) k (2 * n) = Some True \<longrightarrow> k \<le> key)) \<and>
    triev2_find_max None (2 * n) = Some NULL_WORD \<and>
    triev2_find_max (Some (Node CELL_trie1 0 [Data d])) 2 = Some NULL_WORD"
proof -
  have "trie_ok n p" using assms(1) by simp
  from triev2_find_max_ok [OF this assms(2,3)] show ?thesis
    using triev2_find_ok(2) [OF assms(1,2)]
    by (auto simp: triev2_find_max_def PREFIX_LENGTH_def greatest_non_null_def deoffset_def)
qed

theorem triev2_find_max_correct_witness:
  "\<exists>key. triev2_find_max (Some (Node CELL_trie23 0 [Data 7, Data 8])) (2 * 1) = Some key \<and> unat key < 4 ^ 1 \<and>
      triev2_contains (Some (Node CELL_trie23 0 [Data 7, Data 8])) key (2 * 1) = Some True"
proof -
  have "root_ok 1 (Some (Node CELL_trie23 0 [Data 7, Data 8]))" by (simp add: PREFIX_LENGTH_def header_ok_0)
  from triev2_find_max_correct [OF this] show ?thesis by auto
qed

end
