(* ===== verification/Tagged.thy ===== *)
theory Tagged
  imports Bitops
begin

text \<open>
  Tagged words (\<^verbatim>\<open>tagged.h\<close>, \<^verbatim>\<open>cells.h\<close>): the two lowest bits tell a pointer, a number and an object
  identity apart.  \<^verbatim>\<open>tagged.h\<close> has two versions of the conversions of signed numbers, for machines with
  arithmetic and with logical right shifts.
\<close>

section \<open>The macros\<close>

definition TAGGED_IS_PTR :: "word_t \<Rightarrow> bool" where
  "TAGGED_IS_PTR x \<longleftrightarrow> x AND 3 = 0"

definition TAGGED_IS_WORD :: "word_t \<Rightarrow> bool" where
  "TAGGED_IS_WORD x \<longleftrightarrow> x AND 3 = 1"

definition TAGGED_IS_OID :: "word_t \<Rightarrow> bool" where
  "TAGGED_IS_OID x \<longleftrightarrow> x AND 3 = 2"

definition TAGGED_TO_WORD :: "word_t \<Rightarrow> word_t" where
  "TAGGED_TO_WORD x = drop_bit 2 x"

definition WORD_TO_TAGGED :: "word_t \<Rightarrow> word_t" where
  "WORD_TO_TAGGED x = push_bit 2 x OR 1"

text \<open>The version for arithmetic shifts.\<close>

definition TAGGED_TO_SIGNED_WORD :: "word_t \<Rightarrow> word_t" where
  "TAGGED_TO_SIGNED_WORD x = signed_drop_bit 2 x"

definition SIGNED_WORD_TO_TAGGED :: "word_t \<Rightarrow> word_t" where
  "SIGNED_WORD_TO_TAGGED x = push_bit 2 x OR 1"

text \<open>The version for logical shifts.\<close>

definition TAGGED_TO_SIGNED_WORD_logical :: "word_t \<Rightarrow> word_t" where
  "TAGGED_TO_SIGNED_WORD_logical x = (if 0 \<le> sint x then drop_bit 2 x else NOT (drop_bit 2 (NOT x)))"

definition SIGNED_WORD_TO_TAGGED_logical :: "word_t \<Rightarrow> word_t" where
  "SIGNED_WORD_TO_TAGGED_logical x = (if 0 \<le> sint x then push_bit 2 x OR 1 else NOT (push_bit 2 (NOT x) OR 2))"

section \<open>Lemmas\<close>

lemma tag_bits:
  "(push_bit 2 x OR 1) AND 3 = (1 :: word_t)" "(push_bit 2 x OR 2) AND 3 = (2 :: word_t)"
proof -
  have three: "(3 :: word_t) = mask 2" and one: "(1 :: word_t) = mask 1" and two: "(2 :: word_t) = push_bit 1 (mask 1)"
    by (simp_all add: mask_eq_exp_minus_1)
  show "(push_bit 2 x OR 1) AND 3 = (1 :: word_t)" unfolding three one by (rule bit_word_eqI) (auto simp: bit_simps)
  show "(push_bit 2 x OR 2) AND 3 = (2 :: word_t)" unfolding three two by (rule bit_word_eqI) (auto simp: bit_simps)
qed

lemma negative_bit: "sint (x :: word_t) < 0 \<longleftrightarrow> bit x 31"
  using bit_last_iff [of x] by simp

lemma drop_tag: "drop_bit 2 (push_bit 2 x OR 1) = take_bit 30 x" "drop_bit 2 (push_bit 2 x OR 2) = take_bit 30 x" for x :: word_t
proof -
  have one: "(1 :: word_t) = mask 1" and two: "(2 :: word_t) = push_bit 1 (mask 1)"
    by (simp_all add: mask_eq_exp_minus_1)
  show "drop_bit 2 (push_bit 2 x OR 1) = take_bit 30 x" unfolding one by (rule bit_word_eqI) (auto simp: bit_simps)
  show "drop_bit 2 (push_bit 2 x OR 2) = take_bit 30 x" unfolding two by (rule bit_word_eqI) (auto simp: bit_simps)
qed

lemma logical_versions_agree:
  "TAGGED_TO_SIGNED_WORD_logical x = TAGGED_TO_SIGNED_WORD x"
  "SIGNED_WORD_TO_TAGGED_logical x = SIGNED_WORD_TO_TAGGED x"
proof -
  have one: "(1 :: word_t) = mask 1" and two: "(2 :: word_t) = push_bit 1 (mask 1)"
    by (simp_all add: mask_eq_exp_minus_1)
  show "TAGGED_TO_SIGNED_WORD_logical x = TAGGED_TO_SIGNED_WORD x"
    using negative_bit [of x] unfolding TAGGED_TO_SIGNED_WORD_logical_def TAGGED_TO_SIGNED_WORD_def
    by (intro bit_word_eqI) (auto simp: bit_simps not_less dest: bit_imp_le_length)
  show "SIGNED_WORD_TO_TAGGED_logical x = SIGNED_WORD_TO_TAGGED x"
    unfolding SIGNED_WORD_TO_TAGGED_logical_def SIGNED_WORD_TO_TAGGED_def one two
    by (intro bit_word_eqI) (auto simp: bit_simps)
qed

lemma signed_round_trip: "TAGGED_TO_SIGNED_WORD (SIGNED_WORD_TO_TAGGED x) = signed_take_bit 29 x"
proof -
  have one: "(1 :: word_t) = mask 1" by (simp add: mask_eq_exp_minus_1)
  show ?thesis unfolding TAGGED_TO_SIGNED_WORD_def SIGNED_WORD_TO_TAGGED_def one
  proof (rule bit_word_eqI)
    fix n :: nat
    assume "n < LENGTH(32)"
    then show "bit (signed_drop_bit 2 (push_bit 2 x OR mask 1)) n = bit (signed_take_bit 29 x) n"
      by (cases "n = 29") (auto simp: bit_simps min_def dest: bit_imp_le_length)
  qed
qed

section \<open>Properties\<close>

text \<open>C32. A signed number survives being tagged exactly when it fits into 30 bits, an unsigned one exactly when it
  is below \<open>2 ^ 30\<close>; the versions for arithmetic and for logical shifts are the same functions; and the three
  kinds of tagged words exclude each other.\<close>

theorem tagged_round_trip:
  "(TAGGED_TO_SIGNED_WORD (SIGNED_WORD_TO_TAGGED x) = x \<longleftrightarrow> - (2 ^ 29) \<le> sint x \<and> sint x < 2 ^ 29) \<and>
   (TAGGED_TO_WORD (WORD_TO_TAGGED x) = x \<longleftrightarrow> unat x < 2 ^ 30) \<and>
   TAGGED_TO_SIGNED_WORD_logical x = TAGGED_TO_SIGNED_WORD x \<and>
   SIGNED_WORD_TO_TAGGED_logical x = SIGNED_WORD_TO_TAGGED x \<and>
   TAGGED_IS_WORD (SIGNED_WORD_TO_TAGGED x) \<and> TAGGED_IS_WORD (WORD_TO_TAGGED x) \<and>
   \<not> (TAGGED_IS_WORD x \<and> TAGGED_IS_PTR x) \<and> \<not> (TAGGED_IS_WORD x \<and> TAGGED_IS_OID x) \<and> \<not> (TAGGED_IS_PTR x \<and> TAGGED_IS_OID x)"
proof -
  have "signed_take_bit 29 x = x \<longleftrightarrow> sint (signed_take_bit 29 x) = sint x" by (simp add: word_eq_iff_signed)
  also have "\<dots> \<longleftrightarrow> signed_take_bit 29 (sint x) = sint x"
  proof -
    have "sint (signed_take_bit 29 x) = signed_take_bit 29 (sint x)"
      by (rule bit_eqI) (auto simp: bit_simps min_def)
    then show ?thesis by simp
  qed
  also have "\<dots> \<longleftrightarrow> - (2 ^ 29) \<le> sint x \<and> sint x < 2 ^ 29" by (simp add: signed_take_bit_int_eq_self_iff)
  finally have s: "TAGGED_TO_SIGNED_WORD (SIGNED_WORD_TO_TAGGED x) = x \<longleftrightarrow> - (2 ^ 29) \<le> sint x \<and> sint x < 2 ^ 29"
    unfolding signed_round_trip .
  have "take_bit 30 x = x \<longleftrightarrow> unat (take_bit 30 x) = unat x" by (simp add: word_eq_iff_unsigned)
  also have "\<dots> \<longleftrightarrow> unat x < 2 ^ 30" by (simp add: unsigned_take_bit_eq take_bit_nat_eq_self_iff)
  finally have u: "TAGGED_TO_WORD (WORD_TO_TAGGED x) = x \<longleftrightarrow> unat x < 2 ^ 30"
    unfolding TAGGED_TO_WORD_def WORD_TO_TAGGED_def drop_tag .
  show ?thesis using s u logical_versions_agree [of x]
    by (simp add: TAGGED_IS_WORD_def TAGGED_IS_PTR_def TAGGED_IS_OID_def SIGNED_WORD_TO_TAGGED_def WORD_TO_TAGGED_def tag_bits)
qed

end
