(* ===== verification/Oid.thy ===== *)
theory Oid
  imports Triev2_Store Tagged
begin

text \<open>
  Object identities (\<^verbatim>\<open>oid.c\<close>): a table from numbers below \<open>2 ^ 30\<close> to values, kept in a quaternary trie.  The
  record holds the words of the root block that the code uses.  An oid of the program is a tagged
  word, its number shifted left by two.  \<open>random r\<close> is the result of the call number \<open>r\<close> of the library
  function \<^verbatim>\<open>random\<close>.  A result \<open>None\<close> is a failed assertion.
\<close>

section \<open>The operations\<close>

record oid_roots =
  oid_map :: "trie option"
  oid_freelist :: "word_t list"
  oid_in_use :: word_t
  oid_max :: word_t
  oid_allocation_cursor :: word_t
  oid_prev_random :: word_t

definition oid_initial :: oid_roots where
  "oid_initial = \<lparr>oid_map = None, oid_freelist = [], oid_in_use = 0, oid_max = 0, oid_allocation_cursor = 0, oid_prev_random = 0\<rparr>"

abbreviation INVALID_OID :: word_t where
  "INVALID_OID \<equiv> 0xFFFFFFFF"

definition OID_ALLOCATE_MAX_ALLOCATION :: nat where
  "OID_ALLOCATE_MAX_ALLOCATION = TRIEV2_MAX_ALLOCATION"

definition OID_DISPOSE_MAX_ALLOCATION :: nat where
  "OID_DISPOSE_MAX_ALLOCATION = TRIEV2_MAX_ALLOCATION + 3"

text \<open>The next range, which starts over at 0 behind the greatest oid.\<close>

definition next_range :: "word_t \<Rightarrow> oid_roots \<Rightarrow> word_t" where
  "next_range tmp s = (if oid_max s \<le> tmp + 16 then 0 else tmp + 16)"

text \<open>The loop over the next two ranges.\<close>

fun range_loop :: "nat \<Rightarrow> word_t \<Rightarrow> oid_roots \<Rightarrow> (word_t option \<times> oid_roots) option" where
  "range_loop 0 tmp s = Some (None, s)"
| "range_loop (Suc i) tmp s = do {
     oid \<leftarrow> triev2_find_nonexistent_key (oid_map s) tmp 30;
     (if oid = 0xFFFFFFFF then
        let tmp' = next_range tmp s in range_loop i tmp' (s\<lparr>oid_allocation_cursor := tmp'\<rparr>)
      else if oid < oid_max s then (if oid < tmp + 16 then Some (Some oid, s) else None)
      else range_loop i tmp s) }"

text \<open>Around the cursor.\<close>

definition cursor_search :: "oid_roots \<Rightarrow> (word_t option \<times> oid_roots) option" where
  "cursor_search s =
    (let tmp = oid_allocation_cursor s in
     if tmp mod 16 \<noteq> 0 then None
     else do {
       oid \<leftarrow> triev2_find_nonexistent_key (oid_map s) tmp 30;
       (if oid = 0xFFFFFFFF then
          let tmp' = next_range tmp s in range_loop 2 tmp' (s\<lparr>oid_allocation_cursor := tmp'\<rparr>)
        else if oid < oid_max s then (if oid < tmp + 16 then Some (Some oid, s) else None)
        else Some (None, s)) })"

text \<open>How often a random point is tried.\<close>

definition number_of_tries :: "oid_roots \<Rightarrow> nat" where
  "number_of_tries s =
    (if oid_in_use s + drop_bit 4 (oid_in_use s) > oid_max s then 0
     else if oid_in_use s + drop_bit 3 (oid_in_use s) > oid_max s then 1
     else if oid_in_use s + drop_bit 2 (oid_in_use s) > oid_max s then 2
     else if oid_in_use s + drop_bit 1 (oid_in_use s) > oid_max s then 5
     else 16)"

fun random_loop :: "(nat \<Rightarrow> word_t) \<Rightarrow> nat \<Rightarrow> nat \<Rightarrow> oid_roots \<Rightarrow> (word_t option \<times> oid_roots \<times> nat) option" where
  "random_loop random 0 r s = Some (None, s\<lparr>oid_prev_random := 0xFFFFFFFF\<rparr>, r)"
| "random_loop random (Suc i) r s = do {
     let tmp = (random r mod oid_max s) AND 0xFFFFFFF0;
     oid \<leftarrow> triev2_find_nonexistent_key (oid_map s) tmp 30;
     (if oid < oid_max s then Some (Some oid, s\<lparr>oid_prev_random := tmp\<rparr>, Suc r)
      else random_loop random i (Suc r) s) }"

definition random_search :: "(nat \<Rightarrow> word_t) \<Rightarrow> nat \<Rightarrow> oid_roots \<Rightarrow> (word_t option \<times> oid_roots \<times> nat) option" where
  "random_search random r s =
    (if oid_max s > 0 then
       let oid = oid_prev_random s in
       if oid = 0xFFFFFFFF then random_loop random (number_of_tries s) r s
       else if oid mod 16 \<noteq> 0 then None
       else do {
         oid' \<leftarrow> triev2_find_nonexistent_key (oid_map s) oid 30;
         (if oid' < oid_max s then Some (Some oid', s, r)
          else random_loop random (number_of_tries s) r s) }
     else Some (None, s, r))"

text \<open>Everything up to the label \<^verbatim>\<open>found\<close>.\<close>

definition oid_search :: "(nat \<Rightarrow> word_t) \<Rightarrow> nat \<Rightarrow> oid_roots \<Rightarrow> (word_t \<times> oid_roots \<times> nat) option" where
  "oid_search random r s =
    (case oid_freelist s of
       oid # freelist \<Rightarrow> Some (oid, s\<lparr>oid_freelist := freelist\<rparr>, r)
     | [] \<Rightarrow> do {
         (oid, s1) \<leftarrow> cursor_search s;
         (case oid of
            Some oid \<Rightarrow> Some (oid, s1, r)
          | None \<Rightarrow> do {
              (oid, s2, r2) \<leftarrow> random_search random r s1;
              Some (case oid of
                Some oid \<Rightarrow> (oid, s2, r2)
              | None \<Rightarrow> (oid_max s2, s2\<lparr>oid_max := oid_max s2 + 1\<rparr>, r2)) }) })"

definition oid_allocate :: "(nat \<Rightarrow> word_t) \<Rightarrow> nat \<Rightarrow> word_t \<Rightarrow> oid_roots \<Rightarrow> nat \<Rightarrow> (word_t \<times> oid_roots \<times> nat \<times> nat) option" where
  "oid_allocate random r value s ap = do {
     (oid, s1, r1) \<leftarrow> oid_search random r s;
     old \<leftarrow> triev2_find (oid_map s1) oid 30;
     (if old \<noteq> NULL_WORD then None
      else do {
        (m, ap1) \<leftarrow> triev2_insert (oid_map s1) oid 30 None value ap;
        Some (push_bit 2 oid OR 2, s1\<lparr>oid_in_use := oid_in_use s1 + 1, oid_map := m\<rparr>, r1, ap1) }) }"

text \<open>\<^verbatim>\<open>old_value\<close> is what the update function has been called with: the old data of the key, or \<open>NULL_WORD\<close> when
  it has not been called.\<close>

definition oid_dispose :: "word_t \<Rightarrow> oid_roots \<Rightarrow> nat \<Rightarrow> (word_t \<times> oid_roots \<times> nat) option" where
  "oid_dispose oid s ap =
    (if \<not> TAGGED_IS_OID oid then None
     else let oid1 = drop_bit 2 oid in
       if \<not> oid1 \<le> oid_max s then None
       else do {
         old_value \<leftarrow> triev2_find (oid_map s) oid1 30;
         (m, ap1) \<leftarrow> triev2_delete (oid_map s) oid1 30 (Some (\<lambda>old_data new_data. NULL_WORD)) NULL_WORD (ap + 3);
         gone \<leftarrow> triev2_find m oid1 30;
         (if gone \<noteq> NULL_WORD then None
          else Some (old_value,
            s\<lparr>oid_freelist := oid1 # oid_freelist s, oid_in_use := oid_in_use s - 1, oid_map := m\<rparr>, ap1)) })"

definition oid_ref :: "word_t \<Rightarrow> oid_roots \<Rightarrow> word_t option" where
  "oid_ref oid s =
    (if \<not> TAGGED_IS_OID oid then None
     else let oid1 = drop_bit 2 oid in
       if \<not> oid1 \<le> oid_max s then None
       else triev2_find (oid_map s) oid1 30)"

definition oid_update :: "word_t \<Rightarrow> word_t \<Rightarrow> oid_roots \<Rightarrow> nat \<Rightarrow> (word_t \<times> oid_roots \<times> nat) option" where
  "oid_update oid new_value s ap =
    (if \<not> TAGGED_IS_OID oid then None
     else if \<not> oid \<le> oid_max s then None
     else do {
       old_value \<leftarrow> triev2_find (oid_map s) oid 30;
       (m, ap1) \<leftarrow> triev2_insert (oid_map s) oid 30 (Some (\<lambda>old_data new_data. new_data)) new_value ap;
       Some (old_value, s\<lparr>oid_map := m\<rparr>, ap1) })"

text \<open>At the end of a commit group the freelist is emptied (\<^verbatim>\<open>shades.c\<close>).\<close>

definition oid_end_of_commit_group :: "oid_roots \<Rightarrow> oid_roots" where
  "oid_end_of_commit_group s = s\<lparr>oid_freelist := []\<rparr>"

section \<open>Invariant\<close>

definition live :: "oid_roots \<Rightarrow> word_t set" where
  "live s = {k. unat k < 2 ^ 30 \<and> trie_lookup 15 (oid_map s) k \<noteq> NULL_WORD}"

text \<open>A word where a search may start.\<close>

definition start_ok :: "oid_roots \<Rightarrow> word_t \<Rightarrow> bool" where
  "start_ok s k \<longleftrightarrow> k mod 16 = 0 \<and> (k = 0 \<or> k < oid_max s)"

definition oid_ok :: "oid_roots \<Rightarrow> bool" where
  "oid_ok s \<longleftrightarrow> root_ok 15 (oid_map s) \<and> (\<forall>k \<in> live s. k < oid_max s) \<and> unat (oid_max s) \<le> 2 ^ 30 \<and>
    start_ok s (oid_allocation_cursor s) \<and> (oid_prev_random s = INVALID_OID \<or> start_ok s (oid_prev_random s)) \<and>
    distinct (oid_freelist s) \<and> set (oid_freelist s) \<inter> live s = {} \<and> (\<forall>k \<in> set (oid_freelist s). k < oid_max s) \<and>
    unat (oid_in_use s) = card (live s)"

text \<open>What a search may change.\<close>

definition same_table :: "oid_roots \<Rightarrow> oid_roots \<Rightarrow> bool" where
  "same_table s s' \<longleftrightarrow> oid_map s' = oid_map s \<and> oid_freelist s' = oid_freelist s \<and> oid_in_use s' = oid_in_use s \<and> oid_max s' = oid_max s"

lemma live_same: "same_table s s' \<Longrightarrow> live s' = live s"
  by (simp add: same_table_def live_def)

lemma find_nonexistent:
  assumes "oid_ok s" "start_ok s tmp"
  shows "\<exists>oid. triev2_find_nonexistent_key (oid_map s) tmp 30 = Some oid \<and>
    (oid = INVALID_OID \<or> unat oid < 2 ^ 30 \<and> oid \<notin> live s \<and> tmp \<le> oid \<and> oid < tmp + 16)"
proof -
  have t: "unat tmp < 2 ^ 30" "tmp mod 16 = 0" using assms by (auto simp: start_ok_def oid_ok_def word_less_nat_alt)
  have root: "root_ok 15 (oid_map s)" using assms(1) by (simp add: oid_ok_def)
  have "unat tmp < 4 ^ 15" using t(1) by simp
  from triev2_find_nonexistent_key_ok [OF root _ _ this t(2)] obtain k where
    k: "triev2_find_nonexistent_key (oid_map s) tmp 30 = Some k"
      "unused 15 (oid_map s) tmp k \<or> k = INVALID_OID" by auto
  have u: "unat (tmp + 16) = unat tmp + 16" using word_add_unat [of tmp 16] t(1) by simp
  show ?thesis
  proof (cases "k = INVALID_OID")
    case False
    then have "unat tmp \<le> unat k" "unat k \<le> unat tmp + 15" "unat k < 4 ^ 15" "trie_lookup 15 (oid_map s) k = NULL_WORD"
      using k(2) by (auto simp: unused_def)
    then show ?thesis using k(1) u by (simp add: live_def word_le_nat_alt word_less_nat_alt)
  qed (use k(1) in simp)
qed

lemma invalid_not_less: "oid_ok s \<Longrightarrow> \<not> INVALID_OID < oid_max s"
  by (auto simp: oid_ok_def word_less_nat_alt)

lemma next_range_ok: "oid_ok s \<Longrightarrow> start_ok s tmp \<Longrightarrow> start_ok s (next_range tmp s)"
proof -
  assume "oid_ok s" "start_ok s tmp"
  then have t: "unat tmp < 2 ^ 30" "tmp mod 16 = 0" by (auto simp: start_ok_def oid_ok_def word_less_nat_alt)
  have "unat (tmp + 16) = unat tmp + 16" using word_add_unat [of tmp 16] t(1) by simp
  moreover have "unat (tmp mod 16) = unat tmp mod 16" by (simp add: unat_mod)
  then have "unat tmp mod 16 = 0" using t(2) by simp
  ultimately have "unat ((tmp + 16) mod 16) = 0" by (simp add: unat_mod)
  then show "start_ok s (next_range tmp s)" by (auto simp: start_ok_def next_range_def unat_0_iff)
qed

lemma oid_ok_same:
  assumes "oid_ok s" "same_table s s'" "start_ok s (oid_allocation_cursor s')"
    "oid_prev_random s' = INVALID_OID \<or> start_ok s (oid_prev_random s')"
  shows "oid_ok s'"
  using assms live_same [OF assms(2)] unfolding oid_ok_def same_table_def start_ok_def by simp

lemma same_table_refl [simp]: "same_table s s"
  and same_table_update [simp]: "same_table s (s\<lparr>oid_allocation_cursor := c\<rparr>)" "same_table s (s\<lparr>oid_prev_random := p\<rparr>)"
  by (simp_all add: same_table_def)

lemma same_table_trans: "same_table s s' \<Longrightarrow> same_table s' s'' \<Longrightarrow> same_table s s''"
  by (simp add: same_table_def)

text \<open>A search that gives a word gives one that is free.\<close>

definition candidate :: "oid_roots \<Rightarrow> word_t option \<Rightarrow> oid_roots \<Rightarrow> bool" where
  "candidate s x s' \<longleftrightarrow> same_table s s' \<and> oid_ok s' \<and> (\<forall>oid. x = Some oid \<longrightarrow> oid \<notin> live s \<and> oid < oid_max s)"

lemma candidate_trans: "same_table s s' \<Longrightarrow> candidate s' x s'' \<Longrightarrow> candidate s x s''"
  using same_table_trans [of s s' s''] live_same [of s s'] by (auto simp: candidate_def same_table_def)

lemma oid_ok_cursor: "oid_ok s \<Longrightarrow> start_ok s c \<Longrightarrow> oid_ok (s\<lparr>oid_allocation_cursor := c\<rparr>)"
  by (rule oid_ok_same) (auto simp: oid_ok_def)

lemma oid_ok_random: "oid_ok s \<Longrightarrow> p = INVALID_OID \<or> start_ok s p \<Longrightarrow> oid_ok (s\<lparr>oid_prev_random := p\<rparr>)"
  by (rule oid_ok_same) (auto simp: oid_ok_def)

lemma range_loop_ok:
  "oid_ok s \<Longrightarrow> start_ok s tmp \<Longrightarrow> \<exists>x s'. range_loop i tmp s = Some (x, s') \<and> candidate s x s'"
proof (induction i arbitrary: tmp s)
  case 0
  then show ?case by (simp add: candidate_def)
next
  case (Suc i)
  obtain oid where oid: "triev2_find_nonexistent_key (oid_map s) tmp 30 = Some oid"
      "oid = INVALID_OID \<or> unat oid < 2 ^ 30 \<and> oid \<notin> live s \<and> tmp \<le> oid \<and> oid < tmp + 16"
    using find_nonexistent [OF Suc.prems] by blast
  let ?tmp = "next_range tmp s"
  let ?s = "s\<lparr>oid_allocation_cursor := ?tmp\<rparr>"
  have t: "start_ok s ?tmp" by (rule next_range_ok [OF Suc.prems])
  then have t': "start_ok ?s ?tmp" by (simp add: start_ok_def)
  have "\<exists>x s'. range_loop i ?tmp ?s = Some (x, s') \<and> candidate s x s'"
    using Suc.IH [OF oid_ok_cursor [OF Suc.prems(1) t] t'] candidate_trans [of s ?s] by fastforce
  then show ?case
    using oid Suc.IH [OF Suc.prems] Suc.prems(1) by (auto simp: Let_def candidate_def)
qed

lemma cursor_search_ok: "oid_ok s \<Longrightarrow> \<exists>x s'. cursor_search s = Some (x, s') \<and> candidate s x s'"
proof -
  assume s: "oid_ok s"
  let ?tmp = "oid_allocation_cursor s"
  have c: "start_ok s ?tmp" using s by (simp add: oid_ok_def)
  obtain oid where oid: "triev2_find_nonexistent_key (oid_map s) ?tmp 30 = Some oid"
      "oid = INVALID_OID \<or> unat oid < 2 ^ 30 \<and> oid \<notin> live s \<and> ?tmp \<le> oid \<and> oid < ?tmp + 16"
    using find_nonexistent [OF s c] by blast
  let ?tmp1 = "next_range ?tmp s"
  let ?s = "s\<lparr>oid_allocation_cursor := ?tmp1\<rparr>"
  have t: "start_ok s ?tmp1" by (rule next_range_ok [OF s c])
  then have t': "start_ok ?s ?tmp1" by (simp add: start_ok_def)
  have "\<exists>x s'. range_loop 2 ?tmp1 ?s = Some (x, s') \<and> candidate s x s'"
    using range_loop_ok [OF oid_ok_cursor [OF s t] t', of 2] candidate_trans [of s ?s] by fastforce
  moreover have "?tmp mod 16 = 0" using c by (simp add: start_ok_def)
  ultimately show ?thesis using oid s by (auto simp: cursor_search_def Let_def candidate_def simp del: range_loop.simps)
qed

lemma random_point_ok:
  assumes "oid_max s > 0"
  shows "start_ok s ((x mod oid_max s) AND 0xFFFFFFF0)"
proof -
  let ?y = "x mod oid_max s"
  have m: "(0xFFFFFFF0 :: word_t) = push_bit 4 (mask 28)" by (simp add: mask_eq_exp_minus_1)
  have "take_bit 4 (?y AND 0xFFFFFFF0) = 0" unfolding m by (rule bit_word_eqI) (auto simp: bit_simps)
  then have "(?y AND 0xFFFFFFF0) mod 16 = 0" by (simp add: take_bit_eq_mod)
  moreover have "?y AND 0xFFFFFFF0 \<le> ?y" by (rule word_and_le2)
  moreover have "?y < oid_max s" using assms by (intro word_mod_less_divisor)
  ultimately show ?thesis by (auto simp: start_ok_def)
qed

lemma random_loop_ok:
  "oid_ok s \<Longrightarrow> oid_max s > 0 \<Longrightarrow> \<exists>x s' r'. random_loop random i r s = Some (x, s', r') \<and> candidate s x s'"
proof (induction i arbitrary: r)
  case 0
  then show ?case using oid_ok_random [OF 0(1), of INVALID_OID] by (simp add: candidate_def)
next
  case (Suc i)
  let ?tmp = "(random r mod oid_max s) AND 0xFFFFFFF0"
  have t: "start_ok s ?tmp" by (rule random_point_ok [OF Suc.prems(2)])
  obtain oid where oid: "triev2_find_nonexistent_key (oid_map s) ?tmp 30 = Some oid"
      "oid = INVALID_OID \<or> unat oid < 2 ^ 30 \<and> oid \<notin> live s \<and> ?tmp \<le> oid \<and> oid < ?tmp + 16"
    using find_nonexistent [OF Suc.prems(1) t] by blast
  have "oid \<notin> live s" if "oid < oid_max s" using oid(2) that invalid_not_less [OF Suc.prems(1)] by auto
  then show ?case
    using oid(1) Suc.IH [OF Suc.prems] oid_ok_random [OF Suc.prems(1), of ?tmp] t
    by (auto simp: Let_def candidate_def)
qed

lemma random_search_ok: "oid_ok s \<Longrightarrow> \<exists>x s' r'. random_search random r s = Some (x, s', r') \<and> candidate s x s'"
proof (cases "oid_max s > 0 \<and> oid_prev_random s \<noteq> INVALID_OID")
  case True
  assume s: "oid_ok s"
  then have c: "start_ok s (oid_prev_random s)" using True by (auto simp: oid_ok_def)
  obtain oid where oid: "triev2_find_nonexistent_key (oid_map s) (oid_prev_random s) 30 = Some oid"
      "oid = INVALID_OID \<or> unat oid < 2 ^ 30 \<and> oid \<notin> live s \<and> oid_prev_random s \<le> oid \<and> oid < oid_prev_random s + 16"
    using find_nonexistent [OF s c] by blast
  have "oid \<notin> live s" if "oid < oid_max s" using oid(2) that invalid_not_less [OF s] by auto
  then show ?thesis
    using oid(1) True s c random_loop_ok [OF s, of random "number_of_tries s" r]
    by (auto simp: random_search_def Let_def candidate_def start_ok_def)
next
  case False
  assume "oid_ok s"
  then show ?thesis using False random_loop_ok [of s random "number_of_tries s" r]
    by (auto simp: random_search_def Let_def candidate_def)
qed

definition search_ok :: "oid_roots \<Rightarrow> word_t \<Rightarrow> oid_roots \<Rightarrow> bool" where
  "search_ok s oid s' \<longleftrightarrow> oid_map s' = oid_map s \<and> oid_in_use s' = oid_in_use s \<and> oid_ok s' \<and> oid \<notin> live s \<and>
    oid < oid_max s' \<and> oid \<notin> set (oid_freelist s') \<and> oid_max s \<le> oid_max s'"

lemma oid_search_ok:
  assumes s: "oid_ok s" and max: "unat (oid_max s) < 2 ^ 30"
  shows "\<exists>oid s' r'. oid_search random r s = Some (oid, s', r') \<and> search_ok s oid s'"
proof (cases "oid_freelist s")
  case (Cons oid freelist)
  let ?s = "s\<lparr>oid_freelist := freelist\<rparr>"
  have l: "live ?s = live s" by (simp add: live_def)
  have "oid_ok ?s" using s Cons unfolding oid_ok_def l by (auto simp: start_ok_def)
  then have "search_ok s oid ?s" using s Cons by (auto simp: search_ok_def oid_ok_def)
  then show ?thesis by (simp add: oid_search_def Cons)
next
  case Nil
  obtain x s1 where 1: "cursor_search s = Some (x, s1)" "candidate s x s1" using cursor_search_ok [OF s] by blast
  have ok1: "oid_ok s1" "same_table s s1" using 1(2) by (auto simp: candidate_def)
  obtain y s2 r2 where 2: "random_search random r s1 = Some (y, s2, r2)" "candidate s1 y s2"
    using random_search_ok [OF ok1(1)] by blast
  note c2 = candidate_trans [OF ok1(2) 2(2)]
  have ok2: "oid_ok s2" "same_table s s2" using c2 by (auto simp: candidate_def)
  show ?thesis
  proof (cases x)
    case (Some oid)
    then have "search_ok s oid s1" using 1(2) Nil by (auto simp: candidate_def search_ok_def same_table_def)
    then show ?thesis using 1(1) Some Nil by (simp add: oid_search_def)
  next
    case xNone: None
    show ?thesis
    proof (cases y)
      case (Some oid)
      then have "search_ok s oid s2" using c2 Nil by (auto simp: candidate_def search_ok_def same_table_def)
      then show ?thesis using 1(1) 2(1) xNone Some Nil by (simp add: oid_search_def)
    next
      case None
      let ?s = "s2\<lparr>oid_max := oid_max s2 + 1\<rparr>"
      have m: "oid_max s2 = oid_max s" using ok2(2) by (simp add: same_table_def)
      have u: "unat (oid_max s2 + 1) = unat (oid_max s2) + 1" using word_add_unat [of "oid_max s2" 1] max m by simp
      have l: "live ?s = live s" using live_same [OF ok2(2)] by (simp add: live_def)
      have less: "oid_max s2 < oid_max s2 + 1" using u by (simp add: word_less_nat_alt)
      have st: "start_ok ?s k" if "start_ok s2 k" for k
        using that order.strict_trans [OF _ less] unfolding start_ok_def by auto
      have "oid_ok ?s"
        using ok2 u max m st live_same [OF ok2(2)] order.strict_trans [OF _ less]
        unfolding oid_ok_def l by (auto simp: same_table_def)
      moreover have "oid_max s \<notin> live s" using s by (auto simp: oid_ok_def)
      ultimately have "search_ok s (oid_max s2) ?s"
        using ok2(2) m less Nil by (auto simp: search_ok_def same_table_def)
      then show ?thesis using 1(1) 2(1) xNone None Nil by (simp add: oid_search_def)
    qed
  qed
qed

end
