(* ===== verification/Oid_Steps.thy ===== *)
theory Oid_Steps
  imports Oid
begin

text \<open>
  Allocation and disposal of object identities, the states that a program can reach with them, and the
  properties of the table.
\<close>

section \<open>Allocation and disposal\<close>

lemma finite_live [simp]: "finite (live s)" and card_live: "card (live s) \<le> 2 ^ 30"
proof -
  have i: "inj_on unat (live s)" by (rule inj_onI) (simp add: word_unat_eq_iff)
  have sub: "unat ` live s \<subseteq> {..< 2 ^ 30}" by (auto simp: live_def)
  show f: "finite (live s)" by (rule finite_imageD [OF finite_subset [OF sub] i]) simp
  show "card (live s) \<le> 2 ^ 30" using card_mono [OF _ sub] card_image [OF i] by simp
qed

lemma take_bit_key: "unat k < 2 ^ 30 \<Longrightarrow> take_bit 30 k = (k :: word_t)"
  by (simp add: word_unat_eq_iff unsigned_take_bit_eq take_bit_nat_eq_self)

lemma same_key_30: "prefix_digits 15 a = prefix_digits 15 b \<longleftrightarrow> take_bit 30 a = take_bit 30 b"
  using same_key [of 15] by simp

lemma live_update:
  assumes "\<And>k. trie_lookup 15 m k = (if take_bit 30 k = take_bit 30 key then d else trie_lookup 15 (oid_map s) k)"
    and "unat key < 2 ^ 30" and "oid_map s' = m"
  shows "live s' = (if d = NULL_WORD then live s - {key} else insert key (live s))"
  using assms by (auto simp: live_def take_bit_key)

lemma oid_tag:
  assumes "unat k < 2 ^ 30"
  shows "TAGGED_IS_OID (push_bit 2 k OR 2)" "drop_bit 2 (push_bit 2 k OR 2) = k"
  using tag_bits(2) drop_tag(2) [of k] take_bit_key [OF assms] by (simp_all add: TAGGED_IS_OID_def)

lemma oid_ref_eq:
  assumes "oid_ok s" "TAGGED_IS_OID oid" "drop_bit 2 oid \<le> oid_max s"
  shows "oid_ref oid s = Some (trie_lookup 15 (oid_map s) (drop_bit 2 oid))"
  using assms triev2_find_ok(1) [of 15 "oid_map s"] by (simp add: oid_ref_def Let_def oid_ok_def)

lemma tagged_number: "unat (drop_bit 2 (oid :: word_t)) < 2 ^ 30"
proof -
  have "unat oid < 2 ^ 32" using unsigned_less [of oid] by simp
  then show ?thesis by (simp add: unat_drop)
qed

lemma oid_allocate_ok:
  assumes s: "oid_ok s" and max: "unat (oid_max s) < 2 ^ 30" and v: "value \<noteq> NULL_WORD"
  shows "\<exists>k s' r' ap'. oid_allocate random r value s ap = Some (push_bit 2 k OR 2, s', r', ap') \<and> oid_ok s' \<and>
    unat k < 2 ^ 30 \<and> k \<notin> live s \<and> k < oid_max s' \<and> oid_max s \<le> oid_max s' \<and>
    (\<forall>k'. unat k' < 2 ^ 30 \<longrightarrow> trie_lookup 15 (oid_map s') k' = (if k' = k then value else trie_lookup 15 (oid_map s) k')) \<and>
    ap' \<le> ap + OID_ALLOCATE_MAX_ALLOCATION"
proof -
  obtain k s1 r1 where k: "oid_search random r s = Some (k, s1, r1)" "search_ok s k s1"
    using oid_search_ok [OF s max] by blast
  have ok: "oid_map s1 = oid_map s" "oid_in_use s1 = oid_in_use s" "oid_ok s1" "k \<notin> live s" "k < oid_max s1"
      "k \<notin> set (oid_freelist s1)" "oid_max s \<le> oid_max s1"
    using k(2) by (auto simp: search_ok_def)
  have kl: "unat k < 2 ^ 30" using ok(3,5) by (auto simp: oid_ok_def word_less_nat_alt)
  have root: "root_ok 15 (oid_map s)" using s by (simp add: oid_ok_def)
  have free: "trie_lookup 15 (oid_map s) k = NULL_WORD" using ok(4) kl by (simp add: live_def)
  obtain m ap1 where m: "triev2_insert (oid_map s) k 30 None value ap = Some (m, ap1)" "root_ok 15 m"
      "\<And>k'. trie_lookup 15 m k' = (if take_bit 30 k' = take_bit 30 k then value else trie_lookup 15 (oid_map s) k')"
      "ap1 \<le> ap + TRIEV2_MAX_ALLOCATION"
    using triev2_insert_ok [OF root _ _ v, of None k ap] v unfolding same_key_30 new_data_None by auto
  let ?s = "s1\<lparr>oid_in_use := oid_in_use s1 + 1, oid_map := m\<rparr>"
  have live: "live ?s = insert k (live s)" using live_update [OF m(3) kl] v by simp
  have live1: "live s1 = live s" using ok(1) by (simp add: live_def)
  have "unat (oid_in_use s1) = card (live s)" using s ok(2) by (simp add: oid_ok_def)
  then have "unat (oid_in_use s1 + 1) = card (live ?s)"
    using word_add_unat [of "oid_in_use s1" 1] card_live [of s] ok(4) unfolding live by simp
  then have "oid_ok ?s" using ok m(2) live1 unfolding oid_ok_def live by (auto simp: start_ok_def)
  moreover have "oid_allocate random r value s ap = Some (push_bit 2 k OR 2, ?s, r1, ap1)"
    using k(1) ok(1) m(1) free triev2_find_ok(1) [OF root] by (simp add: oid_allocate_def)
  moreover have "trie_lookup 15 (oid_map ?s) k' = (if k' = k then value else trie_lookup 15 (oid_map s) k')"
    if "unat k' < 2 ^ 30" for k' using m(3) [of k'] that kl by (simp add: take_bit_key)
  ultimately show ?thesis using kl ok(4,5,7) m(4) unfolding OID_ALLOCATE_MAX_ALLOCATION_def
    by (intro exI [of _ k] exI [of _ ?s] exI [of _ r1] exI [of _ ap1]) simp
qed

lemma oid_dispose_ok:
  assumes s: "oid_ok s" and oid: "TAGGED_IS_OID oid" and live: "drop_bit 2 oid \<in> live s"
  defines "k \<equiv> drop_bit 2 oid"
  shows "\<exists>s' ap'. oid_dispose oid s ap = Some (trie_lookup 15 (oid_map s) k, s', ap') \<and> oid_ok s' \<and>
    live s' = live s - {k} \<and> oid_max s' = oid_max s \<and>
    (\<forall>k'. unat k' < 2 ^ 30 \<longrightarrow> trie_lookup 15 (oid_map s') k' = (if k' = k then NULL_WORD else trie_lookup 15 (oid_map s) k')) \<and>
    ap' \<le> ap + OID_DISPOSE_MAX_ALLOCATION"
proof -
  have kl: "unat k < 2 ^ 30" "trie_lookup 15 (oid_map s) k \<noteq> NULL_WORD" using live by (auto simp: live_def k_def)
  have root: "root_ok 15 (oid_map s)" using s by (simp add: oid_ok_def)
  have less: "k < oid_max s" using s live by (simp add: oid_ok_def k_def)
  obtain m ap1 where m: "triev2_delete (oid_map s) k 30 (Some (\<lambda>old_data new_data. NULL_WORD)) NULL_WORD (ap + 3) = Some (m, ap1)"
      "root_ok 15 m" "\<And>k'. trie_lookup 15 m k' = (if take_bit 30 k' = take_bit 30 k then NULL_WORD else trie_lookup 15 (oid_map s) k')"
      "ap1 \<le> ap + 3 + TRIEV2_MAX_ALLOCATION"
    using triev2_delete_ok [OF root _ _ refl, of k "Some (\<lambda>old_data new_data. NULL_WORD)" NULL_WORD "ap + 3"]
    unfolding same_key_30 updated_def option.case if_cancel by auto
  let ?s = "s\<lparr>oid_freelist := k # oid_freelist s, oid_in_use := oid_in_use s - 1, oid_map := m\<rparr>"
  have l: "live ?s = live s - {k}" using live_update [OF m(3) kl(1)] by simp
  have u: "unat (oid_in_use s) = card (live s)" using s by (simp add: oid_ok_def)
  have k_live: "k \<in> live s" using live by (simp add: k_def)
  then have "card (live s) > 0" by (auto simp: card_gt_0_iff)
  then have "oid_in_use s \<noteq> 0" using u by auto
  then have "unat (oid_in_use s - 1) = card (live ?s)"
    unfolding l using u k_live by (simp add: unat_minus_one)
  then have "oid_ok ?s" using s m(2) k_live less unfolding oid_ok_def l by (auto simp: start_ok_def)
  moreover have "trie_lookup 15 m k = NULL_WORD" using m(3) by simp
  then have "oid_dispose oid s ap = Some (trie_lookup 15 (oid_map s) k, ?s, ap1)"
    using oid less m(1) triev2_find_ok(1) [OF root] triev2_find_ok(1) [OF m(2)]
    by (simp add: oid_dispose_def Let_def k_def [symmetric])
  moreover have "trie_lookup 15 (oid_map ?s) k' = (if k' = k then NULL_WORD else trie_lookup 15 (oid_map s) k')"
    if "unat k' < 2 ^ 30" for k' using m(3) [of k'] that kl by (simp add: take_bit_key)
  ultimately show ?thesis using l m(4) unfolding OID_DISPOSE_MAX_ALLOCATION_def
    by (intro exI [of _ ?s] exI [of _ ap1]) simp
qed

text \<open>Finding of the code: the number of the oid is not taken out of the tagged word.\<close>

lemma oid_update_ok:
  assumes s: "oid_ok s" and oid: "TAGGED_IS_OID oid" "oid \<le> oid_max s" and v: "v \<noteq> NULL_WORD"
  shows "\<exists>m ap'. oid_update oid v s ap = Some (trie_lookup 15 (oid_map s) oid, s\<lparr>oid_map := m\<rparr>, ap') \<and> root_ok 15 m \<and>
    (\<forall>k'. unat k' < 2 ^ 30 \<longrightarrow>
      trie_lookup 15 m k' = (if k' = take_bit 30 oid then v else trie_lookup 15 (oid_map s) k'))"
proof -
  have root: "root_ok 15 (oid_map s)" using s by (simp add: oid_ok_def)
  have u: "updated (Some (\<lambda>old_data new_data. new_data)) d v = v" for d by (simp add: updated_def)
  have "new_data (Some (\<lambda>old_data new_data. new_data)) v d = v" for d by (simp add: new_data_def u)
  note nd = this
  obtain m ap1 where m: "triev2_insert (oid_map s) oid 30 (Some (\<lambda>old_data new_data. new_data)) v ap = Some (m, ap1)" "root_ok 15 m"
      "\<And>k'. trie_lookup 15 m k' = (if take_bit 30 k' = take_bit 30 oid then v else trie_lookup 15 (oid_map s) k')"
    using triev2_insert_ok [OF root _ _ v, of "Some (\<lambda>old_data new_data. new_data)" oid ap] v
    unfolding same_key_30 nd u by auto
  have "oid_update oid v s ap = Some (trie_lookup 15 (oid_map s) oid, s\<lparr>oid_map := m\<rparr>, ap1)"
    using oid m(1) triev2_find_ok(1) [OF root] by (simp add: oid_update_def)
  then show ?thesis using m(2,3) by (auto simp: take_bit_key)
qed

section \<open>Reachable states\<close>

text \<open>The steps of a program that uses the table as the comments demand: values are not \<open>NULL_WORD\<close>, there are
  fewer than \<open>2 ^ 30\<close> oids, and only an oid that exists is disposed of.  Of the calls of \<open>oid_update\<close> the relation
  has those that give an old value back; the others, which find no value under the tagged word, destroy
  the invariant of the table (\<open>oid_update_breaks_table\<close> below) and are left out.\<close>

inductive oid_step :: "(nat \<Rightarrow> word_t) \<Rightarrow> oid_roots \<Rightarrow> oid_roots \<Rightarrow> bool" for random where
  allocate: "value \<noteq> NULL_WORD \<Longrightarrow> unat (oid_max s) < 2 ^ 30 \<Longrightarrow>
    oid_allocate random r value s ap = Some (oid, s', r', ap') \<Longrightarrow> oid_step random s s'"
| dispose: "oid_ref oid s = Some v \<Longrightarrow> v \<noteq> NULL_WORD \<Longrightarrow> oid_dispose oid s ap = Some (v', s', ap') \<Longrightarrow> oid_step random s s'"
| update: "oid_update oid v s ap = Some (v', s', ap') \<Longrightarrow> v \<noteq> NULL_WORD \<Longrightarrow> v' \<noteq> NULL_WORD \<Longrightarrow> oid_step random s s'"
| commit: "oid_step random s (oid_end_of_commit_group s)"

inductive oid_reachable :: "(nat \<Rightarrow> word_t) \<Rightarrow> oid_roots \<Rightarrow> bool" for random where
  initial: "oid_reachable random oid_initial"
| step: "oid_reachable random s \<Longrightarrow> oid_step random s s' \<Longrightarrow> oid_reachable random s'"

lemma oid_ok_initial: "oid_ok oid_initial"
proof -
  have "live oid_initial = {}" by (simp add: live_def oid_initial_def trie_lookup_def)
  then show ?thesis unfolding oid_ok_def by (simp add: oid_initial_def start_ok_def)
qed

lemma oid_ref_live:
  assumes "oid_ok s"
  shows "oid_ref oid s = Some v \<and> v \<noteq> NULL_WORD \<longleftrightarrow>
    TAGGED_IS_OID oid \<and> drop_bit 2 oid \<in> live s \<and> v = trie_lookup 15 (oid_map s) (drop_bit 2 oid)"
proof (cases "TAGGED_IS_OID oid \<and> drop_bit 2 oid \<le> oid_max s")
  case True
  then show ?thesis using oid_ref_eq [OF assms, of oid] tagged_number [of oid] by (auto simp: live_def)
next
  case False
  then have "oid_ref oid s = None" by (auto simp: oid_ref_def Let_def)
  moreover have "drop_bit 2 oid \<notin> live s" if "TAGGED_IS_OID oid" using False that assms by (auto simp: oid_ok_def less_imp_le)
  ultimately show ?thesis by auto
qed

lemma tagged_less:
  assumes "oid_ok s" and "TAGGED_IS_OID oid" and "oid \<le> oid_max s"
  shows "unat oid < 2 ^ 30"
proof -
  have "unat oid \<le> 2 ^ 30" using assms by (auto simp: oid_ok_def word_le_nat_alt)
  moreover have "oid \<noteq> 2 ^ 30" using assms(2) by (auto simp: TAGGED_IS_OID_def)
  then have "unat oid \<noteq> 2 ^ 30" by (auto simp: word_unat_eq_iff)
  ultimately show ?thesis by simp
qed

lemma oid_step_ok: "oid_step random s s' \<Longrightarrow> oid_ok s \<Longrightarrow> oid_ok s'"
proof (induction rule: oid_step.induct)
  case (allocate "value" s r ap oid s' r' ap')
  then show ?case using oid_allocate_ok [of s "value" random r ap] by auto
next
  case (dispose oid s v ap v' s' ap')
  then show ?case using oid_ref_live [of s oid v] oid_dispose_ok [of s oid ap] by auto
next
  case (update oid v s ap v' s' ap')
  have oid: "TAGGED_IS_OID oid" "oid \<le> oid_max s" using update(1) by (auto simp: oid_update_def split: if_splits)
  have l: "unat oid < 2 ^ 30" using tagged_less [OF update(4) oid] .
  obtain m where m: "s' = s\<lparr>oid_map := m\<rparr>" "root_ok 15 m" "v' = trie_lookup 15 (oid_map s) oid"
      "\<And>k'. unat k' < 2 ^ 30 \<Longrightarrow> trie_lookup 15 m k' = (if k' = oid then v else trie_lookup 15 (oid_map s) k')"
    using oid_update_ok [OF update(4) oid update(2), of ap] update(1) unfolding take_bit_key [OF l] by auto
  have "live s' = live s" using m update(2,3) l by (auto simp: live_def split: if_splits)
  then show ?case using update(4) m(1,2) unfolding oid_ok_def by (simp add: start_ok_def)
next
  case (commit s)
  have "live (oid_end_of_commit_group s) = live s" by (simp add: live_def oid_end_of_commit_group_def)
  then show ?case using commit unfolding oid_ok_def by (simp add: oid_end_of_commit_group_def start_ok_def)
qed

lemma oid_reachable_ok: "oid_reachable random s \<Longrightarrow> oid_ok s"
  by (induction rule: oid_reachable.induct) (auto simp: oid_ok_initial intro: oid_step_ok)

definition tag :: "word_t \<Rightarrow> word_t" where
  "tag k = push_bit 2 k OR 2"

lemma tag_of_oid: "TAGGED_IS_OID oid \<Longrightarrow> tag (drop_bit 2 oid) = oid"
proof -
  assume "TAGGED_IS_OID oid"
  then have a: "oid AND mask 2 = 2" by (simp add: TAGGED_IS_OID_def mask_eq_exp_minus_1)
  have "push_bit 2 (drop_bit 2 oid) OR (oid AND mask 2) = oid"
    by (rule bit_word_eqI) (auto simp: bit_simps not_less dest!: le_Suc_ex)
  then show ?thesis unfolding a tag_def .
qed

lemma oid_eq_iff: "TAGGED_IS_OID a \<Longrightarrow> TAGGED_IS_OID b \<Longrightarrow> drop_bit 2 a = drop_bit 2 b \<longleftrightarrow> a = b"
  using tag_of_oid by metis

lemma live_oids:
  assumes "root_ok 15 (oid_map s)" and "\<And>k. k \<in> live s \<Longrightarrow> k \<le> oid_max s"
  shows "card {oid. \<exists>v. oid_ref oid s = Some v \<and> v \<noteq> NULL_WORD} = card (live s)"
proof -
  have ref: "(\<exists>v. oid_ref oid s = Some v \<and> v \<noteq> NULL_WORD) \<longleftrightarrow> TAGGED_IS_OID oid \<and> drop_bit 2 oid \<in> live s" for oid
    using assms(2) [of "drop_bit 2 oid"] tagged_number [of oid] triev2_find_ok(1) [OF assms(1), of "drop_bit 2 oid"]
    by (auto simp: oid_ref_def Let_def live_def)
  show ?thesis
  proof (rule bij_betw_same_card [symmetric], rule bij_betw_byWitness [where f' = "drop_bit 2"])
    show "tag ` live s \<subseteq> {oid. \<exists>v. oid_ref oid s = Some v \<and> v \<noteq> NULL_WORD}"
      unfolding ref using oid_tag by (auto simp: live_def tag_def)
    show "drop_bit 2 ` {oid. \<exists>v. oid_ref oid s = Some v \<and> v \<noteq> NULL_WORD} \<subseteq> live s"
      unfolding ref by auto
    show "\<forall>k \<in> live s. drop_bit 2 (tag k) = k" using oid_tag by (simp add: live_def tag_def)
    show "\<forall>oid \<in> {oid. \<exists>v. oid_ref oid s = Some v \<and> v \<noteq> NULL_WORD}. tag (drop_bit 2 oid) = oid"
      unfolding ref using tag_of_oid by auto
  qed
qed

lemma live_oids_ok: "oid_ok s \<Longrightarrow> card {oid. \<exists>v. oid_ref oid s = Some v \<and> v \<noteq> NULL_WORD} = card (live s)"
  by (rule live_oids) (auto simp: oid_ok_def less_imp_le)

text \<open>The state after one allocation.\<close>

lemma first_allocation:
  "\<exists>s r' ap'. oid_allocate random 0 4 oid_initial 0 = Some (2, s, r', ap') \<and> oid_reachable random s \<and>
    oid_ref 2 s = Some 4 \<and> oid_in_use s = 1 \<and> oid_max s = 1"
proof -
  obtain k s r' ap' where s: "oid_allocate random 0 4 oid_initial 0 = Some (push_bit 2 k OR 2, s, r', ap')" "oid_ok s"
      "unat k < 2 ^ 30" "k < oid_max s" "trie_lookup 15 (oid_map s) k = 4"
    using oid_allocate_ok [OF oid_ok_initial, of 4 random 0 0] by (auto simp: oid_initial_def)
  have "oid_step random oid_initial s" by (rule oid_step.allocate [OF _ _ s(1)]) (simp_all add: oid_initial_def)
  then have "oid_reachable random s" by (rule oid_reachable.step [OF oid_reachable.initial])
  moreover have "oid_ref (push_bit 2 k OR 2) s = Some 4"
    using oid_ref_eq [OF s(2) oid_tag(1) [OF s(3)]] oid_tag(2) [OF s(3)] s(4,5) by simp
  moreover have "oid_max s = 1" "push_bit 2 k OR 2 = (2 :: word_t)" "oid_in_use s = 1"
    using s(1) by (auto simp: oid_allocate_def oid_search_def cursor_search_def random_search_def oid_initial_def
      triev2_find_nonexistent_key_def triev2_find_def bind_eq_Some_conv)
  ultimately show ?thesis using s(1) by auto
qed

section \<open>Properties\<close>

text \<open>C28. In every state that allocations, disposals, updates that give an old value back, and ends of commit groups
  reach (with fewer than \<open>2 ^ 30\<close> oids and no \<open>NULL_WORD\<close> as a value), the counter is the number of oids that refer to a value, and each of them
  has a number below \<open>oid_max\<close>; the freelist has no oid twice and none that is in use.\<close>

theorem oid_invariant:
  assumes "oid_reachable random s"
  shows "unat (oid_in_use s) = card {oid. \<exists>v. oid_ref oid s = Some v \<and> v \<noteq> NULL_WORD} \<and>
    (\<forall>oid v. oid_ref oid s = Some v \<and> v \<noteq> NULL_WORD \<longrightarrow>
      drop_bit 2 oid < oid_max s \<and> drop_bit 2 oid \<notin> set (oid_freelist s)) \<and>
    distinct (oid_freelist s) \<and> (\<forall>k \<in> set (oid_freelist s). k < oid_max s)"
proof -
  have s: "oid_ok s" by (rule oid_reachable_ok [OF assms])
  show ?thesis using s oid_ref_live [OF s] unfolding live_oids_ok [OF s] by (auto simp: oid_ok_def)
qed

theorem oid_invariant_witness:
  "\<exists>s. oid_in_use s = 1 \<and> card {oid. \<exists>v. oid_ref oid s = Some v \<and> v \<noteq> NULL_WORD} = 1"
proof -
  obtain s where s: "oid_reachable (\<lambda>_. 0) s" "oid_in_use s = 1" using first_allocation by blast
  from oid_invariant [OF s(1)] have "unat (oid_in_use s) = card {oid. \<exists>v. oid_ref oid s = Some v \<and> v \<noteq> NULL_WORD}" by simp
  then have "oid_in_use s = 1 \<and> card {oid. \<exists>v. oid_ref oid s = Some v \<and> v \<noteq> NULL_WORD} = 1" using s(2) by simp
  then show ?thesis by blast
qed

text \<open>C27. In every state that allocations, disposals, updates that give an old value back, and ends of commit groups
  reach, with \<open>oid_max\<close> below \<open>2 ^ 30\<close> and a value that is not \<open>NULL_WORD\<close>, and whatever \<open>random\<close> gives, an allocation returns: no assertion fails, the new oid
  did not refer to anything before and refers to the value, every other oid refers to what it did
  before, and at most \<open>OID_ALLOCATE_MAX_ALLOCATION\<close> words are allocated.\<close>

theorem oid_allocate_safe:
  assumes "oid_reachable random s" and "unat (oid_max s) < 2 ^ 30" and "value \<noteq> NULL_WORD"
  shows "\<exists>oid s' r' ap'. oid_allocate random r value s ap = Some (oid, s', r', ap') \<and> oid_reachable random s' \<and>
    oid_ref oid s' = Some value \<and> (\<forall>v. oid_ref oid s = Some v \<longrightarrow> v = NULL_WORD) \<and>
    (\<forall>oid' v. oid' \<noteq> oid \<longrightarrow> v \<noteq> NULL_WORD \<longrightarrow> (oid_ref oid' s' = Some v \<longleftrightarrow> oid_ref oid' s = Some v)) \<and>
    ap' \<le> ap + OID_ALLOCATE_MAX_ALLOCATION"
proof -
  have s: "oid_ok s" by (rule oid_reachable_ok [OF assms(1)])
  obtain k s' r' ap' where k: "oid_allocate random r value s ap = Some (push_bit 2 k OR 2, s', r', ap')" "oid_ok s'"
      "unat k < 2 ^ 30" "k \<notin> live s" "k < oid_max s'"
      "\<And>k'. unat k' < 2 ^ 30 \<Longrightarrow> trie_lookup 15 (oid_map s') k' = (if k' = k then value else trie_lookup 15 (oid_map s) k')"
      "ap' \<le> ap + OID_ALLOCATE_MAX_ALLOCATION"
    using oid_allocate_ok [OF s assms(2,3), of random r ap] by blast
  note t = oid_tag [OF k(3)]
  let ?oid = "push_bit 2 k OR 2"
  have "oid_reachable random s'"
    by (rule oid_reachable.step [OF assms(1)]) (rule oid_step.allocate [OF assms(3,2) k(1)])
  moreover have "oid_ref ?oid s' = Some value" using oid_ref_eq [OF k(2) t(1)] t(2) k(3,5,6) by simp
  moreover have "v = NULL_WORD" if "oid_ref ?oid s = Some v" for v
    using that oid_ref_live [OF s, of ?oid v] t(2) k(4) by auto
  moreover have "oid_ref oid' s' = Some v \<longleftrightarrow> oid_ref oid' s = Some v" if "oid' \<noteq> ?oid" "v \<noteq> NULL_WORD" for oid' v
  proof -
    have "drop_bit 2 oid' \<noteq> k" if "TAGGED_IS_OID oid'" using that oid_eq_iff [OF that t(1)] t(2) \<open>oid' \<noteq> ?oid\<close> by auto
    then show ?thesis
      using oid_ref_live [OF s, of oid' v] oid_ref_live [OF k(2), of oid' v] k(6) [OF tagged_number [of oid']] that(2)
      by (auto simp: live_def)
  qed
  ultimately show ?thesis using k(1,7) by blast
qed

theorem oid_allocate_safe_witness:
  "\<exists>oid s' r' ap'. oid_allocate (\<lambda>r. of_nat (7 * r)) 0 4 oid_initial 0 = Some (oid, s', r', ap') \<and> oid_ref oid s' = Some 4"
proof -
  have m: "unat (oid_max oid_initial) < 2 ^ 30" by (simp add: oid_initial_def)
  have "(4 :: word_t) \<noteq> NULL_WORD" by simp
  from oid_allocate_safe [OF oid_reachable.initial m this, of "\<lambda>r. of_nat (7 * r)" 0 0] show ?thesis by blast
qed

text \<open>C29. Disposing of an oid that refers to a value gives that value back; the oid then refers to nothing, every other
  oid refers to what it did before, and at most \<open>OID_DISPOSE_MAX_ALLOCATION\<close> words are allocated.\<close>

theorem oid_dispose_correct:
  assumes "oid_reachable random s" and "oid_ref oid s = Some v" and "v \<noteq> NULL_WORD"
  shows "\<exists>s' ap'. oid_dispose oid s ap = Some (v, s', ap') \<and> oid_reachable random s' \<and> oid_ref oid s' = Some NULL_WORD \<and>
    (\<forall>oid' v'. oid' \<noteq> oid \<longrightarrow> v' \<noteq> NULL_WORD \<longrightarrow> (oid_ref oid' s' = Some v' \<longleftrightarrow> oid_ref oid' s = Some v')) \<and>
    ap' \<le> ap + OID_DISPOSE_MAX_ALLOCATION"
proof -
  have s: "oid_ok s" by (rule oid_reachable_ok [OF assms(1)])
  have o: "TAGGED_IS_OID oid" "drop_bit 2 oid \<in> live s" "v = trie_lookup 15 (oid_map s) (drop_bit 2 oid)"
    using oid_ref_live [OF s, of oid v] assms(2,3) by auto
  obtain s' ap' where d: "oid_dispose oid s ap = Some (v, s', ap')" "oid_ok s'" "oid_max s' = oid_max s"
      "\<And>k'. unat k' < 2 ^ 30 \<Longrightarrow>
        trie_lookup 15 (oid_map s') k' = (if k' = drop_bit 2 oid then NULL_WORD else trie_lookup 15 (oid_map s) k')"
      "ap' \<le> ap + OID_DISPOSE_MAX_ALLOCATION"
    using oid_dispose_ok [OF s o(1,2), of ap] unfolding o(3) by blast
  have "oid_reachable random s'"
    by (rule oid_reachable.step [OF assms(1)]) (rule oid_step.dispose [OF assms(2,3) d(1)])
  moreover have "drop_bit 2 oid \<le> oid_max s'" using o(2) s d(3) by (auto simp: oid_ok_def less_imp_le)
  then have "oid_ref oid s' = Some NULL_WORD"
    using oid_ref_eq [OF d(2) o(1)] d(4) [OF tagged_number [of oid]] by simp
  moreover have "oid_ref oid' s' = Some v' \<longleftrightarrow> oid_ref oid' s = Some v'" if "oid' \<noteq> oid" "v' \<noteq> NULL_WORD" for oid' v'
    using oid_ref_live [OF s, of oid' v'] oid_ref_live [OF d(2), of oid' v'] d(4) [OF tagged_number [of oid']]
      oid_eq_iff [OF _ o(1), of oid'] that by (auto simp: live_def)
  ultimately show ?thesis using d(1,5) by blast
qed

theorem oid_dispose_correct_witness:
  "\<exists>oid s s' ap'. oid_ref oid s = Some 4 \<and> oid_dispose oid s 0 = Some (4, s', ap') \<and> oid_ref oid s' = Some NULL_WORD"
proof -
  obtain s where s: "oid_reachable (\<lambda>_. 0) s" "oid_ref 2 s = Some 4" using first_allocation by blast
  have "(4 :: word_t) \<noteq> NULL_WORD" by simp
  from oid_dispose_correct [OF s this, of 0] s(2) show ?thesis by blast
qed

text \<open>C30. \<open>oid_update\<close> uses the tagged word where the number of the oid is meant.  For an oid above \<open>oid_max\<close>, as a tagged word, an
  assertion fails; otherwise the oid still refers to its old value, and the new value has been
  given to another oid, the one with the tagged word as its number.\<close>

theorem oid_update_misses:
  assumes "oid_reachable random s" and "oid_ref oid s = Some v" and "v \<noteq> NULL_WORD" and "v' \<noteq> NULL_WORD"
  shows "if oid \<le> oid_max s
    then \<exists>old s' ap'. oid_update oid v' s ap = Some (old, s', ap') \<and> oid_ref oid s' = Some v \<and> oid_ref (push_bit 2 oid OR 2) s' = Some v'
    else oid_update oid v' s ap = None"
proof (cases "oid \<le> oid_max s")
  case False
  then show ?thesis by (simp add: oid_update_def)
next
  case True
  have s: "oid_ok s" by (rule oid_reachable_ok [OF assms(1)])
  have o: "TAGGED_IS_OID oid" "drop_bit 2 oid \<in> live s" "v = trie_lookup 15 (oid_map s) (drop_bit 2 oid)"
    using oid_ref_live [OF s, of oid v] assms(2,3) by auto
  have l: "unat oid < 2 ^ 30" by (rule tagged_less [OF s o(1) True])
  have "oid \<noteq> 0" using o(1) by (auto simp: TAGGED_IS_OID_def)
  then have "unat (drop_bit 2 oid) < unat oid" by (simp add: unat_drop unat_gt_0)
  then have ne: "drop_bit 2 oid \<noteq> oid" by auto
  obtain s' ap' where u: "oid_update oid v' s ap = Some (trie_lookup 15 (oid_map s) oid, s', ap')" "root_ok 15 (oid_map s')"
      "oid_max s' = oid_max s"
      "\<And>k'. unat k' < 2 ^ 30 \<Longrightarrow> trie_lookup 15 (oid_map s') k' = (if k' = oid then v' else trie_lookup 15 (oid_map s) k')"
    using oid_update_ok [OF s o(1) True assms(4), of ap] unfolding take_bit_key [OF l] by auto
  have ref: "oid_ref oid' s' = Some (trie_lookup 15 (oid_map s') (drop_bit 2 oid'))"
    if "TAGGED_IS_OID oid'" "drop_bit 2 oid' \<le> oid_max s" for oid'
    using that triev2_find_ok(1) [OF u(2)] u(3) by (simp add: oid_ref_def Let_def)
  have "drop_bit 2 oid \<le> oid_max s" using o(2) s by (auto simp: oid_ok_def less_imp_le)
  then have "oid_ref oid s' = Some v" using ref [OF o(1)] u(4) [OF tagged_number [of oid]] ne o(3) by simp
  moreover have "oid_ref (push_bit 2 oid OR 2) s' = Some v'"
    using ref [OF oid_tag(1) [OF l]] oid_tag(2) [OF l] u(4) [OF l] True by simp
  ultimately show ?thesis using u(1) True by auto
qed

theorem oid_update_misses_witness:
  "\<exists>oid s. oid_ref oid s = Some 4 \<and> oid_update oid 8 s 0 = None"
proof -
  obtain s where s: "oid_reachable (\<lambda>_. 0) s" "oid_ref 2 s = Some 4" "oid_max s = 1" using first_allocation by blast
  have "\<not> 2 \<le> oid_max s" using s(3) by (simp add: word_le_nat_alt)
  moreover have "(4 :: word_t) \<noteq> NULL_WORD" "(8 :: word_t) \<noteq> NULL_WORD" by simp_all
  ultimately show ?thesis using oid_update_misses [OF s(1,2), of 8 0] s(2) by auto
qed

text \<open>C31. An update that finds no value under the tagged word destroys the table: afterwards one oid more refers to a
  value than the counter says, and when the tagged word is the number at the head of the freelist, the
  assertion of the next allocation fails.\<close>

theorem oid_update_breaks_table:
  assumes "oid_reachable random s" and "oid_update oid v' s ap = Some (NULL_WORD, s', ap')" and "v' \<noteq> NULL_WORD"
  shows "card {oid. \<exists>v. oid_ref oid s' = Some v \<and> v \<noteq> NULL_WORD} = Suc (unat (oid_in_use s')) \<and>
    (\<forall>freelist. oid_freelist s' = oid # freelist \<longrightarrow> oid_allocate random r d s' ap' = None)"
proof -
  have s: "oid_ok s" by (rule oid_reachable_ok [OF assms(1)])
  have oid: "TAGGED_IS_OID oid" "oid \<le> oid_max s" using assms(2) by (auto simp: oid_update_def split: if_splits)
  have l: "unat oid < 2 ^ 30" by (rule tagged_less [OF s oid])
  obtain m where m: "s' = s\<lparr>oid_map := m\<rparr>" "root_ok 15 m" "trie_lookup 15 (oid_map s) oid = NULL_WORD"
      "\<And>k'. unat k' < 2 ^ 30 \<Longrightarrow> trie_lookup 15 m k' = (if k' = oid then v' else trie_lookup 15 (oid_map s) k')"
    using oid_update_ok [OF s oid assms(3), of ap] assms(2) unfolding take_bit_key [OF l] by auto
  have live: "live s' = insert oid (live s)" "oid \<notin> live s" using m l assms(3) by (auto simp: live_def split: if_splits)
  have "card {oid. \<exists>v. oid_ref oid s' = Some v \<and> v \<noteq> NULL_WORD} = card (live s')"
    by (rule live_oids) (use s m oid live in \<open>auto simp: oid_ok_def less_imp_le\<close>)
  moreover have "card (live s') = Suc (unat (oid_in_use s'))"
    using s live m(1) by (simp add: oid_ok_def)
  moreover have "oid_allocate random r d s' ap' = None" if "oid_freelist s' = oid # freelist" for freelist
  proof -
    have "triev2_find m oid 30 = Some v'" using triev2_find_ok(1) [OF m(2), of oid] m(4) [OF l] by simp
    then show ?thesis using that m(1) assms(3) by (simp add: oid_allocate_def oid_search_def)
  qed
  ultimately show ?thesis by simp
qed

text \<open>Three oids are allocated and the third one is disposed of; then the value of the first one, the tagged word 2,
  is updated.\<close>

theorem oid_update_breaks_table_witness:
  "\<exists>s s' ap'. oid_reachable (\<lambda>_. 0) s \<and> oid_ref 2 s = Some 4 \<and> oid_update 2 8 s 0 = Some (NULL_WORD, s', ap') \<and>
    card {oid. \<exists>v. oid_ref oid s' = Some v \<and> v \<noteq> NULL_WORD} = Suc (unat (oid_in_use s')) \<and>
    oid_allocate (\<lambda>_. 0) 0 4 s' ap' = None"
proof -
  let ?s1 = "\<lparr>oid_map = Some (Node CELL_trie1 10485760 [Node CELL_trie1 3145728 [Data 4]]), oid_freelist = [],
    oid_in_use = 1, oid_max = 1, oid_allocation_cursor = 0, oid_prev_random = 0\<rparr>"
  let ?s2 = "\<lparr>oid_map = Some (Node CELL_trie1 10485760 [Node CELL_trie12 3145728 [Data 4, Data 4]]), oid_freelist = [],
    oid_in_use = 2, oid_max = 2, oid_allocation_cursor = 0, oid_prev_random = 0xFFFFFFFF\<rparr>"
  let ?s3 = "\<lparr>oid_map = Some (Node CELL_trie1 10485760 [Node CELL_trie123 3145728 [Data 4, Data 4, Data 4]]),
    oid_freelist = [], oid_in_use = 3, oid_max = 3, oid_allocation_cursor = 0, oid_prev_random = 0xFFFFFFFF\<rparr>"
  let ?s4 = "\<lparr>oid_map = Some (Node CELL_trie1 10485760 [Node CELL_trie12 3145728 [Data 4, Data 4]]),
    oid_freelist = [2], oid_in_use = 2, oid_max = 3, oid_allocation_cursor = 0, oid_prev_random = 0xFFFFFFFF\<rparr>"
  let ?s5 = "\<lparr>oid_map = Some (Node CELL_trie1 10485760 [Node CELL_trie123 3145728 [Data 4, Data 4, Data 8]]),
    oid_freelist = [2], oid_in_use = 2, oid_max = 3, oid_allocation_cursor = 0, oid_prev_random = 0xFFFFFFFF\<rparr>"
  let ?r = "\<lambda>_. 0"
  have "map_option (\<lambda>(oid, s, r, ap). (oid, s)) (oid_allocate ?r 0 4 oid_initial 0) = Some (2, ?s1)" by code_simp
  then obtain r1 ap1 where a1: "oid_allocate ?r 0 4 oid_initial 0 = Some (2, ?s1, r1, ap1)" by auto
  have "map_option (\<lambda>(oid, s, r, ap). (oid, s)) (oid_allocate ?r 0 4 ?s1 0) = Some (6, ?s2)" by code_simp
  then obtain r2 ap2 where a2: "oid_allocate ?r 0 4 ?s1 0 = Some (6, ?s2, r2, ap2)" by auto
  have "map_option (\<lambda>(oid, s, r, ap). (oid, s)) (oid_allocate ?r 0 4 ?s2 0) = Some (10, ?s3)" by code_simp
  then obtain r3 ap3 where a3: "oid_allocate ?r 0 4 ?s2 0 = Some (10, ?s3, r3, ap3)" by auto
  have d: "oid_ref 10 ?s3 = Some 4" "oid_dispose 10 ?s3 0 = Some (4, ?s4, 8)" by code_simp+
  have u: "oid_ref 2 ?s4 = Some 4" "oid_update 2 8 ?s4 0 = Some (NULL_WORD, ?s5, 6)" by code_simp+
  have v: "(4 :: word_t) \<noteq> NULL_WORD" "(8 :: word_t) \<noteq> NULL_WORD" by simp_all
  have "oid_step ?r oid_initial ?s1" by (rule oid_step.allocate [OF v(1) _ a1]) (simp add: oid_initial_def)
  moreover have "oid_step ?r ?s1 ?s2" by (rule oid_step.allocate [OF v(1) _ a2]) simp
  moreover have "oid_step ?r ?s2 ?s3" by (rule oid_step.allocate [OF v(1) _ a3]) simp
  moreover have "oid_step ?r ?s3 ?s4" by (rule oid_step.dispose [OF d(1) v(1) d(2)])
  ultimately have reach: "oid_reachable ?r ?s4" using oid_reachable.intros by metis
  from oid_update_breaks_table [OF reach u(2) v(2), where r = 0 and d = 4] u reach show ?thesis by auto
qed

end
