(* ===== verification/Shtring.thy ===== *)
theory Shtring
  imports Bitops
begin

text \<open>
  Shtrings (\<^verbatim>\<open>shtring.c\<close>, \<^verbatim>\<open>shtring_internal.c\<close>): immutable strings as trees of chunks of at most 32 bytes.
  This theory holds the cells, their checks, the building blocks of \<^verbatim>\<open>shtring_internal.c\<close> and
  \<^verbatim>\<open>shtring_create\<close>.  A chunk holds its bytes in words, the first byte of a word in its highest bits.

  Lengths are words, since catenation shares subtrees and reaches any length; the height of a tree is
  a natural number, because every level takes a cell.  \<open>text\<close> is the abstraction of a tree to its bytes.
  The C array of an operation is the list of its bytes.  \<open>aligned\<close> says whether the address of the
  caller's pointer variable is a multiple of four, which is what \<^verbatim>\<open>IS_ALIGNED(cstr, word_t)\<close> tests, and
  the byte order is little endian.
\<close>

section \<open>Cells\<close>

type_synonym byte = "8 word"

datatype shtring_tree =
    CELL_shtring_chunk word_t "word_t list"
  | CELL_shtring_node word_t nat "shtring_tree list"

record shtring =
  SHTRING_OFFSET :: word_t
  SHTRING_LENGTH :: word_t
  SHTRING_HEIGHT :: nat
  SHTRING_CHUNK_TREE :: "shtring_tree option"

definition SHTRING_WORDS :: nat where "SHTRING_WORDS = 5"

definition SHTRING_CHUNK_MAX :: nat where "SHTRING_CHUNK_MAX = 32"

definition MAX_SHTRING_NODE_CHILDREN :: nat where "MAX_SHTRING_NODE_CHILDREN = 8"

definition SHTRING_CHUNK_WORDS_NEEDED :: "nat \<Rightarrow> nat" where
  "SHTRING_CHUNK_WORDS_NEEDED n = 1 + (n + 4 - 1) div 4"

definition SHTRING_NODE_WORDS_NEEDED :: "nat \<Rightarrow> nat" where
  "SHTRING_NODE_WORDS_NEEDED n = 3 + n"

definition shtring_idiv :: "word_t \<Rightarrow> word_t \<Rightarrow> word_t" where
  "shtring_idiv a b = (a + b - 1) div b"

fun tree_length :: "shtring_tree \<Rightarrow> word_t" where
  "tree_length (CELL_shtring_chunk n ws) = n"
| "tree_length (CELL_shtring_node n h ts) = n"

definition shtring_tree_length :: "shtring_tree option \<Rightarrow> word_t" where
  "shtring_tree_length p = (case p of None \<Rightarrow> 0 | Some t \<Rightarrow> tree_length t)"

fun tree_height :: "shtring_tree \<Rightarrow> nat" where
  "tree_height (CELL_shtring_chunk n ws) = 1"
| "tree_height (CELL_shtring_node n h ts) = h"

definition shtring_tree_height :: "shtring_tree option \<Rightarrow> nat" where
  "shtring_tree_height p = (case p of None \<Rightarrow> 0 | Some t \<Rightarrow> tree_height t)"

section \<open>Checks\<close>

fun shtring_check_chunk :: "shtring_tree \<Rightarrow> bool" where
  "shtring_check_chunk (CELL_shtring_chunk n ws) \<longleftrightarrow> \<not> (n = 0 \<or> n > of_nat SHTRING_CHUNK_MAX)"
| "shtring_check_chunk (CELL_shtring_node n h ts) \<longleftrightarrow> False"

fun shtring_check_node :: "shtring_tree \<Rightarrow> bool" where
  "shtring_check_node (CELL_shtring_chunk n ws) \<longleftrightarrow> False"
| "shtring_check_node (CELL_shtring_node n h ts) \<longleftrightarrow>
     \<not> (length ts = 0 \<or> length ts > MAX_SHTRING_NODE_CHILDREN \<or> h < 2) \<and>
     (if h = 2 then \<forall>t \<in> set ts. shtring_check_chunk t
      else \<forall>t \<in> set ts. shtring_check_node t \<and> h = tree_height t + 1) \<and>
     sum_list (map tree_length ts) = n"

definition shtring_check_shtring :: "shtring \<Rightarrow> bool" where
  "shtring_check_shtring s =
    (let h = SHTRING_HEIGHT s in
     case SHTRING_CHUNK_TREE s of
       None \<Rightarrow> h = 0 \<and> \<not> (SHTRING_OFFSET s > 0 \<or> SHTRING_OFFSET s + SHTRING_LENGTH s > 0)
     | Some t \<Rightarrow> h \<noteq> 0 \<and> (if h = 1 then shtring_check_chunk t else shtring_check_node t \<and> h = tree_height t) \<and>
         \<not> (SHTRING_OFFSET s > tree_length t \<or> SHTRING_OFFSET s + SHTRING_LENGTH s > tree_length t))"

section \<open>New cells\<close>

text \<open>
  \<^verbatim>\<open>shtring_new_node\<close> makes a node with room for a number of children; \<^verbatim>\<open>shtring_add_child\<close> fills them
  in from the left.  \<open>node_cell\<close> is the node when all of them are there.
\<close>

record unfinished_node =
  new_children :: nat
  new_length :: word_t
  new_height :: nat
  new_kids :: "shtring_tree list"

definition shtring_new_node :: "nat \<Rightarrow> nat \<Rightarrow> nat \<Rightarrow> (unfinished_node \<times> nat) option" where
  "shtring_new_node children height ap =
    (if 0 < children \<and> 1 < height
     then Some (\<lparr>new_children = children, new_length = 0, new_height = height, new_kids = []\<rparr>, ap + 3 + children)
     else None)"

definition shtring_add_child :: "unfinished_node \<Rightarrow> shtring_tree \<Rightarrow> word_t \<Rightarrow> unfinished_node option" where
  "shtring_add_child p kid len =
    (if new_height p > 1 \<and> tree_height kid + 1 = new_height p \<and> length (new_kids p) + 1 \<le> new_children p
     then Some (p\<lparr>new_kids := new_kids p @ [kid], new_length := new_length p + len\<rparr>)
     else None)"

primrec add_kids :: "unfinished_node \<Rightarrow> shtring_tree list \<Rightarrow> unfinished_node option" where
  "add_kids q [] = Some q"
| "add_kids q (kid # kids) = shtring_add_child q kid (tree_length kid) \<bind> (\<lambda>q. add_kids q kids)"

definition shtring_add_children :: "unfinished_node \<Rightarrow> shtring_tree list \<Rightarrow> nat \<Rightarrow> nat \<Rightarrow> unfinished_node option" where
  "shtring_add_children q kids i j =
    (if i \<le> j \<and> 1 \<le> i \<and> j \<le> length kids then add_kids q (take (j - i + 1) (drop (i - 1) kids)) else None)"

definition node_cell :: "unfinished_node \<Rightarrow> shtring_tree option" where
  "node_cell p = (if length (new_kids p) = new_children p
     then Some (CELL_shtring_node (new_length p) (new_height p) (new_kids p)) else None)"

definition shtring_new_shtring :: "word_t \<Rightarrow> word_t \<Rightarrow> nat \<Rightarrow> shtring_tree option \<Rightarrow> nat \<Rightarrow> (shtring \<times> nat) option" where
  "shtring_new_shtring offset len height root ap =
    (if height = shtring_tree_height root \<and> offset \<le> shtring_tree_length root \<and> offset + len \<le> shtring_tree_length root
     then Some (\<lparr>SHTRING_OFFSET = offset, SHTRING_LENGTH = len, SHTRING_HEIGHT = height, SHTRING_CHUNK_TREE = root\<rparr>,
       ap + SHTRING_WORDS)
     else None)"

section \<open>Building a tree\<close>

definition big_endian :: "byte \<Rightarrow> byte \<Rightarrow> byte \<Rightarrow> byte \<Rightarrow> word_t" where
  "big_endian a b c d = push_bit 24 (ucast a) OR push_bit 16 (ucast b) OR push_bit 8 (ucast c) OR ucast d"

text \<open>What a little endian machine reads from four bytes.\<close>

definition load_word :: "byte \<Rightarrow> byte \<Rightarrow> byte \<Rightarrow> byte \<Rightarrow> word_t" where
  "load_word a b c d = big_endian d c b a"

fun byte_loop :: "byte list \<Rightarrow> word_t list \<times> byte list" where
  "byte_loop (a # b # c # d # cs) = (let (ws, rest) = byte_loop cs in (big_endian a b c d # ws, rest))"
| "byte_loop cs = ([], cs)"

fun swap_loop :: "nat \<Rightarrow> byte list \<Rightarrow> (word_t list \<times> byte list) option" where
  "swap_loop 0 cs = Some ([], cs)"
| "swap_loop (Suc loops) (a # b # c # d # cs) =
     do { (ws, rest) \<leftarrow> swap_loop loops cs; Some (swap_bytes (load_word a b c d) # ws, rest) }"
| "swap_loop (Suc loops) cs = None"

fun unrolled_loop :: "nat \<Rightarrow> byte list \<Rightarrow> (word_t list \<times> byte list) option" where
  "unrolled_loop loops cs =
    (if loops > 8 then do {
       (ws, cs) \<leftarrow> swap_loop 8 cs;
       (ws', cs) \<leftarrow> unrolled_loop (loops - 8) cs;
       Some (ws @ ws', cs) }
     else swap_loop loops cs)"

fun rest_word :: "byte list \<Rightarrow> word_t list" where
  "rest_word [a, b, c] = [push_bit 24 (ucast a) OR push_bit 16 (ucast b) OR push_bit 8 (ucast c)]"
| "rest_word [a, b] = [push_bit 24 (ucast a) OR push_bit 16 (ucast b)]"
| "rest_word [a] = [push_bit 24 (ucast a)]"
| "rest_word cs = []"

definition build_chunk :: "bool \<Rightarrow> byte list \<Rightarrow> nat \<Rightarrow> (shtring_tree \<times> byte list \<times> nat) option" where
  "build_chunk aligned cstr ap =
    (if length cstr > 0 then do {
       let n = min (length cstr) SHTRING_CHUNK_MAX;
       (ws, rest) \<leftarrow> (if n \<ge> 4 \<and> aligned then unrolled_loop (n div 4) (take n cstr) else Some (byte_loop (take n cstr)));
       Some (CELL_shtring_chunk (of_nat n) (ws @ rest_word rest), drop n cstr, ap + SHTRING_CHUNK_WORDS_NEEDED n) }
     else None)"

text \<open>The loop of \<^verbatim>\<open>build_tree\<close> that fills the table of children.\<close>

primrec build_children :: "(byte list \<Rightarrow> nat \<Rightarrow> (shtring_tree \<times> byte list \<times> nat) option) \<Rightarrow> nat \<Rightarrow>
    byte list \<Rightarrow> nat \<Rightarrow> (shtring_tree list \<times> byte list \<times> nat) option" where
  "build_children build 0 cstr ap = Some ([], cstr, ap)"
| "build_children build (Suc i) cstr ap =
    (if length cstr > 0 then do {
       (t, cstr, ap) \<leftarrow> build cstr ap;
       (ts, cstr, ap) \<leftarrow> build_children build i cstr ap;
       Some (t # ts, cstr, ap) }
     else Some ([], cstr, ap))"

fun build_tree :: "bool \<Rightarrow> nat \<Rightarrow> byte list \<Rightarrow> nat \<Rightarrow> (shtring_tree \<times> byte list \<times> nat) option" where
  "build_tree aligned 0 cstr ap = None"
| "build_tree aligned (Suc 0) cstr ap = build_chunk aligned cstr ap"
| "build_tree aligned (Suc (Suc h)) cstr ap =
    do {
      (tab, cstr, ap) \<leftarrow> build_children (build_tree aligned (Suc h)) MAX_SHTRING_NODE_CHILDREN cstr ap;
      (p, ap) \<leftarrow> shtring_new_node (length tab) (Suc (Suc h)) ap;
      p \<leftarrow> add_kids p tab;
      p \<leftarrow> node_cell p;
      Some (p, cstr, ap) }"

text \<open>Height 0 gives \<^verbatim>\<open>NULL_PTR\<close>, which the calls of the other heights never return.\<close>

definition build_root :: "bool \<Rightarrow> nat \<Rightarrow> byte list \<Rightarrow> nat \<Rightarrow> (shtring_tree option \<times> byte list \<times> nat) option" where
  "build_root aligned height cstr ap =
    (if height = 0 then if length cstr = 0 then Some (None, cstr, ap) else None
     else do { (t, cstr, ap) \<leftarrow> build_tree aligned height cstr ap; Some (Some t, cstr, ap) })"

lemma idiv_less:
  assumes "i > 1"
  shows "unat (shtring_idiv i 8) < unat i"
proof -
  have i: "1 < unat i" using assms by (simp add: word_less_nat_alt)
  have e: "unat (i + 8 - 1) = (unat i + 7) mod 2 ^ 32"
  proof -
    have "i + 8 - 1 = i + 7" "unat (7 :: word_t) = 7" by simp_all
    then show ?thesis using unat_word_ariths(1) [of i 7] by (simp only:) simp
  qed
  have "(unat i + 7) mod 2 ^ 32 div 8 < unat i"
  proof (cases "unat i + 7 < 2 ^ 32")
    case True
    then show ?thesis using i by simp
  next
    case False
    have "unat i < 2 ^ 32" using unsigned_less [of i] by simp
    then have "(unat i + 7) mod 2 ^ 32 = unat i + 7 - 2 ^ 32" using False by (subst mod_if) (simp add: mod_if)
    then show ?thesis using \<open>unat i < 2 ^ 32\<close> i by linarith
  qed
  then show ?thesis unfolding shtring_idiv_def unat_div e by simp
qed

function tree_size_loop :: "word_t \<Rightarrow> nat \<Rightarrow> word_t \<Rightarrow> nat \<times> word_t" where
  "tree_size_loop i height words =
    (if i > 1 then
       let n = shtring_idiv i (of_nat MAX_SHTRING_NODE_CHILDREN);
           words = words + (i + n * 3)
       in tree_size_loop n (height + 1) words
     else (height, words))"
  by pat_completeness auto
termination
  by (relation "measure (\<lambda>(i, height, words). unat i)") (simp_all add: MAX_SHTRING_NODE_CHILDREN_def idiv_less)

declare tree_size_loop.simps [simp del]

definition shtring_tree_size :: "word_t \<Rightarrow> word_t \<times> nat \<times> word_t" where
  "shtring_tree_size len =
    (let chunks = shtring_idiv len (of_nat SHTRING_CHUNK_MAX);
         words = shtring_idiv len 4 + chunks;
         height = (if chunks > 0 then 1 else 0);
         (height, words) = tree_size_loop chunks height words
     in (chunks, height, words + of_nat SHTRING_WORDS))"

definition shtring_create_max_allocation :: "word_t \<Rightarrow> word_t" where
  "shtring_create_max_allocation len = (let (chunks, height, total) = shtring_tree_size len in total)"

text \<open>The result \<^verbatim>\<open>-1\<close> is \<open>Some (None, ap)\<close>.\<close>

definition shtring_create :: "word_t \<Rightarrow> bool \<Rightarrow> byte list \<Rightarrow> nat \<Rightarrow> (shtring option \<times> nat) option" where
  "shtring_create first_generation_size aligned cstr ap =
    (if length cstr > unat (first_generation_size div 2) then Some (None, ap)
     else do {
       let (chunks, height, total) = shtring_tree_size (of_nat (length cstr));
       (root, rest, ap) \<leftarrow> build_root aligned height cstr ap;
       (shtr, ap) \<leftarrow> shtring_new_shtring 0 (of_nat (length cstr)) height root ap;
       Some (Some shtr, ap) })"

section \<open>The bytes of a tree\<close>

lemma unat_fits: "unat w < 2 ^ 32" for w :: word_t
  by (rule order_less_le_trans [OF unsigned_less]) simp

lemma unat_plus: "unat a + unat b < 2 ^ 32 \<Longrightarrow> unat (a + b) = unat a + unat b" for a b :: word_t
  by (simp add: unat_add_lem [THEN iffD1])

definition word_bytes :: "word_t \<Rightarrow> byte list" where
  "word_bytes w = [ucast (drop_bit 24 w), ucast (drop_bit 16 w), ucast (drop_bit 8 w), ucast w]"

definition all_bytes :: "word_t list \<Rightarrow> byte list" where
  "all_bytes ws = concat (map word_bytes ws)"

fun text_of :: "shtring_tree \<Rightarrow> byte list" where
  "text_of (CELL_shtring_chunk n ws) = take (unat n) (all_bytes ws)"
| "text_of (CELL_shtring_node n h ts) = concat (map text_of ts)"

definition tree_text :: "shtring_tree option \<Rightarrow> byte list" where
  "tree_text p = (case p of None \<Rightarrow> [] | Some t \<Rightarrow> text_of t)"

definition shtring_text :: "shtring \<Rightarrow> byte list" where
  "shtring_text s = take (unat (SHTRING_LENGTH s)) (drop (unat (SHTRING_OFFSET s)) (tree_text (SHTRING_CHUNK_TREE s)))"

text \<open>The trees of height \<open>h\<close>: all chunks are at the lowest level, and the lengths are those of the text.\<close>

fun tree_ok :: "nat \<Rightarrow> shtring_tree \<Rightarrow> bool" where
  "tree_ok h (CELL_shtring_chunk n ws) \<longleftrightarrow> h = 1 \<and> 0 < unat n \<and> unat n \<le> 32 \<and> length ws = (unat n + 3) div 4"
| "tree_ok h (CELL_shtring_node n h' ts) \<longleftrightarrow> h' = h \<and> 2 \<le> h \<and> ts \<noteq> [] \<and> length ts \<le> 8 \<and>
     (\<forall>t \<in> set ts. tree_ok (h - 1) t) \<and> unat n = length (concat (map text_of ts))"

definition shtring_ok :: "shtring \<Rightarrow> bool" where
  "shtring_ok s \<longleftrightarrow> (case SHTRING_CHUNK_TREE s of
      None \<Rightarrow> SHTRING_HEIGHT s = 0
    | Some t \<Rightarrow> tree_ok (SHTRING_HEIGHT s) t) \<and>
    unat (SHTRING_OFFSET s) + unat (SHTRING_LENGTH s) \<le> length (tree_text (SHTRING_CHUNK_TREE s))"

lemma length_word_bytes [simp]: "length (word_bytes w) = 4"
  by (simp add: word_bytes_def)

lemma all_bytes_simps [simp]:
  "all_bytes [] = []" "all_bytes (w # ws) = word_bytes w @ all_bytes ws"
  "all_bytes (ws @ ws') = all_bytes ws @ all_bytes ws'" "length (all_bytes ws) = 4 * length ws"
  by (induction ws) (simp_all add: all_bytes_def)

lemma tree_text_simps [simp]: "tree_text None = []" "tree_text (Some t) = text_of t"
  by (simp_all add: tree_text_def)

lemma option_tree_simps [simp]:
  "shtring_tree_length None = 0" "shtring_tree_length (Some t) = tree_length t"
  "shtring_tree_height None = 0" "shtring_tree_height (Some t) = tree_height t"
  by (simp_all add: shtring_tree_length_def shtring_tree_height_def)

lemma tree_ok_height: "tree_ok h t \<Longrightarrow> tree_height t = h"
  by (cases t) auto

lemma tree_ok_pos: "tree_ok h t \<Longrightarrow> 0 < h"
  by (cases t) auto

lemma length_text: "tree_ok h t \<Longrightarrow> length (text_of t) = unat (tree_length t)"
  by (cases t) (auto simp: min_def)

lemma text_fits: "tree_ok h t \<Longrightarrow> length (text_of t) < 2 ^ 32"
  using length_text [of h t] unsigned_less [of "tree_length t"] by simp

lemma tree_length_text: "tree_ok h t \<Longrightarrow> tree_length t = of_nat (length (text_of t))"
  using length_text [of h t] by simp

lemma text_pos: "tree_ok h t \<Longrightarrow> text_of t \<noteq> []"
proof (induction h arbitrary: t)
  case 0
  then show ?case using tree_ok_pos by fastforce
next
  case (Suc h)
  show ?case
  proof (cases t)
    case (CELL_shtring_chunk n ws)
    then have "length (text_of t) \<noteq> 0" using Suc.prems unfolding length_text [OF Suc.prems] by simp
    then show ?thesis by (simp only: length_0_conv not_False_eq_True)
  next
    case (CELL_shtring_node n h' ts)
    obtain t' where "t' \<in> set ts" using Suc.prems CELL_shtring_node by (cases ts) auto
    then show ?thesis using Suc.IH [of t'] Suc.prems CELL_shtring_node by auto
  qed
qed

lemma tree_length_pos: "tree_ok h t \<Longrightarrow> 0 < unat (tree_length t)"
  using text_pos [of h t] by (simp add: length_text [symmetric])

lemma chunk_cases:
  assumes "tree_ok (Suc 0) t"
  obtains n ws where "t = CELL_shtring_chunk n ws" "0 < unat n" "unat n \<le> 32" "length ws = (unat n + 3) div 4"
  using assms by (cases t) auto

lemma node_cases:
  assumes "tree_ok (Suc (Suc h)) t"
  obtains n ts where "t = CELL_shtring_node n (Suc (Suc h)) ts" "ts \<noteq> []" "length ts \<le> 8"
    "\<forall>t \<in> set ts. tree_ok (Suc h) t" "unat n = length (concat (map text_of ts))"
  using assms by (cases t) auto

lemma sum_lengths:
  assumes "\<forall>t \<in> set ts. tree_ok h t"
  shows "sum_list (map tree_length ts) = of_nat (length (concat (map text_of ts)))"
  using assms by (induction ts) (auto simp: tree_length_text)

section \<open>The checks accept the trees of the invariant\<close>

lemma check_chunk_ok: "tree_ok 1 t \<Longrightarrow> shtring_check_chunk t"
  by (cases t) (auto simp: SHTRING_CHUNK_MAX_def word_le_nat_alt not_less unat_eq_0)

lemma check_node_ok: "tree_ok h t \<Longrightarrow> 2 \<le> h \<Longrightarrow> shtring_check_node t"
proof (induction h arbitrary: t)
  case 0
  then show ?case by simp
next
  case (Suc h)
  then obtain h' where h': "h = Suc h'" by (cases h) auto
  obtain n ts where t: "t = CELL_shtring_node n (Suc h) ts" "ts \<noteq> []" "length ts \<le> 8"
      "\<forall>t \<in> set ts. tree_ok h t" "unat n = length (concat (map text_of ts))"
    using node_cases [of h' t] Suc.prems(1) unfolding h' by blast
  have n: "n = of_nat (length (concat (map text_of ts)))" unfolding t(5) [symmetric] by simp
  have kids: "\<forall>t \<in> set ts. shtring_check_chunk t" if "h = 1" using t(4) check_chunk_ok that by auto
  have kids': "\<forall>t \<in> set ts. shtring_check_node t \<and> h = tree_height t" if "h \<noteq> 1"
    using t(4) Suc.IH tree_ok_height that h' by fastforce
  have sum: "sum_list (map tree_length ts) = n" unfolding n by (rule sum_lengths [OF t(4)])
  show ?case
    unfolding t(1) shtring_check_node.simps sum using t(2,3) kids kids' h' by (auto simp: MAX_SHTRING_NODE_CHILDREN_def)
qed

lemma check_shtring_ok:
  assumes "shtring_ok s"
  shows "shtring_check_shtring s"
proof (cases "SHTRING_CHUNK_TREE s")
  case None
  then have "unat (SHTRING_OFFSET s) = 0" "unat (SHTRING_LENGTH s) = 0" using assms by (auto simp: shtring_ok_def)
  then have "SHTRING_OFFSET s = 0" "SHTRING_LENGTH s = 0" by (simp_all add: unat_eq_0)
  then show ?thesis using assms None by (simp add: shtring_ok_def shtring_check_shtring_def)
next
  case (Some t)
  have ok: "tree_ok (SHTRING_HEIGHT s) t" using assms Some by (simp add: shtring_ok_def)
  have sum: "unat (SHTRING_OFFSET s) + unat (SHTRING_LENGTH s) \<le> unat (tree_length t)"
    using assms Some length_text [OF ok] by (simp add: shtring_ok_def)
  then have "unat (SHTRING_OFFSET s + SHTRING_LENGTH s) = unat (SHTRING_OFFSET s) + unat (SHTRING_LENGTH s)"
    by (intro unat_add_lem [THEN iffD1] le_less_trans [OF _ unsigned_less])
  then have "\<not> (SHTRING_OFFSET s > tree_length t \<or> SHTRING_OFFSET s + SHTRING_LENGTH s > tree_length t)"
    using sum by (simp add: word_less_nat_alt)
  moreover have "SHTRING_HEIGHT s \<noteq> 0" using tree_ok_pos [OF ok] by simp
  moreover have "if SHTRING_HEIGHT s = 1 then shtring_check_chunk t else shtring_check_node t \<and> SHTRING_HEIGHT s = tree_height t"
    using ok check_chunk_ok check_node_ok [OF ok] tree_ok_height [OF ok] tree_ok_pos [OF ok] by auto
  ultimately show ?thesis using Some by (simp add: shtring_check_shtring_def Let_def)
qed

section \<open>Filling a node\<close>

lemma add_kids_ok:
  assumes "\<forall>t \<in> set ts. tree_ok h t" and "new_height p = Suc h" and "0 < h"
    and "length (new_kids p) + length ts \<le> new_children p"
  shows "add_kids p ts = Some (p\<lparr>new_kids := new_kids p @ ts, new_length := new_length p + sum_list (map tree_length ts)\<rparr>)"
  using assms
proof (induction ts arbitrary: p)
  case Nil
  then show ?case by simp
next
  case (Cons t ts)
  have t: "shtring_add_child p t (tree_length t) =
      Some (p\<lparr>new_kids := new_kids p @ [t], new_length := new_length p + tree_length t\<rparr>)"
    using Cons.prems tree_ok_height [of h t] by (simp add: shtring_add_child_def)
  show ?case
    unfolding add_kids.simps t bind.bind_lunit
    using Cons.prems by (subst Cons.IH) (auto simp: algebra_simps)
qed

lemma filled_node_ok:
  assumes "\<forall>t \<in> set ts. tree_ok h t" and "ts \<noteq> []" and "length ts \<le> 8" and "length (concat (map text_of ts)) < 2 ^ 32"
    and "new_height p = Suc h" and "new_children p = length ts" and "new_kids p = ts"
    and "new_length p = sum_list (map tree_length ts)"
  shows "\<exists>q. node_cell p = Some q \<and> tree_ok (Suc h) q \<and> text_of q = concat (map text_of ts)"
proof -
  have "unat (sum_list (map tree_length ts)) = length (concat (map text_of ts))"
    unfolding sum_lengths [OF assms(1)] unat_of_nat using assms(4) by (intro mod_less) simp
  moreover have "0 < h" using assms(1,2) tree_ok_pos by (cases ts) auto
  ultimately show ?thesis using assms by (simp add: node_cell_def)
qed

end
