(* ===== verification/Shtring_Create.thy ===== *)
theory Shtring_Create
  imports Shtring
begin

text \<open>
  \<^verbatim>\<open>shtring_create\<close> builds a tree of the invariant that holds the bytes of the C array, whichever of the
  two loops of \<^verbatim>\<open>build_chunk\<close> runs, and takes exactly \<^verbatim>\<open>shtring_create_max_allocation\<close> words.
\<close>

section \<open>Bytes and words\<close>

lemma word_bytes_big_endian: "word_bytes (big_endian a b c d) = [a, b, c, d]"
proof -
  have "ucast (drop_bit 24 (big_endian a b c d)) = a" "ucast (drop_bit 16 (big_endian a b c d)) = b"
    "ucast (drop_bit 8 (big_endian a b c d)) = c" "ucast (big_endian a b c d) = d"
    by (rule bit_word_eqI; auto simp: big_endian_def bit_simps dest: bit_imp_le_length)+
  then show ?thesis by (simp add: word_bytes_def)
qed

lemma big_endian_bit:
  assumes "n < 32"
  shows "bit (big_endian a b c d) n = bit (if n < 8 then d else if n < 16 then c else if n < 24 then b else a) (n mod 8)"
proof -
  have high: "\<not> bit x (n - k)" if "8 + k \<le> n" for x :: byte and k using that bit_imp_le_length [of x "n - k"] by auto
  have high0: "\<not> bit x n" if "8 \<le> n" for x :: byte using that bit_imp_le_length [of x n] by auto
  have b: "bit (big_endian a b c d) n \<longleftrightarrow> 24 \<le> n \<and> bit a (n - 24) \<or> 16 \<le> n \<and> bit b (n - 16) \<or> 8 \<le> n \<and> bit c (n - 8) \<or> bit d n"
    using assms by (simp add: big_endian_def bit_simps) (auto dest: bit_imp_le_length)
  have "n < 8 \<and> n mod 8 = n \<or> 8 \<le> n \<and> n < 16 \<and> n mod 8 = n - 8 \<or> 16 \<le> n \<and> n < 24 \<and> n mod 8 = n - 16 \<or>
    24 \<le> n \<and> n mod 8 = n - 24" using assms by presburger
  then show ?thesis by (elim disjE) (simp_all add: b high high0)
qed

lemma swap_load_word: "swap_bytes (load_word a b c d) = big_endian a b c d"
proof (rule bit_word_eqI)
  fix n assume "n < LENGTH(32)"
  then have n: "n < 32" by simp
  then have m: "8 * (3 - n div 8) + n mod 8 < 32" using mod_less_divisor [of 8 n] by linarith
  have "n div 8 = 0 \<or> n div 8 = 1 \<or> n div 8 = 2 \<or> n div 8 = 3" using n by auto
  then show "bit (swap_bytes (load_word a b c d)) n = bit (big_endian a b c d) n"
    unfolding swap_bytes_bit [OF n] load_word_def big_endian_bit [OF m] big_endian_bit [OF n] by auto
qed

lemma byte_loop_bytes:
  "byte_loop cs = (ws, rest) \<Longrightarrow> all_bytes ws @ rest = cs \<and> length ws = length cs div 4 \<and> length rest = length cs mod 4"
proof (induction cs arbitrary: ws rest rule: byte_loop.induct)
  case (1 a b c d cs)
  obtain ws' where ws': "byte_loop cs = (ws', rest)" "ws = big_endian a b c d # ws'"
    using "1.prems" by (auto split: prod.splits)
  show ?case
    using "1.IH" [OF ws'(1)] by (simp add: ws'(2) word_bytes_big_endian)
qed auto

lemma swap_loop_byte_loop: "length cs div 4 = k \<Longrightarrow> swap_loop k cs = Some (byte_loop cs)"
proof (induction k cs rule: swap_loop.induct)
  case (1 cs)
  then have "length cs < 4" by (simp add: div_eq_0_iff)
  then show ?case by (cases cs rule: byte_loop.cases) auto
next
  case (2 loops a b c d cs)
  then show ?case by (cases "byte_loop cs") (auto simp: swap_load_word)
qed auto

lemma unrolled_loop_small: "loops \<le> 8 \<Longrightarrow> unrolled_loop loops cs = swap_loop loops cs"
  by simp

declare unrolled_loop.simps [simp del]

lemma rest_word_bytes:
  assumes "length rest < 4"
  shows "take (length rest) (all_bytes (rest_word rest)) = rest"
    and "length (rest_word rest) = (length rest + 3) div 4"
proof -
  have w: "rest_word [a, b, c] = [big_endian a b c 0]" "rest_word [a, b] = [big_endian a b 0 0]"
    "rest_word [a] = [big_endian a 0 0 0]" for a b c by (simp_all add: big_endian_def)
  have "rest = [] \<or> (\<exists>a. rest = [a]) \<or> (\<exists>a b. rest = [a, b]) \<or> (\<exists>a b c. rest = [a, b, c])"
    using assms by (cases rest rule: byte_loop.cases) auto
  then show "take (length rest) (all_bytes (rest_word rest)) = rest" "length (rest_word rest) = (length rest + 3) div 4"
    by (auto simp: w word_bytes_big_endian simp del: rest_word.simps(1-3))
qed

lemma chunk_words:
  assumes "byte_loop cs = (ws, rest)"
  shows "take (length cs) (all_bytes (ws @ rest_word rest)) = cs" and "length (ws @ rest_word rest) = (length cs + 3) div 4"
proof -
  note b = byte_loop_bytes [OF assms]
  have r: "length rest < 4" using b by simp
  have "length cs = 4 * length ws + length rest" using arg_cong [OF conjunct1 [OF b], of length] by simp
  then show "take (length cs) (all_bytes (ws @ rest_word rest)) = cs" "length (ws @ rest_word rest) = (length cs + 3) div 4"
    using rest_word_bytes [OF r] conjunct1 [OF b] by simp_all
qed

section \<open>Building\<close>

lemma build_chunk_ok:
  assumes "cs \<noteq> []"
  shows "\<exists>t. build_chunk aligned cs ap = Some (t, drop 32 cs, ap + 1 + (min (length cs) 32 + 3) div 4) \<and>
    tree_ok 1 t \<and> text_of t = take 32 cs"
proof -
  define n where "n = min (length cs) 32"
  obtain ws rest where loop: "byte_loop (take n cs) = (ws, rest)" by (cases "byte_loop (take n cs)")
  have swap: "swap_loop (n div 4) (take n cs) = Some (ws, rest)"
    unfolding loop [symmetric] by (rule swap_loop_byte_loop) (simp add: n_def)
  have small: "n div 4 \<le> 8" using div_le_mono [of n 32 4] by (simp add: n_def)
  have u: "unat (of_nat n :: word_t) = n" by (simp add: unat_of_nat n_def min_def)
  have "build_chunk aligned cs ap = Some (CELL_shtring_chunk (of_nat n) (ws @ rest_word rest), drop n cs, ap + 1 + (n + 3) div 4)"
    using assms unfolding build_chunk_def SHTRING_CHUNK_MAX_def Let_def n_def [symmetric] unrolled_loop_small [OF small] swap loop
    by (simp add: SHTRING_CHUNK_WORDS_NEEDED_def add.commute)
  moreover have "tree_ok 1 (CELL_shtring_chunk (of_nat n) (ws @ rest_word rest))"
    using assms chunk_words(2) [OF loop] by (simp add: u) (simp add: n_def)
  moreover have "text_of (CELL_shtring_chunk (of_nat n) (ws @ rest_word rest)) = take n cs"
    using chunk_words(1) [OF loop] by (simp add: u) (simp add: n_def)
  moreover have "take n cs = take 32 cs" "drop n cs = drop 32 cs" by (simp_all add: n_def min_def)
  ultimately show ?thesis unfolding n_def by metis
qed

text \<open>A tree of height \<open>h\<close> has room for \<open>capacity h\<close> bytes; \<open>tree_words h m\<close> words hold \<open>m\<close> bytes.\<close>

definition capacity :: "nat \<Rightarrow> nat" where
  "capacity h = 32 * 8 ^ (h - 1)"

definition blocks :: "nat \<Rightarrow> nat \<Rightarrow> nat" where
  "blocks k m = (m + capacity (Suc k) - 1) div capacity (Suc k)"

fun tree_words :: "nat \<Rightarrow> nat \<Rightarrow> nat" where
  "tree_words 0 m = 0"
| "tree_words (Suc 0) m = (m + 3) div 4 + blocks 0 m"
| "tree_words (Suc (Suc h)) m = tree_words (Suc h) m + blocks h m + 3 * blocks (Suc h) m"

lemma capacity_simps: "capacity (Suc 0) = 32" "capacity (Suc (Suc h)) = 8 * capacity (Suc h)"
  by (simp_all add: capacity_def)

lemma capacity_pos [simp]: "0 < capacity h"
  by (simp add: capacity_def)

lemma blocks_full: "k < h \<Longrightarrow> blocks k (capacity h + m) = blocks k (capacity h) + blocks k m"
proof -
  assume "k < h"
  then obtain q where q: "capacity h = q * capacity (Suc k)" 
    by (auto simp: capacity_def power_add [symmetric] intro!: that [of "8 ^ (h - 1 - k)"])
  have "(q * c + m + c - 1) div c = (q * c + c - 1) div c + (m + c - 1) div c" if "0 < c" for c :: nat
  proof -
    have "q * c + m + c - 1 = (m + c - 1) + q * c" "q * c + c - 1 = (c - 1) + q * c" using that by simp_all
    then show ?thesis using that by (simp only: div_mult_self1 gr_implies_not0 simp_thms) simp
  qed
  then show ?thesis unfolding blocks_def q by simp
qed

lemma tree_words_full: "tree_words h (capacity h + m) = tree_words h (capacity h) + tree_words h m"
proof (induction h)
  case (Suc h)
  have "tree_words (Suc g) (capacity (Suc h) + m) = tree_words (Suc g) (capacity (Suc h)) + tree_words (Suc g) m" if "g \<le> h" for g
    using that
  proof (induction g)
    case 0
    have "4 dvd capacity (Suc h)" by (simp add: capacity_def)
    then have "(capacity (Suc h) + m + 3) div 4 = (capacity (Suc h) + 3) div 4 + (m + 3) div 4" by (auto elim: dvdE)
    then show ?case by (simp add: blocks_full)
  next
    case (Suc g)
    then show ?case by (simp add: blocks_full)
  qed
  then show ?case by blast
qed simp

text \<open>The loop of \<^verbatim>\<open>build_tree\<close> fills its children to their capacity.\<close>

definition builds :: "nat \<Rightarrow> (byte list \<Rightarrow> nat \<Rightarrow> (shtring_tree \<times> byte list \<times> nat) option) \<Rightarrow> bool" where
  "builds h build \<longleftrightarrow> (\<forall>cs ap. cs \<noteq> [] \<longrightarrow> length cs < 2 ^ 32 \<longrightarrow> (\<exists>t. build cs ap =
      Some (t, drop (capacity h) cs, ap + tree_words h (min (length cs) (capacity h))) \<and>
      tree_ok h t \<and> text_of t = take (capacity h) cs))"

lemma blocks_min: "0 < m \<Longrightarrow> m \<le> capacity (Suc k) \<Longrightarrow> blocks k m = 1"
  by (auto simp: blocks_def div_nat_eqI)

lemma no_blocks [simp]: "blocks k 0 = 0" "tree_words h 0 = 0"
proof -
  show b: "blocks k 0 = 0" for k by (simp add: blocks_def)
  show "tree_words h 0 = 0" by (induction h "0 :: nat" rule: tree_words.induct) (simp_all add: b)
qed

lemma split_min:
  fixes l c :: nat
  obtains "l \<le> c" "min l (Suc i * c) = l" "min (l - c) (i * c) = 0" | "c < l" "min l (Suc i * c) = c + min (l - c) (i * c)"
proof (cases "l \<le> c")
  case True
  then show ?thesis by (intro that(1)) auto
next
  case False
  then show ?thesis by (intro that(2)) (auto simp: min_def)
qed

lemma build_children_ok:
  assumes "builds (Suc h) build" and "length cs < 2 ^ 32"
  shows "\<exists>ts. build_children build i cs ap = Some (ts, drop (i * capacity (Suc h)) cs,
      ap + tree_words (Suc h) (min (length cs) (i * capacity (Suc h)))) \<and>
    (\<forall>t \<in> set ts. tree_ok (Suc h) t) \<and> length ts = blocks h (min (length cs) (i * capacity (Suc h))) \<and>
    concat (map text_of ts) = take (i * capacity (Suc h)) cs"
  using assms(2)
proof (induction i arbitrary: cs ap)
  case 0
  then show ?case by simp
next
  case (Suc i)
  let ?c = "capacity (Suc h)"
  show ?case
  proof (cases "cs = []")
    case True
    then show ?thesis by simp
  next
    case False
    obtain t where t: "build cs ap = Some (t, drop ?c cs, ap + tree_words (Suc h) (min (length cs) ?c))"
        "tree_ok (Suc h) t" "text_of t = take ?c cs"
      using assms(1) False Suc.prems by (auto simp: builds_def)
    define ap' where "ap' = ap + tree_words (Suc h) (min (length cs) ?c)"
    obtain ts where ts: "build_children build i (drop ?c cs) ap' = Some (ts, drop (i * ?c) (drop ?c cs),
          ap' + tree_words (Suc h) (min (length cs - ?c) (i * ?c)))"
        "\<forall>t \<in> set ts. tree_ok (Suc h) t" "length ts = blocks h (min (length cs - ?c) (i * ?c))"
        "concat (map text_of ts) = take (i * ?c) (drop ?c cs)"
      using Suc.IH [of "drop ?c cs" ap'] Suc.prems unfolding length_drop by fastforce
    have size: "tree_words (Suc h) (min (length cs) (Suc i * ?c)) =
          tree_words (Suc h) (min (length cs) ?c) + tree_words (Suc h) (min (length cs - ?c) (i * ?c))"
        "blocks h (min (length cs) (Suc i * ?c)) = 1 + blocks h (min (length cs - ?c) (i * ?c))"
      using False blocks_min [of "length cs" h] blocks_min [of ?c h]
      by (cases rule: split_min [of "length cs" ?c i]; simp add: tree_words_full blocks_full)+
    show ?thesis
      unfolding build_children.simps size t(1) using False ts t(2,3)
      by (simp add: ap'_def [symmetric] take_add add.commute)
  qed
qed

lemma blocks_range:
  assumes "0 < m" and "m \<le> 8 * capacity (Suc h)"
  shows "0 < blocks h m" and "blocks h m \<le> 8"
proof -
  show "0 < blocks h m" using assms(1) by (simp add: blocks_def div_greater_zero_iff)
  have "blocks h m \<le> (capacity (Suc h) - 1 + 8 * capacity (Suc h)) div capacity (Suc h)"
    unfolding blocks_def using assms(2) capacity_pos [of "Suc h"] by (intro div_le_mono) linarith
  also have "\<dots> = 8" by (subst div_mult_self1) auto
  finally show "blocks h m \<le> 8" .
qed

lemma build_tree_ok: "builds (Suc h) (build_tree aligned (Suc h))"
proof (induction h)
  case 0
  show ?case using build_chunk_ok [of _ aligned] by (simp add: builds_def capacity_simps) (simp add: blocks_min capacity_simps)
next
  case (Suc h)
  show ?case
    unfolding builds_def
  proof (intro allI impI)
    fix cs :: "byte list" and ap
    assume cs: "cs \<noteq> []" "length cs < 2 ^ 32"
    let ?c = "capacity (Suc (Suc h))"
    define m where "m = min (length cs) ?c"
    obtain ts where ts: "build_children (build_tree aligned (Suc h)) 8 cs ap = Some (ts, drop ?c cs,
          ap + tree_words (Suc h) m)" "\<forall>t \<in> set ts. tree_ok (Suc h) t" "length ts = blocks h m"
        "concat (map text_of ts) = take ?c cs"
      using build_children_ok [OF Suc.IH cs(2), of 8 ap] unfolding capacity_simps(2) [symmetric] m_def by blast
    have m: "0 < m" "m \<le> ?c" "length (take ?c cs) < 2 ^ 32" using cs by (auto simp: m_def min_def)
    have len: "0 < length ts" "length ts \<le> 8" using blocks_range [OF m(1) m(2) [unfolded capacity_simps]] ts(3) by simp_all
    have one: "blocks (Suc h) m = 1" by (rule blocks_min [OF m(1,2)])
    have kids: "add_kids \<lparr>new_children = length ts, new_length = 0, new_height = Suc (Suc h), new_kids = []\<rparr> ts =
        Some \<lparr>new_children = length ts, new_length = sum_list (map tree_length ts), new_height = Suc (Suc h), new_kids = ts\<rparr>"
      using add_kids_ok [OF ts(2)] by simp
    obtain q where q: "node_cell \<lparr>new_children = length ts, new_length = sum_list (map tree_length ts),
          new_height = Suc (Suc h), new_kids = ts\<rparr> = Some q" "tree_ok (Suc (Suc h)) q" "text_of q = take ?c cs"
      using filled_node_ok [OF ts(2), of "\<lparr>new_children = length ts, new_length = sum_list (map tree_length ts),
          new_height = Suc (Suc h), new_kids = ts\<rparr>"] len m(3) ts(4) by auto
    show "\<exists>t. build_tree aligned (Suc (Suc h)) cs ap = Some (t, drop ?c cs, ap + tree_words (Suc (Suc h)) (min (length cs) ?c)) \<and>
        tree_ok (Suc (Suc h)) t \<and> text_of t = take ?c cs"
      using len q(2,3) unfolding build_tree.simps MAX_SHTRING_NODE_CHILDREN_def ts(1) m_def [symmetric]
      by (simp add: shtring_new_node_def kids q(1) one) (simp add: ts(3))
  qed
qed

section \<open>The size of a tree\<close>

lemma idiv_of_nat:
  assumes "m + c < 2 ^ 32" and "0 < c"
  shows "shtring_idiv (of_nat m) (of_nat c) = of_nat ((m + c - 1) div c)"
proof -
  have "(of_nat m + of_nat c - 1 :: word_t) = of_nat (m + c - 1)" using assms(2) by (simp add: of_nat_diff)
  then show ?thesis
    unfolding shtring_idiv_def using assms by (simp only: word_arith_nat_defs unat_of_nat) simp
qed

lemma blocks_Suc: "(blocks k m + 7) div 8 = blocks (Suc k) m"
proof -
  have c: "(a div c + 7) div 8 = (a + 7 * c) div (c * 8)" if "0 < c" for a c :: nat
    using that by (simp add: div_mult2_eq add.commute)
  have "m + capacity (Suc k) - 1 + 7 * capacity (Suc k) = m + capacity (Suc k) * 8 - 1"
    using capacity_pos [of "Suc k"] by linarith
  then show ?thesis unfolding blocks_def capacity_simps(2) mult.commute [of 8] by (simp only: c capacity_pos)
qed

lemma tree_size_loop_words:
  assumes "blocks k m < 2 ^ 30" and "0 < blocks k m"
  shows "\<exists>h L. tree_size_loop (of_nat (blocks k m)) (Suc k) (of_nat w) = (Suc h, of_nat (w + L)) \<and>
    blocks h m = 1 \<and> tree_words (Suc h) m = tree_words (Suc k) m + L \<and> L \<le> 5 * blocks k m"
  using assms
proof (induction "blocks k m" arbitrary: k w rule: less_induct)
  case less
  show ?case
  proof (cases "blocks k m = 1")
    case True
    then show ?thesis by (intro exI [of _ k] exI [of _ 0]) (simp add: tree_size_loop.simps)
  next
    case False
    define b where "b = blocks k m"
    define n where "n = blocks (Suc k) m"
    have b: "1 < b" "b < 2 ^ 30" using False less.prems by (simp_all add: b_def)
    have nb: "n = (b + 7) div 8" unfolding n_def b_def by (rule blocks_Suc [symmetric])
    then have n: "n < b" "0 < n" "2 * n \<le> b" "n < 2 ^ 30" using b by linarith+
    have i: "of_nat b > (1 :: word_t)" using b by (simp add: word_less_nat_alt unat_of_nat)
    have idiv: "shtring_idiv (of_nat b) (of_nat 8) = of_nat n" unfolding nb using idiv_of_nat [of b 8] b by (simp add: add.commute)
    have words: "of_nat w + (of_nat b + of_nat n * 3) = (of_nat (w + b + 3 * n) :: word_t)" by simp
    have step: "tree_size_loop (of_nat b) (Suc k) (of_nat w) = tree_size_loop (of_nat n) (Suc (Suc k)) (of_nat (w + b + 3 * n))"
      unfolding tree_size_loop.simps [of "of_nat b"] MAX_SHTRING_NODE_CHILDREN_def idiv Let_def if_P [OF i] words by simp
    obtain h L where h: "tree_size_loop (of_nat n) (Suc (Suc k)) (of_nat (w + b + 3 * n)) = (Suc h, of_nat (w + b + 3 * n + L))"
        "blocks h m = 1" "tree_words (Suc h) m = tree_words (Suc (Suc k)) m + L" "L \<le> 5 * n"
      using less.hyps [of "Suc k" "w + b + 3 * n"] n unfolding b_def [symmetric] n_def [symmetric] by blast
    have "tree_words (Suc h) m = tree_words (Suc k) m + (b + 3 * n + L)" "b + 3 * n + L \<le> 5 * b"
      using h(3,4) n(3) by (simp_all add: b_def n_def)
    then show ?thesis
      using h(1,2) step unfolding b_def [symmetric] by (intro exI [of _ h] exI [of _ "b + 3 * n + L"]) (simp add: add.assoc)
  qed
qed

lemma shtring_tree_size_ok:
  assumes "m < 2 ^ 31"
  shows "\<exists>h total. shtring_tree_size (of_nat m) = (of_nat (blocks 0 m), h, of_nat total) \<and>
    (m = 0 \<longleftrightarrow> h = 0) \<and> m \<le> capacity h \<and> total = tree_words h m + 5 \<and> total < 2 ^ 32"
proof -
  have chunks: "shtring_idiv (of_nat m) (of_nat 32) = of_nat (blocks 0 m)"
    using idiv_of_nat [of m 32] assms by (simp add: blocks_def capacity_simps)
  have words: "shtring_idiv (of_nat m) (of_nat 4) = of_nat ((m + 3) div 4)"
    using idiv_of_nat [of m 4] assms by (simp add: add.commute)
  show ?thesis
  proof (cases "m = 0")
    case True
    then show ?thesis
      using chunks words by (simp add: shtring_tree_size_def SHTRING_CHUNK_MAX_def SHTRING_WORDS_def tree_size_loop.simps)
  next
    case False
    have b: "0 < blocks 0 m" "blocks 0 m \<le> 2 ^ 26"
      using False assms by (auto simp: blocks_def capacity_simps div_greater_zero_iff)
    then have pos: "(of_nat (blocks 0 m) :: word_t) > 0" by (simp add: word_less_nat_alt unat_of_nat)
    obtain h L where h: "tree_size_loop (of_nat (blocks 0 m)) (Suc 0) (of_nat ((m + 3) div 4 + blocks 0 m)) =
          (Suc h, of_nat ((m + 3) div 4 + blocks 0 m + L))"
        "blocks h m = 1" "tree_words (Suc h) m = tree_words (Suc 0) m + L" "L \<le> 5 * blocks 0 m"
      using tree_size_loop_words [of 0 m "(m + 3) div 4 + blocks 0 m"] b by auto
    have "shtring_tree_size (of_nat m) = (of_nat (blocks 0 m), Suc h, of_nat ((m + 3) div 4 + blocks 0 m + L + 5))"
      using h(1) pos chunks words
      by (simp add: shtring_tree_size_def SHTRING_CHUNK_MAX_def SHTRING_WORDS_def Let_def)
    moreover have "m \<le> capacity (Suc h)"
      using dividend_less_div_times [of "capacity (Suc h)" "m + capacity (Suc h) - 1"] h(2) unfolding blocks_def by simp
    moreover have "(m + 3) div 4 + blocks 0 m + L + 5 < 2 ^ 32" using h(4) b(2) assms by simp
    ultimately show ?thesis
      using False h(3) by - (rule exI [of _ "Suc h"], rule exI [of _ "(m + 3) div 4 + blocks 0 m + L + 5"], simp)
  qed
qed

lemma shtring_create_ok:
  assumes "length cs \<le> unat (first_generation_size div 2)"
  shows "\<exists>s. shtring_create first_generation_size aligned cs ap =
      Some (Some s, ap + unat (shtring_create_max_allocation (of_nat (length cs)))) \<and>
    shtring_ok s \<and> SHTRING_OFFSET s = 0 \<and> unat (SHTRING_LENGTH s) = length cs \<and> tree_text (SHTRING_CHUNK_TREE s) = cs"
proof -
  have "unat first_generation_size < 2 ^ 32" using unsigned_less [of first_generation_size] by simp
  then have m: "length cs < 2 ^ 31" using assms by (simp add: unat_div)
  obtain h total where size: "shtring_tree_size (of_nat (length cs)) = (of_nat (blocks 0 (length cs)), h, of_nat total)"
      "length cs = 0 \<longleftrightarrow> h = 0" "length cs \<le> capacity h" "total = tree_words h (length cs) + 5" "total < 2 ^ 32"
    using shtring_tree_size_ok [OF m] by blast
  have total: "unat (shtring_create_max_allocation (of_nat (length cs))) = total"
    using size(1,5) by (simp add: shtring_create_max_allocation_def unat_of_nat)
  obtain root where root: "build_root aligned h cs ap = Some (root, [], ap + tree_words h (length cs))"
      "case root of None \<Rightarrow> h = 0 | Some t \<Rightarrow> tree_ok h t" "tree_text root = cs"
  proof (cases h)
    case 0
    then show ?thesis using size(2) by (intro that [of None]) (simp_all add: build_root_def)
  next
    case (Suc g)
    have cs: "cs \<noteq> []" "length cs < 2 ^ 32" using Suc size(2) m by auto
    have drop: "drop (capacity (Suc g)) cs = []" "min (length cs) (capacity (Suc g)) = length cs" "take (capacity (Suc g)) cs = cs"
      using size(3) Suc by simp_all
    obtain t where t: "build_tree aligned (Suc g) cs ap = Some (t, [], ap + tree_words (Suc g) (length cs))"
        "tree_ok (Suc g) t" "text_of t = cs"
      using build_tree_ok [of g aligned, unfolded builds_def, rule_format, OF cs, of ap] unfolding drop by blast
    show ?thesis using t Suc by (intro that [of "Some t"]) (simp_all add: build_root_def)
  qed
  have u: "unat (of_nat (length cs) :: word_t) = length cs" using m by (simp add: unat_of_nat)
  have len: "shtring_tree_length root = of_nat (length cs)" "shtring_tree_height root = h"
    using root(2,3) tree_length_text tree_ok_height by (cases root; auto)+
  define s where "s = \<lparr>SHTRING_OFFSET = 0, SHTRING_LENGTH = of_nat (length cs), SHTRING_HEIGHT = h, SHTRING_CHUNK_TREE = root\<rparr>"
  have "shtring_create first_generation_size aligned cs ap = Some (Some s, ap + total)"
    using assms size(1,4) root(1) len by (simp add: shtring_create_def shtring_new_shtring_def s_def SHTRING_WORDS_def)
  moreover have "shtring_ok s" using root(2,3) u by (cases root) (simp_all add: shtring_ok_def s_def)
  ultimately show ?thesis using total u root(3) by (simp add: s_def)
qed

end
