(* ===== verification/Shtring_Read.thy ===== *)
theory Shtring_Read
  imports Shtring_Create
begin

text \<open>
  Reading shtrings: the traversal \<^verbatim>\<open>shtring_monkey\<close> of \<^verbatim>\<open>shtring_internal.c\<close>, and \<^verbatim>\<open>shtring_strat\<close>,
  \<^verbatim>\<open>shtring_charat\<close>, \<^verbatim>\<open>shtring_copy\<close> and \<^verbatim>\<open>shtring_cmp_without_allocating\<close> of \<^verbatim>\<open>shtring.c\<close>.  A callback of the
  traversal takes its \<^verbatim>\<open>arg\<close> and returns it updated; \<open>None\<close> is a failed assertion or a read behind the
  last word of a chunk.
\<close>

section \<open>Bytes of one chunk\<close>

text \<open>The switch over the rest of the first word, whose cases fall through.\<close>

definition first_bytes :: "nat \<Rightarrow> word_t \<Rightarrow> nat \<Rightarrow> byte list \<times> nat" where
  "first_bytes off w len =
    (let (cs, len) = (if off = 1 then ([ucast (drop_bit 16 w)], len - 1) else ([], len));
         (cs, len) = (if off \<le> 2 \<and> len > 0 then (cs @ [ucast (drop_bit 8 w)], len - 1) else (cs, len))
     in if len > 0 then (cs @ [ucast w], len - 1) else (cs, len))"

fun whole_words :: "word_t list \<Rightarrow> nat \<Rightarrow> (byte list \<times> word_t list \<times> nat) option" where
  "whole_words [] len = (if len \<ge> 4 then None else Some ([], [], len))"
| "whole_words (w # ws) len =
    (if len \<ge> 4 then do {
       (cs, ws, len) \<leftarrow> whole_words ws (len - 4);
       Some (ucast (drop_bit 24 w) # ucast (drop_bit 16 w) # ucast (drop_bit 8 w) # ucast w # cs, ws, len) }
     else Some ([], w # ws, len))"

primrec last_bytes :: "word_t \<Rightarrow> nat \<Rightarrow> byte list" where
  "last_bytes w 0 = []"
| "last_bytes w (Suc len) = ucast (drop_bit 24 w) # last_bytes (push_bit 8 w) len"

fun copy_chunk_to_cstr :: "shtring_tree \<Rightarrow> nat \<Rightarrow> nat \<Rightarrow> byte list option" where
  "copy_chunk_to_cstr (CELL_shtring_chunk n ws) start len =
    (if \<not> (start \<le> unat n \<and> start + len \<le> unat n) then None
     else if len = 0 then Some []
     else do {
       let off = start mod 4;
       (cs1, ws, len) \<leftarrow> (case drop (start div 4) ws of
           [] \<Rightarrow> if off > 0 then None else Some ([], [], len)
         | w # ws' \<Rightarrow> if off > 0 then let (cs, len) = first_bytes off w len in Some (cs, ws', len)
             else Some ([], w # ws', len));
       (cs2, ws, len) \<leftarrow> whole_words ws len;
       cs3 \<leftarrow> (if len > 0 then case ws of [] \<Rightarrow> None | w # ws' \<Rightarrow> Some (last_bytes w len) else Some []);
       Some (cs1 @ cs2 @ cs3) })"
| "copy_chunk_to_cstr (CELL_shtring_node n h ts) start len = None"

section \<open>Traversal\<close>

lemma size_list_rev: "size_list f (rev xs) = size_list f xs"
  by (simp add: size_list_conv_sum_list rev_map [symmetric] sum_list_rev)

datatype monkey_order = left_to_right | right_to_left

type_synonym 'a monkey_fun = "shtring_tree \<Rightarrow> word_t \<Rightarrow> word_t \<Rightarrow> word_t \<Rightarrow> 'a \<Rightarrow> (int \<times> 'a) option"

definition SHTRING_MONKEY_START_POS :: word_t where
  "SHTRING_MONKEY_START_POS = - 1"

definition monkey_pos :: "shtring_tree \<Rightarrow> word_t \<Rightarrow> monkey_order \<Rightarrow> word_t" where
  "monkey_pos root pos order =
    (if pos = SHTRING_MONKEY_START_POS
     then case order of left_to_right \<Rightarrow> 0 | right_to_left \<Rightarrow> tree_length root
     else pos)"

definition monkey_call :: "shtring_tree \<Rightarrow> word_t \<Rightarrow> word_t \<Rightarrow> word_t \<Rightarrow> 'a monkey_fun \<Rightarrow> 'a \<Rightarrow> (int \<times> 'a) option" where
  "monkey_call root start len pos f arg =
    (let chunk_len = tree_length root in
     if pos < start + len \<and> pos + chunk_len > start then
       let (off_in_chunk, off_in_tree) = (if pos \<ge> start then (0, pos - start) else (start - pos, 0));
           interesting_len = (if pos + chunk_len \<le> start + len then chunk_len - off_in_chunk
             else start + len - (pos + off_in_chunk))
       in f root off_in_chunk off_in_tree interesting_len arg
     else Some (0, arg))"

function (sequential) monkey :: "shtring_tree \<Rightarrow> word_t \<Rightarrow> word_t \<Rightarrow> word_t \<Rightarrow> 'a monkey_fun \<Rightarrow> monkey_order \<Rightarrow> 'a \<Rightarrow>
      (int \<times> word_t \<times> 'a) option"
  and monkey_loop :: "shtring_tree list \<Rightarrow> int \<Rightarrow> word_t \<Rightarrow> word_t \<Rightarrow> word_t \<Rightarrow> 'a monkey_fun \<Rightarrow> monkey_order \<Rightarrow> 'a \<Rightarrow>
      (int \<times> word_t \<times> 'a) option" where
  "monkey (CELL_shtring_node root_len h ts) start len pos f order arg =
    (let pos = monkey_pos (CELL_shtring_node root_len h ts) pos order in
     case order of
       left_to_right \<Rightarrow>
         if pos \<ge> start + len \<or> pos + root_len \<le> start then Some (0, pos + root_len, arg)
         else monkey_loop ts 0 start len pos f order arg
     | right_to_left \<Rightarrow>
         if \<not> pos \<ge> root_len then None
         else if pos - root_len \<ge> start + len \<or> pos \<le> start then Some (0, pos - root_len, arg)
         else monkey_loop (rev ts) 0 start len pos f order arg)"
| "monkey (CELL_shtring_chunk n ws) start len pos f order arg =
    (let pos = monkey_pos (CELL_shtring_chunk n ws) pos order;
         pos = (if order = right_to_left then pos - n else pos)
     in do {
       (ret, arg) \<leftarrow> monkey_call (CELL_shtring_chunk n ws) start len pos f arg;
       Some (ret, if order = left_to_right then pos + n else pos, arg) })"
| "monkey_loop [] ret start len pos f order arg = Some (ret, pos, arg)"
| "monkey_loop (t # ts) ret start len pos f order arg =
    (if ret \<noteq> - 1 then do {
       (ret, pos, arg) \<leftarrow> monkey t start len pos f order arg;
       monkey_loop ts ret start len pos f order arg }
     else Some (ret, pos, arg))"
  by pat_completeness auto
termination
  by (relation "measure (\<lambda>x. case x of Inl (t, _) \<Rightarrow> size t | Inr (ts, _) \<Rightarrow> size_list size ts)")
    (simp_all add: size_list_rev)

definition shtring_monkey :: "shtring_tree option \<Rightarrow> word_t \<Rightarrow> word_t \<Rightarrow> word_t \<Rightarrow> 'a monkey_fun \<Rightarrow> monkey_order \<Rightarrow> 'a \<Rightarrow>
    (int \<times> word_t \<times> 'a) option" where
  "shtring_monkey root start len pos f order arg =
    (case root of None \<Rightarrow> Some (0, pos, arg) | Some t \<Rightarrow> monkey t start len pos f order arg)"

definition collect_string :: "byte list monkey_fun" where
  "collect_string chunk off_in_chunk off_in_tree len arg =
    (if off_in_chunk + len \<le> tree_length chunk then do {
       cs \<leftarrow> copy_chunk_to_cstr chunk (unat off_in_chunk) (unat len);
       Some (0, arg @ cs) }
     else None)"

definition shtring_strat :: "shtring \<Rightarrow> word_t \<Rightarrow> word_t \<Rightarrow> byte list option" where
  "shtring_strat s pos len = do {
     (ret, aux, arg) \<leftarrow> shtring_monkey (SHTRING_CHUNK_TREE s) (SHTRING_OFFSET s + pos) len SHTRING_MONKEY_START_POS
       collect_string left_to_right [];
     if length arg = unat len then Some arg else None }"

section \<open>One character\<close>

fun child_at :: "shtring_tree list \<Rightarrow> word_t \<Rightarrow> word_t \<Rightarrow> (shtring_tree \<times> word_t) option" where
  "child_at [] start pos = None"
| "child_at (q # ts) start pos =
    (if pos < start + tree_length q then Some (q, start) else child_at ts (start + tree_length q) pos)"

fun find_chunk_loop :: "nat \<Rightarrow> shtring_tree \<Rightarrow> word_t \<Rightarrow> word_t \<Rightarrow> (shtring_tree \<times> word_t) option" where
  "find_chunk_loop (Suc (Suc h)) (CELL_shtring_node n h' ts) start pos = do {
     (root, start) \<leftarrow> child_at ts start pos;
     if Suc h = tree_height root then find_chunk_loop (Suc h) root start pos else None }"
| "find_chunk_loop (Suc 0) (CELL_shtring_chunk n ws) start pos = Some (CELL_shtring_chunk n ws, start)"
| "find_chunk_loop h root start pos = None"

definition find_chunk :: "shtring_tree option \<Rightarrow> word_t \<Rightarrow> (shtring_tree \<times> word_t) option" where
  "find_chunk root pos = (case root of
      None \<Rightarrow> None
    | Some t \<Rightarrow> if pos < tree_length t then find_chunk_loop (tree_height t) t 0 pos else None)"

definition shtring_charat :: "shtring \<Rightarrow> word_t \<Rightarrow> byte option" where
  "shtring_charat s pos =
    (if pos < SHTRING_LENGTH s then do {
       let pos = pos + SHTRING_OFFSET s;
       (p, start) \<leftarrow> find_chunk (SHTRING_CHUNK_TREE s) pos;
       cs \<leftarrow> copy_chunk_to_cstr p (unat (pos - start)) 1;
       Some (hd cs) }
     else None)"

section \<open>Part of a shtring\<close>

text \<open>The first child that is longer than what is left of \<open>new_start\<close>, and whether it is the last one.\<close>

fun child_from :: "shtring_tree list \<Rightarrow> word_t \<Rightarrow> (shtring_tree \<times> word_t \<times> bool) option" where
  "child_from [] new_start = None"
| "child_from (child # ts) new_start =
    (if tree_length child > new_start then Some (child, new_start, ts = [])
     else child_from ts (new_start - tree_length child))"

fun minimal_subtree_loop :: "nat \<Rightarrow> shtring_tree \<Rightarrow> word_t \<Rightarrow> word_t \<Rightarrow> (shtring_tree \<times> word_t) option" where
  "minimal_subtree_loop (Suc (Suc h)) (CELL_shtring_node n h' ts) start len = do {
     (child, new_start, is_last) \<leftarrow> child_from ts start;
     if \<not> is_last \<and> tree_length child < new_start + len then Some (CELL_shtring_node n h' ts, start)
     else if Suc h = tree_height child \<and> new_start \<le> tree_length child \<and> len \<le> tree_length child \<and>
         new_start + len \<le> tree_length child then minimal_subtree_loop (Suc h) child new_start len
     else None }"
| "minimal_subtree_loop (Suc 0) p start len = Some (p, start)"
| "minimal_subtree_loop h p start len = None"

definition minimal_subtree :: "shtring_tree option \<Rightarrow> word_t \<Rightarrow> word_t \<Rightarrow> (shtring_tree option \<times> word_t) option" where
  "minimal_subtree p start len =
    (if start \<le> shtring_tree_length p \<and> len \<le> shtring_tree_length p \<and> start + len \<le> shtring_tree_length p then
       case p of None \<Rightarrow> Some (None, start)
       | Some t \<Rightarrow> do { (t, start) \<leftarrow> minimal_subtree_loop (tree_height t) t start len; Some (Some t, start) }
     else None)"

definition shtring_copy :: "shtring \<Rightarrow> word_t \<Rightarrow> word_t \<Rightarrow> nat \<Rightarrow> (shtring \<times> nat) option" where
  "shtring_copy s start len ap =
    (if start \<le> SHTRING_LENGTH s \<and> len \<le> SHTRING_LENGTH s \<and> start + len \<le> SHTRING_LENGTH s then do {
       let offset = SHTRING_OFFSET s + start;
       (tree, offset) \<leftarrow> minimal_subtree (SHTRING_CHUNK_TREE s) offset len;
       shtring_new_shtring offset len (shtring_tree_height tree) tree ap }
     else None)"

section \<open>Comparison\<close>

fun memcmp :: "byte list \<Rightarrow> byte list \<Rightarrow> int" where
  "memcmp (a # as) (b # bs) = (if a < b then - 1 else if b < a then 1 else memcmp as bs)"
| "memcmp as bs = 0"

definition CMP_BUF :: word_t where
  "CMP_BUF = 10240"

partial_function (option) cmp_loop :: "shtring \<Rightarrow> shtring \<Rightarrow> word_t \<Rightarrow> word_t \<Rightarrow> word_t \<Rightarrow> cmp_result_t option" where
  "cmp_loop shtr1 shtr2 len n pos =
    (if pos < len then do {
       let n = (if pos + CMP_BUF > len then len - pos else n);
       buf1 \<leftarrow> shtring_strat shtr1 pos n;
       buf2 \<leftarrow> shtring_strat shtr2 pos n;
       let ret = memcmp buf1 buf2;
       if ret < 0 then Some CMP_LESS else if ret > 0 then Some CMP_GREATER
       else cmp_loop shtr1 shtr2 len n (pos + n) }
     else if SHTRING_LENGTH shtr1 < SHTRING_LENGTH shtr2 then Some CMP_LESS
     else if SHTRING_LENGTH shtr1 > SHTRING_LENGTH shtr2 then Some CMP_GREATER
     else Some CMP_EQUAL)"

definition shtring_cmp_without_allocating :: "shtring \<Rightarrow> shtring \<Rightarrow> cmp_result_t option" where
  "shtring_cmp_without_allocating shtr1 shtr2 =
    (let len1 = SHTRING_LENGTH shtr1; len2 = SHTRING_LENGTH shtr2;
         len = (if len1 < len2 then len1 else len2)
     in cmp_loop shtr1 shtr2 len CMP_BUF 0)"

end
