(* ===== verification/Shtring_Text.thy ===== *)
theory Shtring_Text
  imports Shtring_Read
begin

text \<open>
  The operations that read a shtring see its bytes, \<open>shtring_text\<close>: the traversal visits the pieces
  of the chunks that overlap the range, from left to right.
\<close>

section \<open>One chunk\<close>

lemma first_bytes_eq:
  assumes "0 < off" and "off < 4" and "0 < len"
  shows "first_bytes off w len = (take len (drop off (word_bytes w)), len - (4 - off))"
proof -
  have "off = 1 \<or> off = 2 \<or> off = 3" using assms by auto
  moreover have "len = 1 \<or> len = 2 \<or> 3 \<le> len" using assms by auto
  ultimately show ?thesis by (elim disjE) (auto simp: first_bytes_def word_bytes_def Let_def take_Cons' numeral_eq_Suc)
qed

lemma whole_words_eq:
  "len div 4 \<le> length ws \<Longrightarrow>
    whole_words ws len = Some (take (4 * (len div 4)) (all_bytes ws), drop (len div 4) ws, len mod 4)"
proof (induction ws len rule: whole_words.induct)
  case (1 len)
  then show ?case by auto
next
  case (2 w ws len)
  show ?case
  proof (cases "4 \<le> len")
    case True
    define k where "k = (len - 4) div 4"
    have k: "len div 4 = Suc k" "(len - 4) mod 4 = len mod 4" using True by (auto simp: k_def le_div_geq le_mod_geq)
    have "whole_words ws (len - 4) = Some (take (4 * k) (all_bytes ws), drop k ws, len mod 4)"
      using "2.IH" [OF True] "2.prems" k unfolding k_def by simp
    then have "whole_words (w # ws) len = Some (word_bytes w @ take (4 * k) (all_bytes ws), drop k ws, len mod 4)"
      using True by (simp add: word_bytes_def)
    then show ?thesis by (simp add: k)
  qed simp
qed

lemma last_bytes_eq: "len \<le> 4 \<Longrightarrow> last_bytes w len = take len (word_bytes w)"
proof -
  have s: "ucast (drop_bit 24 (push_bit 8 v)) = (ucast (drop_bit 16 v) :: byte)"
      "ucast (drop_bit 16 (push_bit 8 v)) = (ucast (drop_bit 8 v) :: byte)"
      "ucast (drop_bit 8 (push_bit 8 v)) = (ucast v :: byte)" for v :: word_t
    by (rule bit_word_eqI; auto simp: bit_simps dest: bit_imp_le_length)+
  assume "len \<le> 4"
  then have "len = 0 \<or> len = Suc 0 \<or> len = Suc (Suc 0) \<or> len = Suc (Suc (Suc 0)) \<or> len = Suc (Suc (Suc (Suc 0)))" by auto
  then show ?thesis
    by (elim disjE) (simp_all only: last_bytes.simps s word_bytes_def take_Suc_Cons take_0)
qed

lemma drop_all_bytes: "drop (4 * q) (all_bytes ws) = all_bytes (drop q ws)"
proof (induction q arbitrary: ws)
  case (Suc q)
  then show ?case by (cases ws) simp_all
qed simp

lemma other_bytes_eq:
  assumes "k \<le> 4 * length us"
  shows "do { (cs2, ws, len) \<leftarrow> whole_words us k;
      cs3 \<leftarrow> (if len > 0 then case ws of [] \<Rightarrow> None | w # ws' \<Rightarrow> Some (last_bytes w len) else Some []);
      Some (cs1 @ cs2 @ cs3) } = Some (cs1 @ take k (all_bytes us))"
proof -
  define q r where "q = k div 4" and "r = k mod 4"
  have k: "k = 4 * q + r" "r < 4" by (simp_all add: q_def r_def)
  have whole: "whole_words us k = Some (take (4 * q) (all_bytes us), drop q us, r)"
    unfolding q_def r_def using assms by (intro whole_words_eq) linarith
  show ?thesis
  proof (cases "r = 0")
    case True
    then show ?thesis unfolding whole using k by simp
  next
    case False
    then have "q < length us" using assms k by linarith
    then obtain w rest where w: "drop q us = w # rest" by (metis Cons_nth_drop_Suc)
    have "take k (all_bytes us) = take (4 * q) (all_bytes us) @ take r (all_bytes (drop q us))"
      unfolding k(1) take_add drop_all_bytes ..
    then show ?thesis using False k(2) last_bytes_eq [of r w] by (simp add: whole w)
  qed
qed

lemma copy_chunk_eq:
  assumes ok: "tree_ok 1 c" and range: "start + len \<le> length (text_of c)"
  shows "copy_chunk_to_cstr c start len = Some (take len (drop start (text_of c)))"
proof -
  obtain n ws where c: "c = CELL_shtring_chunk n ws" "0 < unat n" "unat n \<le> 32" "length ws = (unat n + 3) div 4"
    using chunk_cases [of c] ok by auto
  have n: "length (text_of c) = unat n" using length_text [OF ok] c(1) by simp
  have bytes_of: "take len (drop start (text_of c)) = take len (drop start (all_bytes ws))"
    using range n by (simp add: c(1) drop_take min_def)
  show ?thesis
  proof (cases "len = 0")
    case True
    then show ?thesis using range n c(1) by simp
  next
    case False
    define i where "i = start div 4"
    define off where "off = start mod 4"
    have start: "start = 4 * i + off" "off < 4" by (simp_all add: i_def off_def)
    have "start + len \<le> 4 * length ws" "i < length ws" using range n c(4) False start by linarith+
    then obtain w rest where rest: "drop i ws = w # rest" by (metis Cons_nth_drop_Suc)
    have "all_bytes ws = all_bytes (take i ws) @ all_bytes (w # rest)"
      unfolding rest [symmetric] all_bytes_simps(3) [symmetric] by simp
    then have bytes: "drop start (all_bytes ws) = drop off (word_bytes w @ all_bytes rest)"
      using \<open>i < length ws\<close> by (simp add: start(1))
    have len: "off + len \<le> 4 * Suc (length rest)"
    proof -
      have "length ws = i + Suc (length rest)" using arg_cong [OF rest, of length] \<open>i < length ws\<close> by simp
      then show ?thesis using \<open>start + len \<le> 4 * length ws\<close> start(1) by simp
    qed
    show ?thesis
    proof (cases "off = 0")
      case True
      have "len \<le> 4 * length (w # rest)" using len True by simp
      from other_bytes_eq [OF this, of "[]"] show ?thesis
        using True False range n rest unfolding c(1) bytes_of [unfolded c(1)] bytes
        by (simp add: i_def [symmetric] off_def [symmetric])
    next
      case off: False
      have "len - (4 - off) \<le> 4 * length rest" using len start(2) by arith
      from other_bytes_eq [OF this, of "take len (drop off (word_bytes w))"] show ?thesis
        using off False range n rest start(2) first_bytes_eq [of off len w] unfolding c(1) bytes_of [unfolded c(1)] bytes
        by (simp add: i_def [symmetric] off_def [symmetric])
    qed
  qed
qed

section \<open>The traversal from left to right\<close>

text \<open>The chunks of a tree, and what the traversal does with them: \<open>p\<close> is the position of the first chunk,
  and the range is \<open>{s..<e}\<close>.  The result says whether the callback stopped the traversal.\<close>

fun chunks_of :: "shtring_tree \<Rightarrow> shtring_tree list" where
  "chunks_of (CELL_shtring_chunk n ws) = [CELL_shtring_chunk n ws]"
| "chunks_of (CELL_shtring_node n h ts) = concat (map chunks_of ts)"

fun run_chunks :: "'a monkey_fun \<Rightarrow> nat \<Rightarrow> nat \<Rightarrow> nat \<Rightarrow> shtring_tree list \<Rightarrow> 'a \<Rightarrow> (bool \<times> 'a) option" where
  "run_chunks f s e p [] arg = Some (False, arg)"
| "run_chunks f s e p (c # cs) arg =
    (if p < e \<and> p + length (text_of c) > s then do {
       (ret, arg) \<leftarrow> f c (of_nat (s - p)) (of_nat (p - s)) (of_nat (min (p + length (text_of c)) e - max p s)) arg;
       if ret = - 1 then Some (True, arg) else run_chunks f s e (p + length (text_of c)) cs arg }
     else run_chunks f s e (p + length (text_of c)) cs arg)"

lemma run_chunks_append:
  "run_chunks f s e p (cs @ ds) arg = do {
     (stop, arg) \<leftarrow> run_chunks f s e p cs arg;
     if stop then Some (True, arg) else run_chunks f s e (p + length (concat (map text_of cs))) ds arg }"
  by (induction cs arbitrary: p arg) (auto simp: add.assoc split: bind_splits)

lemma run_chunks_outside:
  "e \<le> p \<or> p + length (concat (map text_of cs)) \<le> s \<Longrightarrow> run_chunks f s e p cs arg = Some (False, arg)"
  by (induction cs arbitrary: p) auto

lemma chunks_of_ok: "tree_ok h t \<Longrightarrow> (\<forall>c \<in> set (chunks_of t). tree_ok 1 c) \<and> concat (map text_of (chunks_of t)) = text_of t"
proof (induction t arbitrary: h)
  case (CELL_shtring_node n h' ts)
  have kids: "\<forall>t \<in> set ts. tree_ok (h - 1) t" using CELL_shtring_node.prems by simp
  have "(\<forall>c \<in> set (concat (map chunks_of us)). tree_ok 1 c) \<and> concat (map text_of (concat (map chunks_of us))) = concat (map text_of us)"
    if "set us \<subseteq> set ts" for us
    using that
  proof (induction us)
    case (Cons u us)
    then show ?case using CELL_shtring_node.IH [of u "h - 1"] kids by auto
  qed simp
  from this [OF subset_refl] show ?case by simp
qed auto

lemma monkey_call_eq:
  assumes "tree_ok 1 c" and "unat pos + length (text_of c) < 2 ^ 32" and "unat start + unat len < 2 ^ 32"
  shows "monkey_call c start len pos f arg =
    (if unat pos < unat start + unat len \<and> unat pos + length (text_of c) > unat start then
       f c (of_nat (unat start - unat pos)) (of_nat (unat pos - unat start))
         (of_nat (min (unat pos + length (text_of c)) (unat start + unat len) - max (unat pos) (unat start))) arg
     else Some (0, arg))"
proof -
  obtain n ws where c: "c = CELL_shtring_chunk n ws" using assms(1) by (cases c) auto
  have n: "tree_length c = n" "length (text_of c) = unat n" using length_text [OF assms(1)] c by simp_all
  have e: "unat (start + len) = unat start + unat len" and pn: "unat (pos + n) = unat pos + unat n"
    using assms(2,3) n(2) by (simp_all add: unat_add_lem [THEN iffD1])
  show ?thesis
  proof (cases "pos < start + len \<and> pos + n > start")
    case False
    then have False': "\<not> (unat pos < unat start + unat len \<and> unat pos + unat n > unat start)"
      by (simp add: word_less_nat_alt e pn)
    show ?thesis unfolding monkey_call_def n Let_def if_not_P [OF False] if_not_P [OF False'] ..
  next
    case True
    then have range: "unat pos < unat start + unat len" "unat start < unat pos + unat n" by (simp_all add: word_less_nat_alt e pn)
    have off: "(if pos \<ge> start then (0, pos - start) else (start - pos, 0)) =
        (of_nat (unat start - unat pos), of_nat (unat pos - unat start) :: word_t)"
      by (simp add: word_le_nat_alt of_nat_diff not_le less_imp_le)
    have len: "(if pos + n \<le> start + len then n - of_nat (unat start - unat pos)
          else start + len - (pos + of_nat (unat start - unat pos))) =
        of_nat (min (unat pos + unat n) (unat start + unat len) - max (unat pos) (unat start))"
    proof -
      define p q l m where "p = unat pos" and "q = unat start" and "l = unat len" and "m = unat n"
      have w: "pos = of_nat p" "start = of_nat q" "len = of_nat l" "n = of_nat m" by (simp_all add: p_def q_def l_def m_def)
      have u: "unat (of_nat p :: word_t) = p" "unat (of_nat q :: word_t) = q" "unat (of_nat l :: word_t) = l" "unat (of_nat m :: word_t) = m"
        by (simp_all add: p_def q_def l_def m_def)
      have le: "pos + n \<le> start + len \<longleftrightarrow> p + m \<le> q + l" by (simp add: word_le_nat_alt e pn p_def q_def l_def m_def)
      have r: "p < q + l" "q < p + m" using range by (simp_all add: p_def q_def l_def m_def)
      have "of_nat m - of_nat (q - p) = (of_nat (p + m - max p q) :: word_t)"
        using r by (subst of_nat_diff [symmetric]) (auto simp: max_def)
      moreover have "of_nat q + of_nat l - (of_nat p + of_nat (q - p)) = (of_nat (q + l - max p q) :: word_t)"
        using r by (simp only: of_nat_add [symmetric], subst of_nat_diff [symmetric]) (auto simp: max_def)
      ultimately show ?thesis
        unfolding le unfolding p_def [symmetric] q_def [symmetric] l_def [symmetric] m_def [symmetric] w u by (simp add: min_def)
    qed
    show ?thesis unfolding monkey_call_def n Let_def off prod.case len if_P [OF True] if_P [OF conjI [OF range]] ..
  qed
qed

lemma unat_minus_one: "unat (- 1 :: word_t) = 2 ^ 32 - 1"
  by (simp add: unsigned_minus_1_eq_mask mask_eq_exp_minus_1)

definition agrees :: "(int \<times> word_t \<times> 'a) option \<Rightarrow> (bool \<times> 'a) option \<Rightarrow> nat \<Rightarrow> bool" where
  "agrees r q p \<longleftrightarrow> (case r of
      None \<Rightarrow> q = None
    | Some (ret, pos, arg) \<Rightarrow> q = Some (ret = - 1, arg) \<and> (ret \<noteq> - 1 \<longrightarrow> unat pos = p))"

lemma monkey_pos_same: "unat pos + length (text_of t) < 2 ^ 32 \<Longrightarrow> text_of t \<noteq> [] \<Longrightarrow> monkey_pos t pos order = pos"
proof -
  assume a: "unat pos + length (text_of t) < 2 ^ 32" "text_of t \<noteq> []"
  have "pos \<noteq> - 1" using a unat_minus_one by (cases "text_of t") auto
  then show ?thesis by (simp add: monkey_pos_def SHTRING_MONKEY_START_POS_def)
qed

lemma monkey_left:
  assumes range: "unat start + unat len < 2 ^ 32"
  shows "tree_ok h t \<Longrightarrow> unat pos + length (text_of t) < 2 ^ 32 \<Longrightarrow>
    agrees (monkey t start len pos f left_to_right arg)
      (run_chunks f (unat start) (unat start + unat len) (unat pos) (chunks_of t) arg) (unat pos + length (text_of t))"
proof (induction t arbitrary: h pos arg)
  case (CELL_shtring_chunk n ws)
  let ?c = "CELL_shtring_chunk n ws"
  have ok: "tree_ok 1 ?c" using CELL_shtring_chunk.prems by simp
  have n: "length (text_of ?c) = unat n" using length_text [OF ok] by simp
  then have end_pos: "unat (pos + n) = unat pos + unat n"
    using CELL_shtring_chunk.prems by (simp add: unat_add_lem [THEN iffD1])
  note pos = monkey_pos_same [OF CELL_shtring_chunk.prems(2) text_pos [OF ok]]
  show ?case
  proof -
    have m: "monkey ?c start len pos f left_to_right arg = do {
        (ret, arg) \<leftarrow> monkey_call ?c start len pos f arg; Some (ret, pos + n, arg) }"
      unfolding monkey.simps pos by simp
    have r: "run_chunks f (unat start) (unat start + unat len) (unat pos) (chunks_of ?c) arg = do {
        (ret, arg) \<leftarrow> monkey_call ?c start len pos f arg; Some (ret = - 1, arg) }"
      unfolding monkey_call_eq [OF ok CELL_shtring_chunk.prems(2) range] chunks_of.simps run_chunks.simps
      by (auto intro!: Option.bind_cong)
    show ?thesis
      unfolding m r by (cases "monkey_call ?c start len pos f arg") (auto simp: agrees_def end_pos n [simplified])
  qed
next
  case (CELL_shtring_node n h' ts)
  let ?t = "CELL_shtring_node n h' ts"
  note ok = CELL_shtring_node.prems(1) and fits = CELL_shtring_node.prems(2)
  have n: "length (text_of ?t) = unat n" using length_text [OF ok] by simp
  have end_pos: "unat (pos + n) = unat pos + unat n" using n fits by (simp add: unat_add_lem [THEN iffD1])
  have e: "unat (start + len) = unat start + unat len" using range by (simp add: unat_add_lem [THEN iffD1])
  note pos = monkey_pos_same [OF fits text_pos [OF ok]]
  show ?case
  proof (cases "pos \<ge> start + len \<or> pos + n \<le> start")
    case True
    then have "unat start + unat len \<le> unat pos \<or> unat pos + length (concat (map text_of (chunks_of ?t))) \<le> unat start"
      unfolding chunks_of_ok [OF ok, THEN conjunct2] n by (simp add: word_le_nat_alt e end_pos)
    from run_chunks_outside [OF this] show ?thesis
      using True unfolding monkey.simps pos Let_def monkey_order.case n by (simp add: agrees_def end_pos)
  next
    case False
    have "agrees (monkey_loop us ret start len pos f left_to_right arg)
        (run_chunks f (unat start) (unat start + unat len) (unat pos) (concat (map chunks_of us)) arg)
        (unat pos + length (concat (map text_of us)))"
      if "set us \<subseteq> set ts" "ret \<noteq> - 1" "unat pos + length (concat (map text_of us)) < 2 ^ 32" for us ret pos arg
      using that
    proof (induction us arbitrary: ret pos arg)
      case Nil
      then show ?case by (simp add: agrees_def)
    next
      case (Cons u us)
      have u: "tree_ok (h - 1) u" "unat pos + length (text_of u) < 2 ^ 32" using Cons.prems ok by auto
      note chunks = chunks_of_ok [OF u(1), THEN conjunct2]
      have step: "agrees (monkey u start len pos f left_to_right arg)
          (run_chunks f (unat start) (unat start + unat len) (unat pos) (chunks_of u) arg) (unat pos + length (text_of u))"
        using CELL_shtring_node.IH [OF _ u] Cons.prems(1) by simp
      show ?case
      proof (cases "monkey u start len pos f left_to_right arg")
        case None
        then show ?thesis using step Cons.prems by (simp add: agrees_def run_chunks_append)
      next
        case (Some r)
        obtain ret' pos' arg' where r: "r = (ret', pos', arg')" by (cases r) auto
        have run: "run_chunks f (unat start) (unat start + unat len) (unat pos) (chunks_of u) arg = Some (ret' = - 1, arg')"
            "ret' \<noteq> - 1 \<longrightarrow> unat pos' = unat pos + length (text_of u)"
          using step by (simp_all add: agrees_def Some r)
        show ?thesis
        proof (cases "ret' = - 1")
          case True
          then show ?thesis using run(1) Cons.prems Some r by (cases us) (simp_all add: agrees_def run_chunks_append)
        next
          case False
          then have p: "unat pos' = unat pos + length (text_of u)" using run(2) by simp
          have "agrees (monkey_loop us ret' start len pos' f left_to_right arg')
              (run_chunks f (unat start) (unat start + unat len) (unat pos') (concat (map chunks_of us)) arg')
              (unat pos' + length (concat (map text_of us)))"
            using Cons.prems False p by (intro Cons.IH) auto
          then show ?thesis
            using False run(1) Cons.prems Some r by (simp add: run_chunks_append chunks p add.assoc)
        qed
      qed
    qed
    from this [OF subset_refl, of 0 pos arg] show ?thesis
      using False fits unfolding monkey.simps pos Let_def monkey_order.case if_not_P [OF False] by simp
  qed
qed

lemma shtring_monkey_left:
  assumes "shtring_ok s" and "unat start + unat len < 2 ^ 32"
  shows "agrees (shtring_monkey (SHTRING_CHUNK_TREE s) start len SHTRING_MONKEY_START_POS f left_to_right arg)
    (run_chunks f (unat start) (unat start + unat len) 0
      (case SHTRING_CHUNK_TREE s of None \<Rightarrow> [] | Some t \<Rightarrow> chunks_of t) arg)
    (if SHTRING_CHUNK_TREE s = None then 2 ^ 32 - 1 else length (tree_text (SHTRING_CHUNK_TREE s)))"
proof (cases "SHTRING_CHUNK_TREE s")
  case None
  then show ?thesis by (simp add: shtring_monkey_def agrees_def SHTRING_MONKEY_START_POS_def unat_minus_one)
next
  case (Some t)
  have ok: "tree_ok (SHTRING_HEIGHT s) t" using assms(1) Some by (simp add: shtring_ok_def)
  have fits: "unat (0 :: word_t) + length (text_of t) < 2 ^ 32" using text_fits [OF ok] by simp
  have pos: "monkey_pos t 0 left_to_right = 0" "monkey_pos t SHTRING_MONKEY_START_POS left_to_right = 0"
    using monkey_pos_same [OF fits text_pos [OF ok]] by (simp_all add: monkey_pos_def)
  have "monkey t start len SHTRING_MONKEY_START_POS f left_to_right arg = monkey t start len 0 f left_to_right arg"
    using pos by (cases t) simp_all
  then show ?thesis
    using monkey_left [OF assms(2) ok fits, of f arg] Some by (simp add: shtring_monkey_def)
qed

section \<open>Reading a range\<close>

lemma piece_append:
  fixes p s e :: nat
  shows "drop (s - p) (take (e - p) (T1 @ T2)) = take (min (p + length T1) e - max p s) (drop (s - p) T1) @
    drop (s - (p + length T1)) (take (e - (p + length T1)) T2)"
proof -
  have "take (e - p - (s - p)) (drop (s - p) T1) = take (min (p + length T1) e - max p s) (drop (s - p) T1)"
    by (cases "p + length T1 \<le> e"; cases "p \<le> s") (auto simp: min_def max_def)
  moreover have "e - p - length T1 = e - (p + length T1)" "s - p - min (length T1) (e - p) = s - (p + length T1) \<or> e - (p + length T1) = 0"
    by auto
  ultimately show ?thesis by (auto simp: drop_take)
qed

text \<open>A callback that folds the bytes of its piece into \<open>arg\<close>, by a function \<open>g\<close> that may take them
  in pieces, folds the bytes of the range.\<close>

lemma run_bytes:
  assumes "\<forall>c \<in> set cs. tree_ok 1 c"
    and call: "\<And>c p q l arg. tree_ok 1 c \<Longrightarrow> s - p + l \<le> length (text_of c) \<Longrightarrow>
      f c (of_nat (s - p)) q (of_nat l) arg = Some (0, g arg (take l (drop (s - p) (text_of c))))"
    and g: "\<And>a. g a [] = a" "\<And>a xs ys. g (g a xs) ys = g a (xs @ ys)"
  shows "run_chunks f s e p cs arg = Some (False, g arg (drop (s - p) (take (e - p) (concat (map text_of cs)))))"
  using assms(1)
proof (induction cs arbitrary: p arg)
  case Nil
  then show ?case by (simp add: g)
next
  case (Cons c cs)
  define n where "n = length (text_of c)"
  define l where "l = min (p + n) e - max p s"
  have ok: "tree_ok 1 c" using Cons.prems by simp
  have rest: "run_chunks f s e (p + n) cs arg' =
      Some (False, g arg' (drop (s - (p + n)) (take (e - (p + n)) (concat (map text_of cs)))))" for arg'
    using Cons.IH Cons.prems by simp
  have split: "drop (s - p) (take (e - p) (concat (map text_of (c # cs)))) = take l (drop (s - p) (text_of c)) @
      drop (s - (p + n)) (take (e - (p + n)) (concat (map text_of cs)))"
    unfolding l_def n_def using piece_append [of s p e "text_of c"] by simp
  show ?case
  proof (cases "p < e \<and> s < p + n")
    case True
    then have "s - p + l \<le> n" by (auto simp: l_def)
    then show ?thesis
      unfolding run_chunks.simps n_def [symmetric] l_def [symmetric] split using True rest
      by (simp add: call [OF ok] n_def g)
  next
    case False
    then have none: "take l (drop (s - p) (text_of c)) = []" by (auto simp: l_def n_def)
    show ?thesis unfolding run_chunks.simps n_def [symmetric] split if_not_P [OF False] rest none by simp
  qed
qed

lemma chunk_range:
  assumes "tree_ok 1 c" and "a + l \<le> length (text_of c)"
  shows "unat (of_nat a :: word_t) = a" "unat (of_nat l :: word_t) = l" "of_nat a + of_nat l \<le> tree_length c"
proof -
  have n: "length (text_of c) \<le> 32" using assms(1) by (cases c) auto
  show u: "unat (of_nat a :: word_t) = a" "unat (of_nat l :: word_t) = l"
    using assms(2) n by (simp_all add: unat_of_nat)
  have "unat (of_nat a + of_nat l :: word_t) = a + l" using assms(2) n u by (subst unat_plus) simp_all
  then show "of_nat a + of_nat l \<le> tree_length c"
    using assms(2) length_text [OF assms(1)] by (simp add: word_le_nat_alt)
qed

lemma collect_string_eq:
  assumes "tree_ok 1 c" and "a + l \<le> length (text_of c)"
  shows "collect_string c (of_nat a) q (of_nat l) arg = Some (0, arg @ take l (drop a (text_of c)))"
  using chunk_range [OF assms] copy_chunk_eq [OF assms] by (simp add: collect_string_def)

lemmas run_collect = run_bytes [where f = collect_string and g = "(@)", OF _ collect_string_eq append_Nil2 append_assoc]

lemma shtring_bounds:
  assumes "shtring_ok s"
  shows "length (tree_text (SHTRING_CHUNK_TREE s)) < 2 ^ 32" and "length (shtring_text s) = unat (SHTRING_LENGTH s)"
    and "unat (SHTRING_OFFSET s) + unat (SHTRING_LENGTH s) \<le> length (tree_text (SHTRING_CHUNK_TREE s))"
  using assms text_fits by (auto simp: shtring_ok_def shtring_text_def tree_text_def split: option.splits)

lemma strat_ok:
  assumes s: "shtring_ok s" and range: "unat pos + unat len \<le> unat (SHTRING_LENGTH s)"
  shows "shtring_strat s pos len = Some (take (unat len) (drop (unat pos) (shtring_text s)))"
proof -
  let ?start = "SHTRING_OFFSET s + pos"
  define cs where "cs = (case SHTRING_CHUNK_TREE s of None \<Rightarrow> [] | Some t \<Rightarrow> chunks_of t)"
  note b = shtring_bounds [OF s]
  have start: "unat ?start = unat (SHTRING_OFFSET s) + unat pos"
    using b(1,3) range by (simp add: unat_add_lem [THEN iffD1])
  have fits: "unat ?start + unat len < 2 ^ 32" using start b(1,3) range by simp
  have cs: "\<forall>c \<in> set cs. tree_ok 1 c" "concat (map text_of cs) = tree_text (SHTRING_CHUNK_TREE s)"
    using s chunks_of_ok unfolding cs_def by (auto simp: shtring_ok_def split: option.splits)
  have "drop (unat ?start) (take (unat ?start + unat len) (tree_text (SHTRING_CHUNK_TREE s))) =
      take (unat len) (drop (unat pos) (shtring_text s))"
    using range unfolding shtring_text_def start by (simp add: drop_take min_def add.commute)
  then have run: "run_chunks collect_string (unat ?start) (unat ?start + unat len) 0 cs [] =
      Some (False, take (unat len) (drop (unat pos) (shtring_text s)))"
    using run_collect [OF cs(1), of "unat ?start" "unat ?start + unat len" 0 "[]"] cs(2) by simp
  have "\<exists>ret aux. shtring_monkey (SHTRING_CHUNK_TREE s) ?start len SHTRING_MONKEY_START_POS collect_string left_to_right [] =
      Some (ret, aux, take (unat len) (drop (unat pos) (shtring_text s)))"
    using shtring_monkey_left [OF s fits, of collect_string "[]"] unfolding cs_def [symmetric] run
    by (auto simp: agrees_def split: option.splits)
  moreover have "length (take (unat len) (drop (unat pos) (shtring_text s))) = unat len" using b(2) range by simp
  ultimately show ?thesis unfolding shtring_strat_def by (auto simp del: length_take)
qed

section \<open>One character\<close>

lemma child_at_ok:
  assumes "\<forall>t \<in> set ts. tree_ok h t" and "unat start + length (concat (map text_of ts)) < 2 ^ 32"
    and "unat start \<le> unat pos" and "unat pos < unat start + length (concat (map text_of ts))"
  shows "\<exists>q start'. child_at ts start pos = Some (q, start') \<and> tree_ok h q \<and> unat start' \<le> unat pos \<and>
    unat pos < unat start' + length (text_of q) \<and> unat start' + length (text_of q) < 2 ^ 32 \<and>
    text_of q ! (unat pos - unat start') = concat (map text_of ts) ! (unat pos - unat start)"
  using assms
proof (induction ts arbitrary: start)
  case (Cons q ts)
  have ok: "tree_ok h q" using Cons.prems(1) by simp
  note n = length_text [OF ok]
  have e: "unat (start + tree_length q) = unat start + length (text_of q)"
    using Cons.prems(2) n by (simp add: unat_add_lem [THEN iffD1])
  show ?case
  proof (cases "pos < start + tree_length q")
    case True
    then have "unat pos - unat start < length (text_of q)" using Cons.prems(3) by (simp add: word_less_nat_alt e less_diff_conv2 add.commute)
    then show ?thesis using True ok Cons.prems(2,3) e by (simp add: word_less_nat_alt nth_append)
  next
    case False
    then have le: "unat start + length (text_of q) \<le> unat pos" by (simp add: word_less_nat_alt e)
    obtain q' start' where q': "child_at ts (start + tree_length q) pos = Some (q', start')" "tree_ok h q'"
        "unat start' \<le> unat pos" "unat pos < unat start' + length (text_of q')" "unat start' + length (text_of q') < 2 ^ 32"
        "text_of q' ! (unat pos - unat start') = concat (map text_of ts) ! (unat pos - unat (start + tree_length q))"
      using Cons.IH [of "start + tree_length q"] Cons.prems le e by auto
    have "concat (map text_of ts) ! (unat pos - unat (start + tree_length q)) =
        concat (map text_of (q # ts)) ! (unat pos - unat start)"
    proof -
      have "\<not> unat pos - unat start < length (text_of q)" using le by arith
      then show ?thesis by (simp add: e nth_append)
    qed
    then show ?thesis using False q' by simp
  qed
qed simp

lemma find_chunk_loop_ok:
  assumes "tree_ok h t" and "unat start + length (text_of t) < 2 ^ 32" and "unat start \<le> unat pos"
    and "unat pos < unat start + length (text_of t)"
  shows "\<exists>c start'. find_chunk_loop h t start pos = Some (c, start') \<and> tree_ok 1 c \<and> unat start' \<le> unat pos \<and>
    unat pos < unat start' + length (text_of c) \<and> text_of c ! (unat pos - unat start') = text_of t ! (unat pos - unat start)"
  using assms
proof (induction h t start pos rule: find_chunk_loop.induct)
  case (1 h n h' ts start pos)
  have kids: "\<forall>t \<in> set ts. tree_ok (Suc h) t" using "1.prems"(1) by simp
  obtain q start' where q: "child_at ts start pos = Some (q, start')" "tree_ok (Suc h) q" "unat start' \<le> unat pos"
      "unat pos < unat start' + length (text_of q)" "unat start' + length (text_of q) < 2 ^ 32"
      "text_of q ! (unat pos - unat start') = concat (map text_of ts) ! (unat pos - unat start)"
    using child_at_ok [OF kids, of start pos] "1.prems" by auto
  note height = tree_ok_height [OF q(2)]
  show ?case using "1.IH" [OF q(1) refl height [symmetric] q(2,5,3,4)] q(1,6) by (simp add: height)
next
  case "3_1"
  then show ?case using tree_ok_pos by fastforce
qed (auto dest: tree_ok_pos)

lemma charat_ok:
  assumes s: "shtring_ok s" and pos: "unat pos < unat (SHTRING_LENGTH s)"
  shows "shtring_charat s pos = Some (shtring_text s ! unat pos)"
proof -
  note b = shtring_bounds [OF s]
  obtain t where t: "SHTRING_CHUNK_TREE s = Some t" using b(3) pos by (cases "SHTRING_CHUNK_TREE s") auto
  have ok: "tree_ok (SHTRING_HEIGHT s) t" using s t by (simp add: shtring_ok_def)
  have p: "unat (pos + SHTRING_OFFSET s) = unat pos + unat (SHTRING_OFFSET s)"
    using b(1,3) pos by (simp add: unat_add_lem [THEN iffD1])
  have lt: "unat (pos + SHTRING_OFFSET s) < length (text_of t)" using p b(3) pos t by simp
  obtain c start where c: "find_chunk_loop (SHTRING_HEIGHT s) t 0 (pos + SHTRING_OFFSET s) = Some (c, start)" "tree_ok 1 c"
      "unat start \<le> unat (pos + SHTRING_OFFSET s)" "unat (pos + SHTRING_OFFSET s) < unat start + length (text_of c)"
      "text_of c ! (unat (pos + SHTRING_OFFSET s) - unat start) = text_of t ! (unat (pos + SHTRING_OFFSET s))"
    using find_chunk_loop_ok [OF ok, of 0 "pos + SHTRING_OFFSET s"] lt text_fits [OF ok] by auto
  have find: "find_chunk (Some t) (pos + SHTRING_OFFSET s) = Some (c, start)"
    using lt length_text [OF ok] tree_ok_height [OF ok] c(1) by (simp add: find_chunk_def word_less_nat_alt)
  define k where "k = unat (pos + SHTRING_OFFSET s) - unat start"
  have k: "unat (pos + SHTRING_OFFSET s - start) = k" "k + 1 \<le> length (text_of c)"
    using c(3,4) by (simp_all add: k_def unat_sub word_le_nat_alt)
  have "copy_chunk_to_cstr c k 1 = Some (take 1 (drop k (text_of c)))" by (rule copy_chunk_eq [OF c(2) k(2)])
  moreover have "hd (take 1 (drop k (text_of c))) = text_of t ! (unat (pos + SHTRING_OFFSET s))"
    using k(2) c(5) by (simp add: hd_drop_conv_nth k_def)
  moreover have "shtring_text s ! unat pos = text_of t ! (unat (pos + SHTRING_OFFSET s))"
    using pos b(3) t by (simp add: shtring_text_def p add.commute)
  ultimately show ?thesis
    using pos find k(1) t unfolding shtring_charat_def by (simp add: word_less_nat_alt Let_def)
qed

section \<open>Part of a shtring\<close>

lemma child_from_ok:
  assumes "\<forall>t \<in> set ts. tree_ok h t" and "unat start < length (concat (map text_of ts))"
    and "unat start + len \<le> length (concat (map text_of ts))"
  shows "\<exists>q start' is_last. child_from ts start = Some (q, start', is_last) \<and> tree_ok h q \<and> unat start' < length (text_of q) \<and>
    unat start' \<le> unat start \<and> (is_last \<longrightarrow> unat start' + len \<le> length (text_of q)) \<and>
    (unat start' + len \<le> length (text_of q) \<longrightarrow>
      take len (drop (unat start') (text_of q)) = take len (drop (unat start) (concat (map text_of ts))))"
  using assms
proof (induction ts arbitrary: start)
  case (Cons q ts)
  have ok: "tree_ok h q" using Cons.prems(1) by simp
  note n = length_text [OF ok]
  show ?case
  proof (cases "tree_length q > start")
    case True
    then show ?thesis using ok Cons.prems n by (auto simp: word_less_nat_alt)
  next
    case False
    then have le: "length (text_of q) \<le> unat start" by (simp add: n word_less_nat_alt not_less)
    have e: "unat (start - tree_length q) = unat start - length (text_of q)"
      using False by (simp add: unat_sub n not_less)
    have below: "unat (start - tree_length q) < length (concat (map text_of ts))"
        "unat (start - tree_length q) + len \<le> length (concat (map text_of ts))"
      using Cons.prems(2,3) le e by simp_all
    obtain q' start' is_last where q': "child_from ts (start - tree_length q) = Some (q', start', is_last)" "tree_ok h q'"
        "unat start' < length (text_of q')" "unat start' \<le> unat (start - tree_length q)"
        "is_last \<longrightarrow> unat start' + len \<le> length (text_of q')"
        "unat start' + len \<le> length (text_of q') \<longrightarrow> take len (drop (unat start') (text_of q')) =
          take len (drop (unat (start - tree_length q)) (concat (map text_of ts)))"
      using Cons.IH [OF _ below] Cons.prems(1) by auto
    have "drop (unat (start - tree_length q)) (concat (map text_of ts)) = drop (unat start) (concat (map text_of (q # ts)))"
      using le by (simp add: e)
    then show ?thesis using False q' e by simp
  qed
qed simp

lemma minimal_subtree_loop_ok:
  assumes "tree_ok h t" and "unat start + unat len \<le> length (text_of t)" and "h = 1 \<or> unat start < length (text_of t)"
  shows "\<exists>t' start' h'. minimal_subtree_loop h t start len = Some (t', start') \<and> tree_ok h' t' \<and>
    unat start' + unat len \<le> length (text_of t') \<and>
    take (unat len) (drop (unat start') (text_of t')) = take (unat len) (drop (unat start) (text_of t))"
  using assms
proof (induction h t start len rule: minimal_subtree_loop.induct)
  case (1 h n h' ts start len)
  have kids: "\<forall>t \<in> set ts. tree_ok (Suc h) t" using "1.prems"(1) by simp
  obtain q start' is_last where q: "child_from ts start = Some (q, start', is_last)" "tree_ok (Suc h) q"
      "unat start' < length (text_of q)" "is_last \<longrightarrow> unat start' + unat len \<le> length (text_of q)" "unat start' \<le> unat start"
      "unat start' + unat len \<le> length (text_of q) \<longrightarrow>
        take (unat len) (drop (unat start') (text_of q)) = take (unat len) (drop (unat start) (concat (map text_of ts)))"
    using child_from_ok [OF kids, of start "unat len"] "1.prems"(2,3) by auto
  note n = length_text [OF q(2)] and height = tree_ok_height [OF q(2)]
  have e: "unat (start' + len) = unat start' + unat len"
  proof -
    have "unat start' + unat len < 2 ^ 32" using q(5) "1.prems"(2) text_fits [OF "1.prems"(1)] by linarith
    then show ?thesis by (simp add: unat_add_lem [THEN iffD1])
  qed
  show ?case
  proof (cases "\<not> is_last \<and> tree_length q < start' + len")
    case True
    then have "minimal_subtree_loop (Suc (Suc h)) (CELL_shtring_node n h' ts) start len = Some (CELL_shtring_node n h' ts, start)"
      using q(1) by simp
    then show ?thesis using "1.prems"(1,2) by blast
  next
    case False
    then have fits: "unat start' + unat len \<le> length (text_of q)" using q(4) by (auto simp: word_less_nat_alt e n)
    have c: "Suc h = tree_height q \<and> start' \<le> tree_length q \<and> len \<le> tree_length q \<and> start' + len \<le> tree_length q"
      using fits by (simp add: height word_le_nat_alt n [symmetric] e)
    have "\<exists>t' start'' h'. minimal_subtree_loop (Suc h) q start' len = Some (t', start'') \<and> tree_ok h' t' \<and>
        unat start'' + unat len \<le> length (text_of t') \<and>
        take (unat len) (drop (unat start'') (text_of t')) = take (unat len) (drop (unat start') (text_of q))"
      using "1.IH" [OF q(1) refl refl False c q(2) fits] q(3) by blast
    moreover have step: "minimal_subtree_loop (Suc (Suc h)) (CELL_shtring_node n h' ts) start len = minimal_subtree_loop (Suc h) q start' len"
      by (simp only: minimal_subtree_loop.simps q(1) bind.bind_lunit prod.case if_not_P [OF False] if_P [OF c])
    ultimately show ?thesis unfolding step text_of.simps q(6) [rule_format, OF fits, symmetric] by blast
  qed
next
  case "3_1"
  show ?case using tree_ok_pos [OF "3_1"(1)] by simp
qed auto

lemma copy_ok:
  assumes s: "shtring_ok s" and range: "unat start + unat len \<le> unat (SHTRING_LENGTH s)"
    and inside: "SHTRING_HEIGHT s \<le> 1 \<or> unat (SHTRING_OFFSET s) + unat start < length (tree_text (SHTRING_CHUNK_TREE s))"
  shows "\<exists>s'. shtring_copy s start len ap = Some (s', ap + SHTRING_WORDS) \<and> shtring_ok s' \<and>
    shtring_text s' = take (unat len) (drop (unat start) (shtring_text s))"
proof -
  note b = shtring_bounds [OF s]
  define offset where "offset = SHTRING_OFFSET s + start"
  have off: "unat offset = unat (SHTRING_OFFSET s) + unat start"
    using b(1,3) range by (simp add: offset_def unat_add_lem [THEN iffD1])
  have sum: "unat (start + len) = unat start + unat len"
    using b(1,3) range by (simp add: unat_add_lem [THEN iffD1])
  have cond: "start \<le> SHTRING_LENGTH s \<and> len \<le> SHTRING_LENGTH s \<and> start + len \<le> SHTRING_LENGTH s"
    using range by (simp add: word_le_nat_alt sum)
  have part: "take (unat len) (drop (unat start) (shtring_text s)) =
      take (unat len) (drop (unat offset) (tree_text (SHTRING_CHUNK_TREE s)))"
    using range unfolding shtring_text_def off by (simp add: drop_take min_def add.commute)
  obtain p offset' where p: "minimal_subtree (SHTRING_CHUNK_TREE s) offset len = Some (p, offset')"
      "case p of None \<Rightarrow> True | Some t \<Rightarrow> \<exists>h. tree_ok h t" "unat offset' + unat len \<le> length (tree_text p)"
      "take (unat len) (drop (unat offset') (tree_text p)) = take (unat len) (drop (unat start) (shtring_text s))"
  proof (cases "SHTRING_CHUNK_TREE s")
    case None
    then have "unat offset = 0" "unat len = 0" using off b(3) range by simp_all
    then have "offset = 0" "len = 0" by (simp_all add: unat_eq_0)
    then show ?thesis using None by (intro that [of None 0]) (simp_all add: minimal_subtree_def)
  next
    case (Some t)
    have ok: "tree_ok (SHTRING_HEIGHT s) t" using s Some by (simp add: shtring_ok_def)
    have fits: "unat offset + unat len \<le> length (text_of t)" using off b(3) range Some by simp
    then have "unat (offset + len) = unat offset + unat len"
      using text_fits [OF ok] by (simp add: unat_add_lem [THEN iffD1])
    then have c: "offset \<le> tree_length t \<and> len \<le> tree_length t \<and> offset + len \<le> tree_length t"
      using fits length_text [OF ok] by (simp add: word_le_nat_alt)
    have "SHTRING_HEIGHT s = 1 \<or> unat offset < length (text_of t)"
      using inside off Some tree_ok_pos [OF ok] by auto
    from minimal_subtree_loop_ok [OF ok fits this] obtain t' start' h' where t':
        "minimal_subtree_loop (SHTRING_HEIGHT s) t offset len = Some (t', start')" "tree_ok h' t'"
        "unat start' + unat len \<le> length (text_of t')"
        "take (unat len) (drop (unat start') (text_of t')) = take (unat len) (drop (unat offset) (text_of t))"
      by blast
    show ?thesis
      using t' c Some tree_ok_height [OF ok] part by (intro that [of "Some t'" start']) (auto simp: minimal_subtree_def)
  qed
  have len_p: "unat (shtring_tree_length p) = length (tree_text p)"
    using p(2) length_text by (auto split: option.splits)
  then have "unat (offset' + len) = unat offset' + unat len"
    using p(3) by (intro unat_add_lem [THEN iffD1] le_less_trans [OF _ unsigned_less [of "shtring_tree_length p"]]) simp
  then have c: "offset' \<le> shtring_tree_length p \<and> offset' + len \<le> shtring_tree_length p"
    using p(3) len_p by (simp add: word_le_nat_alt)
  have "shtring_ok \<lparr>SHTRING_OFFSET = offset', SHTRING_LENGTH = len, SHTRING_HEIGHT = shtring_tree_height p, SHTRING_CHUNK_TREE = p\<rparr>"
    using p(2,3) tree_ok_height by (auto simp: shtring_ok_def split: option.splits)
  then show ?thesis
    using cond p(1,4) c unfolding shtring_copy_def offset_def [symmetric]
    by (simp add: shtring_new_shtring_def) (simp add: shtring_text_def)
qed

lemma child_from_end:
  assumes "\<forall>t \<in> set ts. tree_ok h t" and "length (concat (map text_of ts)) \<le> unat start"
  shows "child_from ts start = None"
  using assms
proof (induction ts arbitrary: start)
  case (Cons q ts)
  have n: "length (text_of q) = unat (tree_length q)" using Cons.prems(1) length_text [of h q] by simp
  have le: "tree_length q \<le> start" using Cons.prems(2) by (simp add: word_le_nat_alt n)
  then have "child_from ts (start - tree_length q) = None"
    using Cons.prems by (intro Cons.IH) (auto simp: unat_sub n)
  then show ?case using le by (simp add: not_less)
qed simp

text \<open>A copy of the empty end of a tree with nodes runs off the children and fails the assertion of the
  inner loop of \<^verbatim>\<open>minimal_subtree\<close>.\<close>

lemma copy_end_fails:
  assumes s: "shtring_ok s" and "2 \<le> SHTRING_HEIGHT s"
    and inside: "unat (SHTRING_OFFSET s) + unat start = length (tree_text (SHTRING_CHUNK_TREE s))"
  shows "shtring_copy s start len ap = None"
proof -
  obtain h where h: "SHTRING_HEIGHT s = Suc (Suc h)" using le_Suc_ex [OF assms(2)] by auto
  obtain t where t: "SHTRING_CHUNK_TREE s = Some t" "tree_ok (Suc (Suc h)) t"
    using s h by (cases "SHTRING_CHUNK_TREE s") (auto simp: shtring_ok_def)
  obtain n ts where node: "t = CELL_shtring_node n (Suc (Suc h)) ts" "\<forall>t \<in> set ts. tree_ok (Suc h) t"
    using t(2) by (cases t) auto
  have "unat (SHTRING_OFFSET s + start) = length (text_of t)"
    using inside text_fits [OF t(2)] unfolding t(1) tree_text_simps by (subst unat_plus; simp only:)
  then have "child_from ts (SHTRING_OFFSET s + start) = None"
    using child_from_end [OF node(2)] node(1) by simp
  then show ?thesis
    by (simp add: shtring_copy_def minimal_subtree_def t(1) node(1) Let_def)
qed

section \<open>Comparison\<close>

text \<open>The order of \<^verbatim>\<open>memcmp\<close> on bytes, lexicographic and shorter first.\<close>

definition cmp_bytes :: "byte list \<Rightarrow> byte list \<Rightarrow> cmp_result_t" where
  "cmp_bytes as bs = (if as = bs then CMP_EQUAL else if ord_class.lexordp as bs then CMP_LESS else CMP_GREATER)"

lemma cmp_bytes_simps:
  "cmp_bytes [] [] = CMP_EQUAL" "cmp_bytes [] (b # bs) = CMP_LESS" "cmp_bytes (a # as) [] = CMP_GREATER"
  "cmp_bytes (a # as) (b # bs) = (if a < b then CMP_LESS else if b < a then CMP_GREATER else cmp_bytes as bs)"
  by (auto simp: cmp_bytes_def)

lemma memcmp_append:
  "length as = length bs \<Longrightarrow> cmp_bytes (as @ as') (bs @ bs') =
    (if memcmp as bs < 0 then CMP_LESS else if memcmp as bs > 0 then CMP_GREATER else cmp_bytes as' bs')"
  by (induction as bs rule: list_induct2) (auto simp: cmp_bytes_simps)

lemma cmp_bytes_end:
  "as = [] \<or> bs = [] \<Longrightarrow> cmp_bytes as bs =
    (if length as < length bs then CMP_LESS else if length as > length bs then CMP_GREATER else CMP_EQUAL)"
  by (cases as; cases bs) (auto simp: cmp_bytes_simps)

lemma total_cmp_bytes: "total_cmp cmp_bytes"
proof -
  have linear: "ord_class.lexordp as bs \<or> as = bs \<or> ord_class.lexordp bs as" for as bs :: "byte list"
    by (rule lexordp_linear)
  have antisym: "ord_class.lexordp as bs \<Longrightarrow> \<not> ord_class.lexordp bs as" for as bs :: "byte list"
    using lexordp_antisym by blast
  have less: "cmp_bytes as bs = CMP_LESS \<longleftrightarrow> ord_class.lexordp as bs" for as bs
    using lexordp_irreflexive' [of as] by (auto simp: cmp_bytes_def)
  have greater: "cmp_bytes as bs = CMP_GREATER \<longleftrightarrow> ord_class.lexordp bs as" for as bs
    using linear [of as bs] antisym [of as bs] lexordp_irreflexive' [of as] by (auto simp: cmp_bytes_def)
  have equal: "cmp_bytes as bs = CMP_EQUAL \<longleftrightarrow> as = bs" for as bs
    by (simp add: cmp_bytes_def)
  show ?thesis
    unfolding total_cmp_def
  proof (intro conjI allI impI)
    fix as bs
    show "cmp_bytes as bs \<in> {CMP_EQUAL, CMP_LESS, CMP_GREATER}" by (simp add: cmp_bytes_def)
    show "(cmp_bytes as bs = CMP_LESS) = (cmp_bytes bs as = CMP_GREATER)" by (simp only: less greater)
  next
    fix as bs cs
    assume "cmp_bytes as bs = CMP_LESS" "cmp_bytes bs cs = CMP_LESS"
    then show "cmp_bytes as cs = CMP_LESS" unfolding less by (rule lexordp_trans)
  qed (simp_all add: equal)
qed

lemma cmp_loop_ok:
  assumes s1: "shtring_ok s1" and s2: "shtring_ok s2"
    and len: "unat len = min (unat (SHTRING_LENGTH s1)) (unat (SHTRING_LENGTH s2))" and small: "unat len + 10240 < 2 ^ 32"
    and "unat pos \<le> unat len" and "n = CMP_BUF \<or> pos = len"
  shows "cmp_loop s1 s2 len n pos =
    Some (cmp_bytes (drop (unat pos) (shtring_text s1)) (drop (unat pos) (shtring_text s2)))"
  using assms(5,6)
proof (induction "unat len - unat pos" arbitrary: pos n rule: less_induct)
  case less
  note b1 = shtring_bounds [OF s1] and b2 = shtring_bounds [OF s2]
  define t1 t2 where "t1 = drop (unat pos) (shtring_text s1)" and "t2 = drop (unat pos) (shtring_text s2)"
  show ?case
  proof (cases "pos < len")
    case True
    then have lt: "unat pos < unat len" by (simp add: word_less_nat_alt)
    define m where "m = (if pos + CMP_BUF > len then len - pos else n)"
    have sum: "unat (pos + CMP_BUF) = unat pos + 10240" using lt small by (subst unat_plus) (simp_all add: CMP_BUF_def)
    have n: "n = CMP_BUF" using less.prems(2) True by auto
    have m: "0 < unat m" "unat pos + unat m \<le> unat len" "m = CMP_BUF \<or> unat pos + unat m = unat len"
      using lt sum unfolding m_def n by (auto simp: word_less_nat_alt unat_sub word_le_nat_alt CMP_BUF_def)
    have strat: "shtring_strat s1 pos m = Some (take (unat m) t1)" "shtring_strat s2 pos m = Some (take (unat m) t2)"
      unfolding t1_def t2_def using strat_ok [OF s1] strat_ok [OF s2] m(2) len by simp_all
    have pm: "unat (pos + m) = unat pos + unat m" using m(2) small by (subst unat_plus) simp_all
    then have "pos + m = len \<or> m = CMP_BUF" using m(3) by (auto simp: word_unat_eq_iff)
    then have IH: "cmp_loop s1 s2 len m (pos + m) = Some (cmp_bytes (drop (unat m) t1) (drop (unat m) t2))"
    proof -
      have dec: "unat len - unat (pos + m) < unat len - unat pos" unfolding pm using m(1) lt by linarith
      have "m = CMP_BUF \<or> pos + m = len" using \<open>pos + m = len \<or> m = CMP_BUF\<close> by blast
      from less.hyps [OF dec _ this] show ?thesis using m(2) unfolding pm t1_def t2_def by (simp add: add.commute)
    qed
    have "length (take (unat m) t1) = length (take (unat m) t2)" using m(2) len b1(2) b2(2) by (simp add: t1_def t2_def le_diff_conv2 min_absorb2 le_diff_conv add.commute)
    from memcmp_append [OF this, of "drop (unat m) t1" "drop (unat m) t2"]
    have cmp: "cmp_bytes t1 t2 = (if memcmp (take (unat m) t1) (take (unat m) t2) < 0 then CMP_LESS
        else if memcmp (take (unat m) t1) (take (unat m) t2) > 0 then CMP_GREATER
        else cmp_bytes (drop (unat m) t1) (drop (unat m) t2))" by simp
    show ?thesis
      unfolding t1_def [symmetric] t2_def [symmetric] cmp_loop.simps [of s1 s2 len n pos] m_def [symmetric] Let_def if_P [OF True]
        strat cmp IH bind.bind_lunit by simp
  next
    case False
    then have "unat pos = unat len" using less.prems(1) by (simp add: word_less_nat_alt)
    then have e: "t1 = [] \<or> t2 = []" "length t1 < length t2 \<longleftrightarrow> SHTRING_LENGTH s1 < SHTRING_LENGTH s2"
        "length t2 < length t1 \<longleftrightarrow> SHTRING_LENGTH s2 < SHTRING_LENGTH s1"
      using len b1(2) b2(2) by (auto simp: t1_def t2_def word_less_nat_alt)
    show ?thesis
      unfolding t1_def [symmetric] t2_def [symmetric] cmp_loop.simps [of s1 s2 len n pos] if_not_P [OF False] cmp_bytes_end [OF e(1)]
      using e(2,3) by simp
  qed
qed

lemma cmp_ok:
  assumes "shtring_ok s1" and "shtring_ok s2" and "length (shtring_text s1) + 10240 < 2 ^ 32"
  shows "shtring_cmp_without_allocating s1 s2 = Some (cmp_bytes (shtring_text s1) (shtring_text s2))"
proof -
  define len where "len = (if SHTRING_LENGTH s1 < SHTRING_LENGTH s2 then SHTRING_LENGTH s1 else SHTRING_LENGTH s2)"
  have len: "unat len = min (unat (SHTRING_LENGTH s1)) (unat (SHTRING_LENGTH s2))"
    by (simp add: len_def word_less_nat_alt)
  have "unat len + 10240 < 2 ^ 32" using len assms(3) shtring_bounds(2) [OF assms(1)] by simp
  from cmp_loop_ok [OF assms(1,2) len this, of 0 CMP_BUF] show ?thesis
    unfolding shtring_cmp_without_allocating_def Let_def len_def [symmetric] by simp
qed

end
