(* ===== verification/Shtring_Cat.thy ===== *)
theory Shtring_Cat
  imports Shtring_Text
begin

text \<open>
  Catenation (\<^verbatim>\<open>shtring_cat\<close>).  \<open>mem\<close> is what the first generation holds at an allocation point: a chunk of
  \<^verbatim>\<open>shtring_new_chunk\<close> starts with it.  Trimming a tree goes wrong in several ways, which \<open>None\<close> (a failed
  assertion, or a write behind a chunk) and the theorems below show; trees that need no trimming are
  catenated to trees of the invariant, inside the allocation bound, unless a node of one child stands on
  the path to the place where they are joined.
\<close>

section \<open>Trimming\<close>

definition shtring_new_chunk :: "(nat \<Rightarrow> word_t) \<Rightarrow> word_t \<Rightarrow> nat \<Rightarrow> (shtring_tree \<times> nat) option" where
  "shtring_new_chunk mem n ap =
    (if n > 0 then
       let size = SHTRING_CHUNK_WORDS_NEEDED (unat n)
       in Some (CELL_shtring_chunk n (map (\<lambda>i. mem (ap + size - i)) [2..<size + 1]), ap + size)
     else None)"

text \<open>\<^verbatim>\<open>memcpy\<close> of \<open>k\<close> bytes between words in little endian order.\<close>

fun memcpy :: "nat \<Rightarrow> word_t list \<Rightarrow> word_t list \<Rightarrow> word_t list option" where
  "memcpy 0 qs ps = Some qs"
| "memcpy k (q # qs) (p # ps) =
    (if k \<ge> 4 then do { ws \<leftarrow> memcpy (k - 4) qs ps; Some (p # ws) }
     else Some ((p AND mask (8 * k) OR q AND NOT (mask (8 * k))) # qs))"
| "memcpy k qs ps = None"

fun shift_loop :: "nat \<Rightarrow> word_t \<Rightarrow> word_t list \<Rightarrow> word_t list \<Rightarrow> word_t list option" where
  "shift_loop off len [] ps = None"
| "shift_loop off len (q # qs) ps =
    (if of_nat off + len > 4 then case ps of
        p # p' # ps \<Rightarrow> do {
          ws \<leftarrow> shift_loop off (len - 4) qs (p' # ps);
          Some ((push_bit (8 * off) p OR drop_bit (8 * (4 - off)) p') # ws) }
      | _ \<Rightarrow> None
     else case ps of p # ps \<Rightarrow> Some (push_bit (8 * off) p # qs) | [] \<Rightarrow> None)"

fun copy_chunk_text :: "shtring_tree \<Rightarrow> shtring_tree \<Rightarrow> nat \<Rightarrow> shtring_tree option" where
  "copy_chunk_text (CELL_shtring_chunk m qs) (CELL_shtring_chunk n ps) start =
    (if start \<le> unat n then do {
       let off = start mod 4;
       qs \<leftarrow> (if off = 0 then memcpy (unat (shtring_idiv m 4)) qs (drop (start div 4) ps)
         else shift_loop off m qs (drop (start div 4) ps));
       Some (CELL_shtring_chunk m qs) }
     else None)"
| "copy_chunk_text q p start = None"

definition trimmed_chunk :: "(nat \<Rightarrow> word_t) \<Rightarrow> shtring_tree \<Rightarrow> word_t \<Rightarrow> nat \<Rightarrow> nat \<Rightarrow> (shtring_tree \<times> nat) option" where
  "trimmed_chunk mem p n start ap = do {
     (q, ap) \<leftarrow> shtring_new_chunk mem n ap;
     q \<leftarrow> copy_chunk_text q p start;
     Some (q, ap) }"

fun skip_left :: "shtring_tree list \<Rightarrow> nat \<Rightarrow> word_t \<Rightarrow> (nat \<times> word_t) option" where
  "skip_left ts i start =
    (if start > 0 then case ts of
        [] \<Rightarrow> None
      | t # ts \<Rightarrow> if start < tree_length t then Some (i, start) else skip_left ts (i + 1) (start - tree_length t)
     else Some (i, start))"

text \<open>The children come in reverse order, the last one first.\<close>

fun skip_right :: "shtring_tree list \<Rightarrow> nat \<Rightarrow> nat \<Rightarrow> word_t \<Rightarrow> nat \<times> word_t" where
  "skip_right [] i j end_len = (j, end_len)"
| "skip_right (t # ts) i j end_len =
    (if end_len > 0 \<and> j > i then
       if end_len < tree_length t then (j, end_len) else skip_right ts i (j - 1) (end_len - tree_length t)
     else (j, end_len))"

fun skip_single :: "nat \<Rightarrow> shtring_tree \<Rightarrow> shtring_tree" where
  "skip_single (Suc (Suc h)) (CELL_shtring_node n h' [t]) = skip_single (Suc h) t"
| "skip_single h q = q"

text \<open>The argument \<open>h\<close> is the height of the tree; the second copy of the lowest level takes its bytes from
  child \<open>i\<close>, as the code does.\<close>

fun trim_ends :: "(nat \<Rightarrow> word_t) \<Rightarrow> nat \<Rightarrow> shtring_tree \<Rightarrow> word_t \<Rightarrow> word_t \<Rightarrow> nat \<Rightarrow> (shtring_tree \<times> nat) option" where
  "trim_ends mem h p start end_len ap =
    (if \<not> start + end_len < tree_length p then None
     else if start = 0 \<and> end_len = 0 then Some (p, ap)
     else case p of
       CELL_shtring_chunk len ws \<Rightarrow> trimmed_chunk mem p (len - start - end_len) (unat start) ap
     | CELL_shtring_node len height ts \<Rightarrow> (case h of 0 \<Rightarrow> None | Suc h \<Rightarrow> do {
         (i, start) \<leftarrow> skip_left ts 1 start;
         let (j, end_len) = skip_right (rev ts) i (length ts) end_len;
         if i \<le> j then do {
           (q, ap) \<leftarrow> shtring_new_node (j - i + 1) height ap;
           let pi = ts ! (i - 1);
           let pj = ts ! (j - 1);
           (left, right, ap) \<leftarrow>
             (if height > 2 then
                if i = j then do {
                  (left, ap) \<leftarrow> trim_ends mem h pi start end_len ap;
                  Some (left, None, ap) }
                else do {
                  (left, ap) \<leftarrow> trim_ends mem h pi start 0 ap;
                  (right, ap) \<leftarrow> trim_ends mem h pj 0 end_len ap;
                  Some (left, Some right, ap) }
              else
                if i = j then do {
                  (left, ap) \<leftarrow> trimmed_chunk mem pi (tree_length pi - start - end_len) (unat start) ap;
                  Some (left, None, ap) }
                else do {
                  (left, ap) \<leftarrow> trimmed_chunk mem pi (tree_length pi - start) (unat start) ap;
                  (right, ap) \<leftarrow> trimmed_chunk mem pi (tree_length pj - end_len) 0 ap;
                  Some (left, Some right, ap) });
           q \<leftarrow> shtring_add_child q left (tree_length left);
           q \<leftarrow> add_kids q (take (j - 1 - i) (drop i ts));
           q \<leftarrow> (case right of None \<Rightarrow> Some q | Some right \<Rightarrow> shtring_add_child q right (tree_length right));
           q \<leftarrow> node_cell q;
           Some (skip_single height q, ap) }
         else None }))"

declare trim_ends.simps [simp del] skip_left.simps [simp del]

section \<open>Catenation\<close>

fun make_of_height_loop :: "nat \<Rightarrow> shtring_tree \<Rightarrow> nat \<Rightarrow> word_t \<Rightarrow> nat \<Rightarrow> (shtring_tree \<times> nat) option" where
  "make_of_height_loop 0 p current len ap = Some (p, ap)"
| "make_of_height_loop (Suc k) p current len ap = do {
     let current = current + 1;
     (q, ap) \<leftarrow> shtring_new_node 1 current ap;
     q \<leftarrow> shtring_add_child q p len;
     q \<leftarrow> node_cell q;
     make_of_height_loop k q current len ap }"

definition make_of_height :: "shtring_tree \<Rightarrow> nat \<Rightarrow> nat \<Rightarrow> (shtring_tree \<times> nat) option" where
  "make_of_height p h ap =
    (if tree_height p \<le> h then make_of_height_loop (h - tree_height p) p (tree_height p) (tree_length p) ap else None)"

fun node_children :: "shtring_tree \<Rightarrow> shtring_tree list" where
  "node_children (CELL_shtring_node n h ts) = ts"
| "node_children (CELL_shtring_chunk n ws) = []"

text \<open>The inner \<open>None\<close> is the \<^verbatim>\<open>NULL_PTR\<close> of a failed attempt.\<close>

function (sequential) cat_recursive :: "shtring_tree \<Rightarrow> nat \<Rightarrow> shtring_tree \<Rightarrow> nat \<Rightarrow> nat \<Rightarrow> (shtring_tree option \<times> nat) option" where
  "cat_recursive p1 h1 p2 h2 ap =
    (let ts1 = node_children p1; ts2 = node_children p2; n1 = length ts1; n2 = length ts2 in
     if \<not> (h1 > 0 \<and> h2 > 0 \<and> h1 = tree_height p1 \<and> h2 = tree_height p2) then None
     else if h1 = h2 then
       if h1 = 1 \<or> n1 + n2 > MAX_SHTRING_NODE_CHILDREN then Some (None, ap)
       else do {
         (q, ap) \<leftarrow> shtring_new_node (n1 + n2) h1 ap;
         q \<leftarrow> shtring_add_children q ts1 1 n1;
         q \<leftarrow> shtring_add_children q ts2 1 n2;
         q \<leftarrow> node_cell q;
         Some (Some q, ap) }
     else if h1 < h2 then
       if ts2 = [] then None
       else do {
         (q, ap) \<leftarrow> cat_recursive p1 h1 (hd ts2) (h2 - 1) ap;
         (case q of
           None \<Rightarrow> Some (None, ap)
         | Some q \<Rightarrow> do {
             (qq, ap) \<leftarrow> shtring_new_node n2 h2 ap;
             qq \<leftarrow> shtring_add_child qq q (tree_length q);
             qq \<leftarrow> shtring_add_children qq ts2 2 n2;
             qq \<leftarrow> node_cell qq;
             Some (Some qq, ap) }) }
     else
       if ts1 = [] then None
       else do {
         (q, ap) \<leftarrow> cat_recursive (last ts1) (h1 - 1) p2 h2 ap;
         (case q of
           None \<Rightarrow> Some (None, ap)
         | Some q \<Rightarrow> do {
             (qq, ap) \<leftarrow> shtring_new_node n1 h1 ap;
             qq \<leftarrow> shtring_add_children qq ts1 1 (n1 - 1);
             qq \<leftarrow> shtring_add_child qq q (tree_length q);
             qq \<leftarrow> node_cell qq;
             Some (Some qq, ap) }) })"
  by pat_completeness auto
termination
  by (relation "measure (\<lambda>(p1, h1, p2, h2, ap). h1 + h2)") auto

declare cat_recursive.simps [simp del]

definition new_root :: "shtring_tree \<Rightarrow> shtring_tree \<Rightarrow> nat \<Rightarrow> nat \<Rightarrow> (shtring_tree \<times> nat) option" where
  "new_root p1 p2 height ap = do {
     (q, ap) \<leftarrow> shtring_new_node 2 height ap;
     q \<leftarrow> shtring_add_child q p1 (tree_length p1);
     q \<leftarrow> shtring_add_child q p2 (tree_length p2);
     q \<leftarrow> node_cell q;
     Some (q, ap) }"

definition cat_trees :: "shtring_tree \<Rightarrow> nat \<Rightarrow> shtring_tree \<Rightarrow> nat \<Rightarrow> nat \<Rightarrow> (shtring_tree \<times> nat) option" where
  "cat_trees p1 h1 p2 h2 ap = do {
     (q, ap) \<leftarrow> cat_recursive p1 h1 p2 h2 ap;
     (case q of
       Some q \<Rightarrow> Some (q, ap)
     | None \<Rightarrow>
         if h1 = h2 then new_root p1 p2 (h1 + 1) ap
         else if h1 < h2 then
           let n = length (node_children p2) in
           if n < MAX_SHTRING_NODE_CHILDREN then do {
             (p1, ap) \<leftarrow> make_of_height p1 (h2 - 1) ap;
             (q, ap) \<leftarrow> shtring_new_node (n + 1) h2 ap;
             q \<leftarrow> shtring_add_child q p1 (tree_length p1);
             q \<leftarrow> shtring_add_children q (node_children p2) 1 n;
             q \<leftarrow> node_cell q;
             Some (q, ap) }
           else do {
             (p1, ap) \<leftarrow> make_of_height p1 h2 ap;
             new_root p1 p2 (h2 + 1) ap }
         else
           let n = length (node_children p1) in
           if n < MAX_SHTRING_NODE_CHILDREN then do {
             (p2, ap) \<leftarrow> make_of_height p2 (h1 - 1) ap;
             (q, ap) \<leftarrow> shtring_new_node (n + 1) h1 ap;
             q \<leftarrow> shtring_add_children q (node_children p1) 1 n;
             q \<leftarrow> shtring_add_child q p2 (tree_length p2);
             q \<leftarrow> node_cell q;
             Some (q, ap) }
           else do {
             (p2, ap) \<leftarrow> make_of_height p2 h1 ap;
             new_root p1 p2 (h1 + 1) ap }) }"

definition shtring_cat :: "(nat \<Rightarrow> word_t) \<Rightarrow> shtring \<Rightarrow> shtring \<Rightarrow> nat \<Rightarrow> (shtring \<times> nat) option" where
  "shtring_cat mem shtr1 shtr2 ap =
    (case (SHTRING_CHUNK_TREE shtr1, SHTRING_CHUNK_TREE shtr2) of
      (None, _) \<Rightarrow> Some (shtr2, ap)
    | (Some p1, None) \<Rightarrow> Some (shtr1, ap)
    | (Some p1, Some p2) \<Rightarrow> do {
        (p1, ap) \<leftarrow> trim_ends mem (tree_height p1) p1 0 (tree_length p1 - SHTRING_OFFSET shtr1 - SHTRING_LENGTH shtr1) ap;
        (p2, ap) \<leftarrow> trim_ends mem (tree_height p2) p2 (SHTRING_OFFSET shtr2) 0 ap;
        (q, ap) \<leftarrow> cat_trees p1 (SHTRING_HEIGHT shtr1) p2 (SHTRING_HEIGHT shtr2) ap;
        shtring_new_shtring (SHTRING_OFFSET shtr1) (SHTRING_LENGTH shtr1 + SHTRING_LENGTH shtr2) (tree_height q) (Some q) ap })"

section \<open>The allocation bound\<close>

definition needed_for_height :: "shtring_tree option \<Rightarrow> nat \<Rightarrow> nat" where
  "needed_for_height p h = (h - shtring_tree_height p) * SHTRING_NODE_WORDS_NEEDED 1"

definition needed_for_trim :: "shtring_tree option \<Rightarrow> word_t \<Rightarrow> word_t \<Rightarrow> nat option" where
  "needed_for_trim p start end_len = (case p of
      None \<Rightarrow> Some 0
    | Some t \<Rightarrow>
        if \<not> start + end_len \<le> tree_length t then None
        else if start = 0 \<and> end_len = 0 then Some 0
        else Some (2 * SHTRING_CHUNK_WORDS_NEEDED SHTRING_CHUNK_MAX +
          tree_height t * SHTRING_NODE_WORDS_NEEDED MAX_SHTRING_NODE_CHILDREN * 2))"

definition shtring_cat_max_allocation :: "shtring \<Rightarrow> shtring \<Rightarrow> nat option" where
  "shtring_cat_max_allocation shtr1 shtr2 = do {
     let h = max (SHTRING_HEIGHT shtr1) (SHTRING_HEIGHT shtr2) + 1;
     let p1 = SHTRING_CHUNK_TREE shtr1;
     let p2 = SHTRING_CHUNK_TREE shtr2;
     t1 \<leftarrow> needed_for_trim p1 (SHTRING_OFFSET shtr1) 1;
     t2 \<leftarrow> needed_for_trim p2 (SHTRING_OFFSET shtr2) 1;
     Some (needed_for_height p1 h + needed_for_height p2 h + h * (MAX_SHTRING_NODE_CHILDREN + 1) + t1 + t2 + SHTRING_WORDS) }"

section \<open>Nodes are filled from their parts\<close>

definition fill_node :: "nat \<Rightarrow> shtring_tree list \<Rightarrow> nat \<Rightarrow> (shtring_tree \<times> nat) option" where
  "fill_node h ts ap = do {
     (q, ap) \<leftarrow> shtring_new_node (length ts) h ap;
     q \<leftarrow> add_kids q ts;
     q \<leftarrow> node_cell q;
     Some (q, ap) }"

lemma add_kids_append: "add_kids q (ts @ us) = add_kids q ts \<bind> (\<lambda>q. add_kids q us)"
  by (induction ts arbitrary: q) simp_all

lemma add_one: "shtring_add_child q t (tree_length t) = add_kids q [t]"
  by simp

lemma add_all: "shtring_add_children q ts (Suc 0) (length ts) = (if ts = [] then None else add_kids q ts)"
  by (cases ts) (simp_all add: shtring_add_children_def)

lemma add_rest: "shtring_add_children q (t # ts) 2 (Suc (length ts)) = (if ts = [] then None else add_kids q ts)"
  by (cases ts) (simp_all add: shtring_add_children_def)

lemma add_front: "shtring_add_children q (ts @ [t]) (Suc 0) (length ts) = (if ts = [] then None else add_kids q ts)"
  by (cases ts) (simp_all add: shtring_add_children_def)

lemma fill_node_ok:
  assumes "\<forall>t \<in> set ts. tree_ok h t" and "ts \<noteq> []" and "length ts \<le> 8" and "length (concat (map text_of ts)) < 2 ^ 32"
  shows "\<exists>q. fill_node (Suc h) ts ap = Some (q, ap + 3 + length ts) \<and> tree_ok (Suc h) q \<and> text_of q = concat (map text_of ts)"
proof -
  have h: "0 < h" using assms(1,2) tree_ok_pos by (cases ts) auto
  let ?p = "\<lparr>new_children = length ts, new_length = 0, new_height = Suc h, new_kids = []\<rparr>"
  let ?q = "\<lparr>new_children = length ts, new_length = sum_list (map tree_length ts), new_height = Suc h, new_kids = ts\<rparr>"
  have "add_kids ?p ts = Some ?q" using add_kids_ok [OF assms(1), of ?p] h by simp
  moreover obtain q where "node_cell ?q = Some q" "tree_ok (Suc h) q" "text_of q = concat (map text_of ts)"
    using filled_node_ok [OF assms, of ?q] by auto
  ultimately show ?thesis using h assms(2) by (simp add: fill_node_def shtring_new_node_def)
qed

section \<open>Catenation of trees\<close>

text \<open>The nodes above height \<open>k\<close> on the right, respectively left, edge of a tree of height \<open>h\<close> have two
  children at least.\<close>

primrec right_wide :: "nat \<Rightarrow> nat \<Rightarrow> shtring_tree \<Rightarrow> bool" where
  "right_wide k 0 t = True"
| "right_wide k (Suc h) t \<longleftrightarrow> Suc h \<le> k \<or> 2 \<le> length (node_children t) \<and> right_wide k h (last (node_children t))"

primrec left_wide :: "nat \<Rightarrow> nat \<Rightarrow> shtring_tree \<Rightarrow> bool" where
  "left_wide k 0 t = True"
| "left_wide k (Suc h) t \<longleftrightarrow> Suc h \<le> k \<or> 2 \<le> length (node_children t) \<and> left_wide k h (hd (node_children t))"

lemma node_children_ok:
  assumes "tree_ok (Suc (Suc h)) t"
  shows "node_children t \<noteq> []" "length (node_children t) \<le> 8" "\<forall>u \<in> set (node_children t). tree_ok (Suc h) u"
    "concat (map text_of (node_children t)) = text_of t"
  using assms by (cases t; auto)+

definition joined :: "nat \<Rightarrow> shtring_tree \<Rightarrow> shtring_tree \<Rightarrow> nat \<Rightarrow> nat \<Rightarrow> (shtring_tree option \<times> nat) option \<Rightarrow> bool" where
  "joined h p1 p2 ap m r \<longleftrightarrow> (case r of
      None \<Rightarrow> False
    | Some (None, ap') \<Rightarrow> ap' = ap
    | Some (Some q, ap') \<Rightarrow> tree_ok h q \<and> text_of q = text_of p1 @ text_of p2 \<and> ap' \<le> ap + m)"

lemma wide_low: "h \<le> k \<Longrightarrow> right_wide k h t" "h \<le> k \<Longrightarrow> left_wide k h t"
  by (cases h; simp)+

lemma joined_cases:
  assumes "joined h p1 p2 ap m r"
  obtains "r = Some (None, ap)" |
    q ap' where "r = Some (Some q, ap')" "tree_ok h q" "text_of q = text_of p1 @ text_of p2" "ap' \<le> ap + m"
proof -
  obtain x ap' where r: "r = Some (x, ap')" using assms by (cases r) (auto simp: joined_def)
  show ?thesis using assms that unfolding r by (cases x) (auto simp: joined_def)
qed

lemma cat_recursive_ok:
  assumes "tree_ok h1 p1" and "tree_ok h2 p2" and "length (text_of p1) + length (text_of p2) < 2 ^ 32"
    and "right_wide h2 h1 p1" and "left_wide h1 h2 p2"
  shows "joined (max h1 h2) p1 p2 ap (11 * (max h1 h2 - min h1 h2 + 1)) (cat_recursive p1 h1 p2 h2 ap)"
  using assms
proof (induction "h1 + h2" arbitrary: h1 p1 h2 p2 rule: less_induct)
  case less
  note heights = tree_ok_height [OF less.prems(1)] tree_ok_height [OF less.prems(2)]
  note pos = tree_ok_pos [OF less.prems(1)] tree_ok_pos [OF less.prems(2)]
  consider "h1 = h2" | "h1 < h2" | "h2 < h1" by linarith
  then show ?case
  proof cases
    case 1
    show ?thesis
    proof (cases "h1 = 1 \<or> length (node_children p1) + length (node_children p2) > 8")
      case True
      then have "cat_recursive p1 h1 p2 h2 ap = Some (None, ap)"
        using 1 pos by (subst cat_recursive.simps) (simp add: heights MAX_SHTRING_NODE_CHILDREN_def Let_def)
      then show ?thesis by (simp add: joined_def)
    next
      case False
      then obtain h where h: "h1 = Suc (Suc h)" using pos(1) by (metis One_nat_def Suc_pred less_Suc0 not0_implies_Suc neq0_conv)
      let ?ts = "node_children p1 @ node_children p2"
      note k1 = node_children_ok [OF less.prems(1) [unfolded h]] and k2 = node_children_ok [OF less.prems(2) [folded 1, unfolded h]]
      have "cat_recursive p1 h1 p2 h2 ap = fill_node h1 ?ts ap \<bind> (\<lambda>(q, ap). Some (Some q, ap))"
        using 1 pos False k1(1) k2(1) unfolding fill_node_def add_kids_append
        by (subst cat_recursive.simps) (simp add: heights MAX_SHTRING_NODE_CHILDREN_def Let_def add_all split_def)
      moreover obtain q where "fill_node h1 ?ts ap = Some (q, ap + 3 + length ?ts)" "tree_ok h1 q" "text_of q = concat (map text_of ?ts)"
        using fill_node_ok [of ?ts "Suc h" ap] k1 k2 False less.prems(3) unfolding h by auto
      ultimately show ?thesis using 1 False k1(4) k2(4) by (simp add: joined_def)
    qed
  next
    case 2
    then obtain h where h: "h2 = Suc (Suc h)" using pos(1) by (cases h2; cases "h2 - 1") auto
    note kids = node_children_ok [OF less.prems(2) [unfolded h]]
    have wide: "2 \<le> length (node_children p2)" "left_wide h1 (Suc h) (hd (node_children p2))"
      using less.prems(5) 2 by (simp_all add: h)
    then obtain t us where ts: "node_children p2 = t # us" "us \<noteq> []"
      by (cases "node_children p2"; cases "tl (node_children p2)") auto
    have bytes: "text_of p2 = text_of t @ concat (map text_of us)" using kids(4) by (simp add: ts)
    have "joined (max h1 (Suc h)) p1 t ap (11 * (max h1 (Suc h) - min h1 (Suc h) + 1)) (cat_recursive p1 h1 t (Suc h) ap)"
      using less.prems(1,3) wide(2) kids(3) 2 h by (intro less.hyps) (auto simp: ts bytes intro: wide_low)
    moreover have "max h1 (Suc h) = Suc h" "min h1 (Suc h) = h1" using 2 h by simp_all
    ultimately have IH: "joined (Suc h) p1 t ap (11 * (Suc h - h1 + 1)) (cat_recursive p1 h1 t (Suc h) ap)" by simp
    have step: "cat_recursive p1 h1 p2 h2 ap = cat_recursive p1 h1 t (Suc h) ap \<bind> (\<lambda>(q, ap). case q of
          None \<Rightarrow> Some (None, ap)
        | Some q \<Rightarrow> fill_node h2 (q # us) ap \<bind> (\<lambda>(q, ap). Some (Some q, ap)))"
      using 2 pos h ts(2) unfolding fill_node_def
      by (subst cat_recursive.simps) (simp add: heights Let_def ts add_rest split_def cong: option.case_cong)
    show ?thesis
    proof (rule joined_cases [OF IH])
      assume "cat_recursive p1 h1 t (Suc h) ap = Some (None, ap)"
      then show ?thesis by (simp add: step joined_def)
    next
      fix q ap'
      assume q: "cat_recursive p1 h1 t (Suc h) ap = Some (Some q, ap')" "tree_ok (Suc h) q" "text_of q = text_of p1 @ text_of t"
        "ap' \<le> ap + 11 * (Suc h - h1 + 1)"
      obtain q' where "fill_node h2 (q # us) ap' = Some (q', ap' + 3 + length (q # us))" "tree_ok h2 q'"
          "text_of q' = concat (map text_of (q # us))"
        using fill_node_ok [of "q # us" "Suc h" ap'] q kids less.prems(3) unfolding h by (auto simp: ts bytes)
      then show ?thesis using q kids(2) 2 unfolding joined_def step by (simp add: ts bytes h Suc_diff_le)
    qed
  next
    case 3
    then obtain h where h: "h1 = Suc (Suc h)" using pos(2) by (cases h1; cases "h1 - 1") auto
    note kids = node_children_ok [OF less.prems(1) [unfolded h]]
    have wide: "2 \<le> length (node_children p1)" "right_wide h2 (Suc h) (last (node_children p1))"
      using less.prems(4) 3 by (simp_all add: h)
    then obtain us t where ts: "node_children p1 = us @ [t]" "us \<noteq> []"
      by (cases "node_children p1" rule: rev_cases) (auto simp: Suc_le_eq)
    have bytes: "text_of p1 = concat (map text_of us) @ text_of t" using kids(4) by (simp add: ts)
    have "joined (max (Suc h) h2) t p2 ap (11 * (max (Suc h) h2 - min (Suc h) h2 + 1)) (cat_recursive t (Suc h) p2 h2 ap)"
      using less.prems(2,3) wide(2) kids(3) 3 h by (intro less.hyps) (auto simp: ts bytes intro: wide_low)
    moreover have "max (Suc h) h2 = Suc h" "min (Suc h) h2 = h2" using 3 h by simp_all
    ultimately have IH: "joined (Suc h) t p2 ap (11 * (Suc h - h2 + 1)) (cat_recursive t (Suc h) p2 h2 ap)" by simp
    have step: "cat_recursive p1 h1 p2 h2 ap = cat_recursive t (Suc h) p2 h2 ap \<bind> (\<lambda>(q, ap). case q of
          None \<Rightarrow> Some (None, ap)
        | Some q \<Rightarrow> fill_node h1 (us @ [q]) ap \<bind> (\<lambda>(q, ap). Some (Some q, ap)))"
      using 3 pos h ts(2) unfolding fill_node_def add_kids_append
      by (subst cat_recursive.simps) (simp add: heights Let_def ts add_front split_def cong: option.case_cong)
    show ?thesis
    proof (rule joined_cases [OF IH])
      assume "cat_recursive t (Suc h) p2 h2 ap = Some (None, ap)"
      then show ?thesis by (simp add: step joined_def)
    next
      fix q ap'
      assume q: "cat_recursive t (Suc h) p2 h2 ap = Some (Some q, ap')" "tree_ok (Suc h) q" "text_of q = text_of t @ text_of p2"
        "ap' \<le> ap + 11 * (Suc h - h2 + 1)"
      obtain q' where "fill_node h1 (us @ [q]) ap' = Some (q', ap' + 3 + length (us @ [q]))" "tree_ok h1 q'"
          "text_of q' = concat (map text_of (us @ [q]))"
        using fill_node_ok [of "us @ [q]" "Suc h" ap'] q kids less.prems(3) unfolding h by (auto simp: ts bytes)
      then show ?thesis using q kids(2) 3 unfolding joined_def step by (simp add: ts bytes h Suc_diff_le)
    qed
  qed
qed

lemma make_of_height_loop_ok:
  assumes "tree_ok h p"
  shows "\<exists>q. make_of_height_loop k p h (tree_length p) ap = Some (q, ap + 4 * k) \<and> tree_ok (h + k) q \<and> text_of q = text_of p"
  using assms
proof (induction k arbitrary: h p ap)
  case 0
  then show ?case by simp
next
  case (Suc k)
  obtain q where q: "fill_node (Suc h) [p] ap = Some (q, ap + 4)" "tree_ok (Suc h) q" "text_of q = text_of p"
    using fill_node_ok [of "[p]" h ap] Suc.prems text_fits [OF Suc.prems] by auto
  have "tree_length q = tree_length p" using tree_length_text [OF q(2)] tree_length_text [OF Suc.prems] q(3) by simp
  moreover have "make_of_height_loop (Suc k) p h (tree_length p) ap = fill_node (Suc h) [p] ap \<bind>
      (\<lambda>(q, ap). make_of_height_loop k q (Suc h) (tree_length p) ap)"
    by (simp add: fill_node_def Let_def split_def)
  ultimately show ?case using Suc.IH [OF q(2), of "ap + 4"] q(1,3) by (simp add: add.assoc)
qed

lemma make_of_height_ok:
  assumes "tree_ok h p" and "h \<le> k"
  shows "\<exists>q. make_of_height p k ap = Some (q, ap + 4 * (k - h)) \<and> tree_ok k q \<and> text_of q = text_of p"
  using make_of_height_loop_ok [OF assms(1), of "k - h" ap] assms(2) by (simp add: make_of_height_def tree_ok_height [OF assms(1)])

lemma new_root_fill: "new_root p1 p2 h ap = fill_node h [p1, p2] ap"
  by (simp add: new_root_def fill_node_def split_def numeral_2_eq_2)

lemma cat_trees_ok:
  assumes ok1: "tree_ok h1 p1" and ok2: "tree_ok h2 p2" and fits: "length (text_of p1) + length (text_of p2) < 2 ^ 32"
    and "right_wide h2 h1 p1" and "left_wide h1 h2 p2"
  shows "\<exists>q h ap'. cat_trees p1 h1 p2 h2 ap = Some (q, ap') \<and> tree_ok h q \<and> text_of q = text_of p1 @ text_of p2 \<and>
    ap' \<le> ap + 11 * (max h1 h2 - min h1 h2 + 1)"
proof (rule joined_cases [OF cat_recursive_ok [OF assms, of ap]])
  assume fail: "cat_recursive p1 h1 p2 h2 ap = Some (None, ap)"
  have root: "\<exists>q. fill_node (Suc h) [q1, q2] ap' = Some (q, ap' + 5) \<and> tree_ok (Suc h) q \<and> text_of q = text_of p1 @ text_of p2"
    if "tree_ok h q1" "tree_ok h q2" "text_of q1 = text_of p1" "text_of q2 = text_of p2" for h q1 q2 ap'
    using fill_node_ok [of "[q1, q2]" h ap'] that fits by (simp add: add.commute)
  consider "h1 = h2" | "h1 < h2" | "h2 < h1" by linarith
  then show ?thesis
  proof cases
    case 1
    obtain q where "fill_node (Suc h1) [p1, p2] ap = Some (q, ap + 5)" "tree_ok (Suc h1) q" "text_of q = text_of p1 @ text_of p2"
      using root [OF ok1 ok2 [folded 1]] by auto
    moreover from this have "cat_trees p1 h1 p2 h2 ap = Some (q, ap + 5)"
      using 1 by (simp add: cat_trees_def fail [unfolded 1] new_root_fill)
    ultimately show ?thesis using 1 by auto
  next
    case 2
    then obtain h where h: "h2 = Suc (Suc h)" using tree_ok_pos [OF ok1] by (cases h2; cases "h2 - 1") auto
    note kids = node_children_ok [OF ok2 [unfolded h]]
    show ?thesis
    proof (cases "length (node_children p2) < 8")
      case True
      have le: "h1 \<le> h2 - 1" using 2 by simp
      obtain q1 where q1: "make_of_height p1 (h2 - 1) ap = Some (q1, ap + 4 * (h2 - 1 - h1))" "tree_ok (h2 - 1) q1" "text_of q1 = text_of p1"
        using make_of_height_ok [OF ok1 le, of ap] by blast
      obtain q ap' where q: "fill_node h2 (q1 # node_children p2) (ap + 4 * (h2 - 1 - h1)) = Some (q, ap')" "tree_ok h2 q"
          "text_of q = text_of p1 @ text_of p2" "ap' = ap + 4 * (h2 - 1 - h1) + 4 + length (node_children p2)"
        using fill_node_ok [of "q1 # node_children p2" "Suc h" "ap + 4 * (h2 - 1 - h1)"] q1(2,3) kids fits True unfolding h by auto
      have "cat_trees p1 h1 p2 h2 ap = Some (q, ap')"
        using 2 True kids(1) q(1) by (simp add: cat_trees_def fail q1(1) [simplified] fill_node_def MAX_SHTRING_NODE_CHILDREN_def add_all split_def)
      moreover have "ap' \<le> ap + 11 * (max h1 h2 - min h1 h2 + 1)" using 2 True q(4) by (simp add: max_def min_def)
      ultimately show ?thesis using q(2,3) by blast
    next
      case False
      obtain q1 where q1: "make_of_height p1 h2 ap = Some (q1, ap + 4 * (h2 - h1))" "tree_ok h2 q1" "text_of q1 = text_of p1"
        using make_of_height_ok [OF ok1, of h2 ap] 2 by auto
      obtain q where q: "fill_node (Suc h2) [q1, p2] (ap + 4 * (h2 - h1)) = Some (q, ap + 4 * (h2 - h1) + 5)" "tree_ok (Suc h2) q"
          "text_of q = text_of p1 @ text_of p2" using root [OF q1(2) ok2 q1(3) refl] by auto
      have "cat_trees p1 h1 p2 h2 ap = Some (q, ap + 4 * (h2 - h1) + 5)"
        using 2 False q(1) by (simp add: cat_trees_def fail q1(1) MAX_SHTRING_NODE_CHILDREN_def new_root_fill)
      moreover have "ap + 4 * (h2 - h1) + 5 \<le> ap + 11 * (max h1 h2 - min h1 h2 + 1)" using 2 by (simp add: max_def min_def)
      ultimately show ?thesis using q(2,3) by blast
    qed
  next
    case 3
    then obtain h where h: "h1 = Suc (Suc h)" using tree_ok_pos [OF ok2] by (cases h1; cases "h1 - 1") auto
    note kids = node_children_ok [OF ok1 [unfolded h]]
    show ?thesis
    proof (cases "length (node_children p1) < 8")
      case True
      have le: "h2 \<le> h1 - 1" using 3 by simp
      obtain q2 where q2: "make_of_height p2 (h1 - 1) ap = Some (q2, ap + 4 * (h1 - 1 - h2))" "tree_ok (h1 - 1) q2" "text_of q2 = text_of p2"
        using make_of_height_ok [OF ok2 le, of ap] by blast
      obtain q ap' where q: "fill_node h1 (node_children p1 @ [q2]) (ap + 4 * (h1 - 1 - h2)) = Some (q, ap')" "tree_ok h1 q"
          "text_of q = text_of p1 @ text_of p2" "ap' = ap + 4 * (h1 - 1 - h2) + 4 + length (node_children p1)"
        using fill_node_ok [of "node_children p1 @ [q2]" "Suc h" "ap + 4 * (h1 - 1 - h2)"] q2(2,3) kids fits True unfolding h by auto
      have "cat_trees p1 h1 p2 h2 ap = Some (q, ap')"
        using 3 True kids(1) q(1) unfolding fill_node_def add_kids_append
        by (simp add: cat_trees_def fail q2(1) [simplified] MAX_SHTRING_NODE_CHILDREN_def add_all split_def)
      moreover have "ap' \<le> ap + 11 * (max h1 h2 - min h1 h2 + 1)" using 3 True q(4) by (simp add: max_def min_def)
      ultimately show ?thesis using q(2,3) by blast
    next
      case False
      obtain q2 where q2: "make_of_height p2 h1 ap = Some (q2, ap + 4 * (h1 - h2))" "tree_ok h1 q2" "text_of q2 = text_of p2"
        using make_of_height_ok [OF ok2, of h1 ap] 3 by auto
      obtain q where q: "fill_node (Suc h1) [p1, q2] (ap + 4 * (h1 - h2)) = Some (q, ap + 4 * (h1 - h2) + 5)" "tree_ok (Suc h1) q"
          "text_of q = text_of p1 @ text_of p2" using root [OF ok1 q2(2) refl q2(3)] by auto
      have "cat_trees p1 h1 p2 h2 ap = Some (q, ap + 4 * (h1 - h2) + 5)"
        using 3 False q(1) by (simp add: cat_trees_def fail q2(1) MAX_SHTRING_NODE_CHILDREN_def new_root_fill)
      moreover have "ap + 4 * (h1 - h2) + 5 \<le> ap + 11 * (max h1 h2 - min h1 h2 + 1)" using 3 by (simp add: max_def min_def)
      ultimately show ?thesis using q(2,3) by blast
    qed
  qed
next
  fix q ap'
  assume "cat_recursive p1 h1 p2 h2 ap = Some (Some q, ap')" "tree_ok (max h1 h2) q" "text_of q = text_of p1 @ text_of p2"
    "ap' \<le> ap + 11 * (max h1 h2 - min h1 h2 + 1)"
  then show ?thesis by (auto simp: cat_trees_def)
qed

text \<open>The shtrings whose catenation trims nothing and splits no node of one child.\<close>

definition cat_ready :: "shtring \<Rightarrow> shtring \<Rightarrow> bool" where
  "cat_ready s1 s2 \<longleftrightarrow> (case (SHTRING_CHUNK_TREE s1, SHTRING_CHUNK_TREE s2) of
      (Some p1, Some p2) \<Rightarrow> SHTRING_OFFSET s1 + SHTRING_LENGTH s1 = tree_length p1 \<and> SHTRING_OFFSET s2 = 0 \<and>
        right_wide (SHTRING_HEIGHT s2) (SHTRING_HEIGHT s1) p1 \<and> left_wide (SHTRING_HEIGHT s1) (SHTRING_HEIGHT s2) p2
    | _ \<Rightarrow> True)"

lemma trim_nothing: "tree_ok h p \<Longrightarrow> trim_ends mem h' p 0 0 ap = Some (p, ap)"
  using tree_length_pos [of h p] by (simp add: trim_ends.simps word_less_nat_alt)

lemma cat_ok:
  assumes s1: "shtring_ok s1" and s2: "shtring_ok s2" and ready: "cat_ready s1 s2"
    and fits: "length (tree_text (SHTRING_CHUNK_TREE s1)) + length (tree_text (SHTRING_CHUNK_TREE s2)) < 2 ^ 32"
  shows "\<exists>s ap'. shtring_cat mem s1 s2 ap = Some (s, ap') \<and> shtring_ok s \<and> shtring_text s = shtring_text s1 @ shtring_text s2 \<and>
    (\<forall>m. shtring_cat_max_allocation s1 s2 = Some m \<longrightarrow> ap' \<le> ap + m)"
proof (cases "SHTRING_CHUNK_TREE s1")
  case None
  then have "shtring_cat mem s1 s2 ap = Some (s2, ap)" by (simp add: shtring_cat_def)
  then show ?thesis using s2 None by (simp add: shtring_text_def)
next
  case p1: (Some p1)
  show ?thesis
  proof (cases "SHTRING_CHUNK_TREE s2")
    case None
    then have "shtring_cat mem s1 s2 ap = Some (s1, ap)" using p1 by (simp add: shtring_cat_def)
    then show ?thesis using s1 None by (simp add: shtring_text_def)
  next
    case p2: (Some p2)
    have ok: "tree_ok (SHTRING_HEIGHT s1) p1" "tree_ok (SHTRING_HEIGHT s2) p2"
      using s1 s2 p1 p2 by (simp_all add: shtring_ok_def)
    have r: "SHTRING_OFFSET s1 + SHTRING_LENGTH s1 = tree_length p1" "SHTRING_OFFSET s2 = 0"
        "right_wide (SHTRING_HEIGHT s2) (SHTRING_HEIGHT s1) p1" "left_wide (SHTRING_HEIGHT s1) (SHTRING_HEIGHT s2) p2"
      using ready p1 p2 by (simp_all add: cat_ready_def)
    have no_end: "tree_length p1 - SHTRING_OFFSET s1 - SHTRING_LENGTH s1 = 0" using r(1) by (simp add: diff_diff_eq)
    obtain q h ap' where q: "cat_trees p1 (SHTRING_HEIGHT s1) p2 (SHTRING_HEIGHT s2) ap = Some (q, ap')" "tree_ok h q"
        "text_of q = text_of p1 @ text_of p2"
        "ap' \<le> ap + 11 * (max (SHTRING_HEIGHT s1) (SHTRING_HEIGHT s2) - min (SHTRING_HEIGHT s1) (SHTRING_HEIGHT s2) + 1)"
      using cat_trees_ok [OF ok _ r(3,4), of ap] fits p1 p2 by auto
    note b1 = shtring_bounds [OF s1] and b2 = shtring_bounds [OF s2]
    have sum1: "unat (SHTRING_OFFSET s1) + unat (SHTRING_LENGTH s1) = length (text_of p1)"
      using b1(1,3) p1 r(1) length_text [OF ok(1)] by (simp add: unat_plus [symmetric])
    have len: "unat (SHTRING_LENGTH s1 + SHTRING_LENGTH s2) = unat (SHTRING_LENGTH s1) + unat (SHTRING_LENGTH s2)"
      using sum1 b2(3) fits p1 p2 by (intro unat_plus) simp
    have all: "unat (SHTRING_OFFSET s1) + unat (SHTRING_LENGTH s1 + SHTRING_LENGTH s2) \<le> length (text_of q)"
      using sum1 len b2(3) p2 q(3) r(2) by simp
    then have end_pos: "unat (SHTRING_OFFSET s1 + (SHTRING_LENGTH s1 + SHTRING_LENGTH s2)) =
        unat (SHTRING_OFFSET s1) + unat (SHTRING_LENGTH s1 + SHTRING_LENGTH s2)"
      using text_fits [OF q(2)] by (intro unat_plus) simp
    define s where "s = \<lparr>SHTRING_OFFSET = SHTRING_OFFSET s1, SHTRING_LENGTH = SHTRING_LENGTH s1 + SHTRING_LENGTH s2,
        SHTRING_HEIGHT = tree_height q, SHTRING_CHUNK_TREE = Some q\<rparr>"
    have c: "SHTRING_OFFSET s1 \<le> tree_length q \<and> SHTRING_OFFSET s1 + (SHTRING_LENGTH s1 + SHTRING_LENGTH s2) \<le> tree_length q"
      unfolding word_le_nat_alt length_text [OF q(2), symmetric] end_pos using all by linarith
    have "shtring_cat mem s1 s2 ap = Some (s, ap' + SHTRING_WORDS)"
      using p1 p2 r(2) c
      by (simp add: shtring_cat_def no_end trim_nothing [OF ok(1)] trim_nothing [OF ok(2)] q(1) shtring_new_shtring_def s_def)
    moreover have "shtring_ok s" using q(2) tree_ok_height [OF q(2)] all by (simp add: shtring_ok_def s_def)
    moreover have "shtring_text s = shtring_text s1 @ shtring_text s2"
    proof -
      have "unat (SHTRING_LENGTH s1) + unat (SHTRING_LENGTH s2) + unat (SHTRING_OFFSET s1) - length (text_of p1) = unat (SHTRING_LENGTH s2)"
        using sum1 by simp
      then show ?thesis using p1 p2 sum1 len q(3) r(2) by (simp add: shtring_text_def s_def)
    qed
    moreover have "ap' + SHTRING_WORDS \<le> ap + m" if "shtring_cat_max_allocation s1 s2 = Some m" for m
    proof -
      define a b where "a = SHTRING_HEIGHT s1" and "b = SHTRING_HEIGHT s2"
      have "0 < a" "0 < b" using tree_ok_pos [OF ok(1)] tree_ok_pos [OF ok(2)] by (simp_all add: a_def b_def)
      then have arith: "11 * (max a b - min a b + 1) \<le> (max a b + 1 - a) * 4 + (max a b + 1 - b) * 4 + (max a b + 1) * 9"
      proof (cases a b rule: linorder_le_cases)
        case le
        then obtain d where "b = a + d" using le_Suc_ex by blast
        then show ?thesis using \<open>0 < a\<close> by simp
      next
        case ge
        then obtain d where "a = b + d" using le_Suc_ex by blast
        then show ?thesis using \<open>0 < b\<close> by simp
      qed
      have "(max a b + 1 - a) * 4 + (max a b + 1 - b) * 4 + (max a b + 1) * 9 + 5 \<le> m"
        using that p1 p2 tree_ok_height [OF ok(1)] tree_ok_height [OF ok(2)]
        by (auto simp: shtring_cat_max_allocation_def needed_for_height_def SHTRING_NODE_WORDS_NEEDED_def
          MAX_SHTRING_NODE_CHILDREN_def SHTRING_WORDS_def Let_def bind_simps a_def b_def)
      then show ?thesis using arith q(4) by (simp add: a_def b_def SHTRING_WORDS_def)
    qed
    ultimately show ?thesis by blast
  qed
qed

section \<open>Copies that start inside a word\<close>

lemma shifted_word:
  assumes "0 < off" and "off < 4"
  shows "word_bytes (push_bit (8 * off) p OR drop_bit (8 * (4 - off)) p') = drop off (word_bytes p) @ take off (word_bytes p')"
    and "take (4 - off) (word_bytes (push_bit (8 * off) p)) = drop off (word_bytes p)"
proof -
  have off: "off = 1 \<or> off = 2 \<or> off = 3" using assms by auto
  then show "word_bytes (push_bit (8 * off) p OR drop_bit (8 * (4 - off)) p') = drop off (word_bytes p) @ take off (word_bytes p')"
    by (elim disjE; simp add: word_bytes_def; intro conjI; intro bit_word_eqI; auto simp: bit_simps dest: bit_imp_le_length)
  have s: "ucast (drop_bit 24 (push_bit 8 p)) = (ucast (drop_bit 16 p) :: byte)"
      "ucast (drop_bit 16 (push_bit 8 p)) = (ucast (drop_bit 8 p) :: byte)" "ucast (drop_bit 8 (push_bit 8 p)) = (ucast p :: byte)"
      "ucast (drop_bit 24 (push_bit 16 p)) = (ucast (drop_bit 8 p) :: byte)" "ucast (drop_bit 16 (push_bit 16 p)) = (ucast p :: byte)"
      "ucast (drop_bit 24 (push_bit 24 p)) = (ucast p :: byte)"
    by (rule bit_word_eqI; auto simp: bit_simps dest: bit_imp_le_length)+
  have "take (Suc (Suc (Suc 0))) (word_bytes (push_bit 8 p)) = drop (Suc 0) (word_bytes p)"
      "take (Suc (Suc 0)) (word_bytes (push_bit 16 p)) = drop (Suc (Suc 0)) (word_bytes p)"
      "take (Suc 0) (word_bytes (push_bit 24 p)) = drop (Suc (Suc (Suc 0))) (word_bytes p)"
    by (simp_all only: word_bytes_def take_Suc_Cons take_0 drop_Suc_Cons drop_0 s)
  moreover have "off = Suc 0 \<and> 4 - off = Suc (Suc (Suc 0)) \<and> 8 * off = 8 \<or> off = Suc (Suc 0) \<and> 4 - off = Suc (Suc 0) \<and> 8 * off = 16 \<or>
      off = Suc (Suc (Suc 0)) \<and> 4 - off = Suc 0 \<and> 8 * off = 24" using off by auto
  ultimately show "take (4 - off) (word_bytes (push_bit (8 * off) p)) = drop off (word_bytes p)" by metis
qed

lemma shift_loop_eq:
  assumes "0 < off" "off < 4" and "0 < unat len" "unat len \<le> 32" and "off + unat len \<le> 4 * length ps"
    and "length qs = (unat len + 3) div 4"
  shows "if off + (unat len - 1) mod 4 < 4
    then \<exists>ws. shift_loop off len qs ps = Some ws \<and> length ws = length qs \<and>
      take (unat len) (all_bytes ws) = take (unat len) (drop off (all_bytes ps))
    else shift_loop off len qs ps = None"
  using assms(3-)
proof (induction qs arbitrary: len ps)
  case Nil
  then show ?case by simp
next
  case (Cons q qs)
  define n where "n = unat len"
  have n: "0 < n" "n \<le> 32" "off + n \<le> 4 * length ps" "Suc (length qs) = (n + 3) div 4" using Cons.prems by (simp_all add: n_def)
  have sum: "unat (of_nat off + len) = off + n"
  proof -
    have "unat (of_nat off :: word_t) = off" using assms(2) by (simp add: unat_of_nat)
    then show ?thesis using n(2) assms(2) by (subst unat_plus) (simp_all add: n_def)
  qed
  obtain p ps' where ps: "ps = p # ps'" using n(1,3) by (cases ps) auto
  show ?case
  proof (cases "off + n > 4")
    case False
    have "\<not> of_nat off + len > 4" using False sum by (simp add: word_less_nat_alt)
    then have loop: "shift_loop off len (q # qs) ps = Some (push_bit (8 * off) p # qs)" by (simp add: ps)
    have "length qs = 0" using n(4) False assms(1) by linarith
    then have qs: "qs = []" by simp
    have "take n (word_bytes (push_bit (8 * off) p)) = take n (drop off (word_bytes p))"
      using shifted_word(2) [OF assms(1,2), of p, symmetric] False assms(1) by (simp add: min_absorb1)
    then show ?thesis using loop qs False assms(1) n(1) by (simp add: ps n_def [symmetric])
  next
    case True
    have more: "of_nat off + len > 4" using True sum by (simp add: word_less_nat_alt)
    then obtain p' ps2 where ps': "ps' = p' # ps2" using True n(3) ps assms(2) by (cases ps') auto
    define w where "w = push_bit (8 * off) p OR drop_bit (8 * (4 - off)) p'"
    have loop: "shift_loop off len (q # qs) ps = shift_loop off (len - 4) qs (p' # ps2) \<bind> (\<lambda>ws. Some (w # ws))"
      using more by (simp add: ps ps' w_def)
    show ?thesis
    proof (cases "n \<le> 4")
      case small: True
      then have "length qs = 0" using n(4) by linarith
      then have "qs = []" by simp
      moreover have "\<not> off + (n - 1) mod 4 < 4" using small True n(1) by (simp add: mod_less)
      ultimately show ?thesis unfolding loop n_def [symmetric] by simp
    next
      case False
      have u: "unat (len - 4) = n - 4" using False by (subst unat_sub) (simp_all add: n_def word_le_nat_alt)
      have m: "(n - 1) mod 4 = (n - 4 - 1) mod 4" 
      proof -
        have "n - 1 = 4 + (n - 4 - 1)" using False by simp
        then show ?thesis by (simp only: mod_add_self1)
      qed
      have IH: "if off + (n - 1) mod 4 < 4
          then \<exists>ws. shift_loop off (len - 4) qs (p' # ps2) = Some ws \<and> length ws = length qs \<and>
            take (n - 4) (all_bytes ws) = take (n - 4) (drop off (all_bytes (p' # ps2)))
          else shift_loop off (len - 4) qs (p' # ps2) = None"
      proof -
        have "n - 4 + 3 = n - 1" "n + 3 = n - 1 + 4" using False by simp_all
        then have "length qs = (n - 4 + 3) div 4" using n(4) by simp
        moreover have "0 < n - 4" "n - 4 \<le> 32" "off + (n - 4) \<le> 4 * length (p' # ps2)"
          using False n(2,3) by (simp_all add: ps ps')
        ultimately show ?thesis using Cons.IH [of "len - 4" "p' # ps2"] unfolding u m by blast
      qed
      have bytes: "take n (drop off (all_bytes ps)) = word_bytes w @ take (n - 4) (drop off (all_bytes (p' # ps2)))"
      proof -
        define B where "B = all_bytes (p' # ps2)"
        have "take off (word_bytes p') = take off B" using assms(2) by (simp add: B_def)
        moreover have "n - (4 - off) = off + (n - 4)" using False assms(2) by simp
        ultimately show ?thesis
          using False assms(2) unfolding w_def shifted_word(1) [OF assms(1,2)] B_def [symmetric] append_assoc
          by (simp add: ps ps' B_def [simplified, symmetric] take_add [symmetric])
      qed
      show ?thesis
      proof (cases "off + (n - 1) mod 4 < 4")
        case True
        then show ?thesis using IH \<open>\<not> n \<le> 4\<close> bytes unfolding loop n_def [symmetric] by (auto simp: min_def)
      next
        case False
        then show ?thesis using IH unfolding loop n_def [symmetric] by simp
      qed
    qed
  qed
qed

lemma copy_chunk_text_shifted:
  assumes "tree_ok 1 p" and "tree_ok 1 q" and "start mod 4 \<noteq> 0" and "start + length (text_of q) \<le> length (text_of p)"
  shows "if start mod 4 + (length (text_of q) - 1) mod 4 < 4
    then \<exists>q'. copy_chunk_text q p start = Some q' \<and> tree_ok 1 q' \<and> text_of q' = take (length (text_of q)) (drop start (text_of p))
    else copy_chunk_text q p start = None"
proof -
  obtain n ps where p: "p = CELL_shtring_chunk n ps" "0 < unat n" "unat n \<le> 32" "length ps = (unat n + 3) div 4"
    using assms(1) by (cases p) auto
  obtain m qs where q: "q = CELL_shtring_chunk m qs" "0 < unat m" "unat m \<le> 32" "length qs = (unat m + 3) div 4"
    using assms(2) by (cases q) auto
  have len: "length (text_of q) = unat m" "length (text_of p) = unat n"
    using length_text [OF assms(1)] length_text [OF assms(2)] p(1) q(1) by simp_all
  define i off where "i = start div 4" and "off = start mod 4"
  have start: "start = 4 * i + off" "0 < off" "off < 4" using assms(3) by (simp_all add: i_def off_def)
  have room: "off + unat m \<le> 4 * length (drop i ps)" using assms(4) p(4) start(1) unfolding len by simp
  have bytes: "drop off (all_bytes (drop i ps)) = drop start (all_bytes ps)" by (simp add: start(1) drop_all_bytes [symmetric] add.commute)
  have "take (unat m) (drop start (text_of p)) = take (unat m) (drop start (all_bytes ps))"
    using assms(4) unfolding len by (simp add: p(1) drop_take min_def)
  moreover have "start \<le> unat n" using assms(4) unfolding len by simp
  ultimately show ?thesis
    using shift_loop_eq [OF start(2,3) q(2,3) room q(4)] start(2) q unfolding len bytes
    by (auto simp: p(1) i_def [symmetric] off_def [symmetric] split: if_splits)
qed

end
