(* ===== verification/Shtring_Intern.thy ===== *)
theory Shtring_Intern
  imports Shtring_Text Triev2_Store
begin

text \<open>
  Hashing and interning of shtrings (\<^verbatim>\<open>shtring_hash\<close>, \<^verbatim>\<open>shtring_intern\<close>): the set of interned shtrings is
  a trie from hash values to linked lists of intern nodes and a trie from the unique integers to the
  shtrings.  The tries hold pointers, so interning works on a memory: the intern nodes and the shtrings
  by their addresses, and the allocation point.  A new cell of the first generation lies \<open>4 * ap\<close> bytes
  below \<open>gen_start\<close>, where the allocation of the first generation started.

  The contract of the two tries is the interpretation \<open>full_keys\<close> of \<^verbatim>\<open>Triev2_Store\<close>.
\<close>

section \<open>Hashing\<close>

definition SHTRING_HASH_START_VALUE :: word_t where
  "SHTRING_HASH_START_VALUE = 5381"

definition hash_step :: "word_t \<Rightarrow> word_t \<Rightarrow> word_t" where
  "hash_step h c = push_bit 5 h + h + drop_bit 3 h + c"

primrec hash_word :: "nat \<Rightarrow> word_t \<Rightarrow> word_t \<Rightarrow> word_t" where
  "hash_word 0 w h = h"
| "hash_word (Suc k) w h = (let c = drop_bit 24 (w AND 0xFF000000) in hash_word k (push_bit 8 w) (hash_step h c))"

fun hash_words :: "word_t list \<Rightarrow> word_t \<Rightarrow> word_t \<Rightarrow> word_t option" where
  "hash_words [] len h = (if len > 0 then None else Some h)"
| "hash_words (w # ws) len h =
    (if len \<ge> 4 then hash_words ws (len - 4) (hash_word 4 w h)
     else Some (hash_word (unat len) w h))"

fun hash_chunk :: "word_t monkey_fun" where
  "hash_chunk (CELL_shtring_chunk n ws) off_in_chunk off_in_tree len h =
    (let ws = drop (unat (off_in_chunk div 4)) ws; off = off_in_chunk mod 4 in
     if off > 0 then case ws of
         [] \<Rightarrow> None
       | w # ws \<Rightarrow> do {
           h \<leftarrow> hash_words ws (len - off) (hash_word (4 - unat off) (push_bit (8 * unat off) w) h);
           Some (0, h) }
     else do { h \<leftarrow> hash_words ws len h; Some (0, h) })"
| "hash_chunk (CELL_shtring_node n h' ts) off_in_chunk off_in_tree len h = None"

definition shtring_hash :: "shtring \<Rightarrow> word_t option" where
  "shtring_hash s = do {
     (ret, pos, h) \<leftarrow> shtring_monkey (SHTRING_CHUNK_TREE s) (SHTRING_OFFSET s) (SHTRING_LENGTH s)
       SHTRING_MONKEY_START_POS hash_chunk left_to_right SHTRING_HASH_START_VALUE;
     Some h }"

section \<open>Interning\<close>

record intern_node =
  node_next :: word_t
  node_shtr :: word_t
  node_id :: word_t

record intern_root =
  hash_trie :: "trie option"
  id_trie :: "trie option"
  intern_count :: word_t

record intern_memory =
  intern_nodes :: "word_t \<Rightarrow> intern_node option"
  shtrings :: "word_t \<Rightarrow> shtring option"
  alloc_point :: nat

record shtring_intern_result =
  new_intern_root :: intern_root
  interned_shtring :: word_t
  interned_shtring_id :: word_t
  was_new :: bool

definition SHTRING_INTERN_MAX_ALLOCATION :: nat where
  "SHTRING_INTERN_MAX_ALLOCATION = 4 + 2 * TRIEV2_MAX_ALLOCATION + 4"

definition new_intern_node :: "word_t \<Rightarrow> intern_node \<Rightarrow> intern_memory \<Rightarrow> word_t \<times> intern_memory" where
  "new_intern_node gen_start node mem =
    (let ap = alloc_point mem + 4; p = gen_start - 4 * of_nat ap
     in (p, mem\<lparr>intern_nodes := (intern_nodes mem)(p \<mapsto> node), alloc_point := ap\<rparr>))"

definition new_root_cell :: "trie option \<Rightarrow> trie option \<Rightarrow> word_t \<Rightarrow> intern_memory \<Rightarrow> intern_root \<times> intern_memory" where
  "new_root_cell hashes ids count mem =
    (\<lparr>hash_trie = hashes, id_trie = ids, intern_count = count\<rparr>, mem\<lparr>alloc_point := alloc_point mem + 4\<rparr>)"

text \<open>The loop over a list of intern nodes; the result is the node whose shtring is equal to \<open>shtr\<close>.\<close>

partial_function (option) find_interned :: "intern_memory \<Rightarrow> shtring \<Rightarrow> word_t \<Rightarrow> intern_node option option" where
  "find_interned mem shtr q =
    (if q = NULL_WORD then Some None
     else do {
       node \<leftarrow> intern_nodes mem q;
       old_node \<leftarrow> shtrings mem (node_shtr node);
       r \<leftarrow> shtring_cmp_without_allocating old_node shtr;
       if r = CMP_EQUAL then Some (Some node) else find_interned mem shtr (node_next node) })"

definition shtring_intern :: "word_t \<Rightarrow> intern_root option \<Rightarrow> word_t \<Rightarrow> intern_memory \<Rightarrow>
    (shtring_intern_result \<times> intern_memory) option" where
  "shtring_intern gen_start root p mem = do {
     shtr \<leftarrow> shtrings mem p;
     hash \<leftarrow> shtring_hash shtr;
     (old_hash_trie, old_id_trie, old_count, list, found) \<leftarrow> (case root of
         None \<Rightarrow> Some (None, None, 0, NULL_WORD, None)
       | Some r \<Rightarrow> do {
           list \<leftarrow> triev2_find (hash_trie r) hash 32;
           found \<leftarrow> find_interned mem shtr list;
           Some (hash_trie r, id_trie r, intern_count r, list,
             map_option (\<lambda>node. \<lparr>new_intern_root = r, interned_shtring = node_shtr node,
               interned_shtring_id = node_id node, was_new = False\<rparr>) found) });
     (case found of
       Some result \<Rightarrow> Some (result, mem)
     | None \<Rightarrow>
         if old_count < - 1 then do {
           let new_id = old_count + 1;
           let (new_node, mem) = new_intern_node gen_start \<lparr>node_next = list, node_shtr = p, node_id = new_id\<rparr> mem;
           (new_hash_trie, ap) \<leftarrow> triev2_insert old_hash_trie hash 32 None new_node (alloc_point mem);
           (new_id_trie, ap) \<leftarrow> triev2_insert old_id_trie new_id 32 None p ap;
           let (r, mem) = new_root_cell new_hash_trie new_id_trie new_id (mem\<lparr>alloc_point := ap\<rparr>);
           Some (\<lparr>new_intern_root = r, interned_shtring = p, interned_shtring_id = new_id, was_new = True\<rparr>, mem) }
         else None) }"

definition shtring_lookup_by_intern_id :: "intern_root \<Rightarrow> word_t \<Rightarrow> word_t option" where
  "shtring_lookup_by_intern_id root i = triev2_find (id_trie root) i 32"

section \<open>The hash of the bytes\<close>

definition hash_text :: "word_t \<Rightarrow> byte list \<Rightarrow> word_t" where
  "hash_text h cs = foldl (\<lambda>h c. hash_step h (ucast c)) h cs"

lemma hash_text_append: "hash_text h (as @ bs) = hash_text (hash_text h as) bs"
  by (simp add: hash_text_def)

lemma hash_word_eq: "k \<le> 4 \<Longrightarrow> hash_word k w h = hash_text h (take k (word_bytes w))"
proof -
  assume k: "k \<le> 4"
  have c: "drop_bit 24 (v AND 0xFF000000) = (ucast (ucast (drop_bit 24 v) :: byte) :: word_t)" for v :: word_t
  proof -
    have m: "(0xFF000000 :: word_t) = push_bit 24 (mask 8)" by (simp add: mask_eq_exp_minus_1)
    show ?thesis unfolding m by (rule bit_word_eqI) (auto simp: bit_simps)
  qed
  have l: "hash_word k w h = hash_text h (last_bytes w k)" for k w h
    by (induction k arbitrary: w h)
      (simp_all only: hash_word.simps last_bytes.simps hash_text_def foldl_Nil foldl_Cons Let_def c)
  show ?thesis by (simp add: l last_bytes_eq [OF k])
qed

lemma hash_words_eq:
  "unat len \<le> 4 * length ws \<Longrightarrow> hash_words ws len h = Some (hash_text h (take (unat len) (all_bytes ws)))"
proof (induction ws len h rule: hash_words.induct)
  case (1 len h)
  then show ?case by (simp add: hash_text_def word_less_nat_alt)
next
  case (2 w ws len h)
  show ?case
  proof (cases "len \<ge> 4")
    case True
    then have u: "unat (len - 4) = unat len - 4" "4 \<le> unat len" by (simp_all add: unat_sub word_le_nat_alt)
    have "hash_words ws (len - 4) (hash_word 4 w h) = Some (hash_text (hash_word 4 w h) (take (unat (len - 4)) (all_bytes ws)))"
      using "2.IH" [OF True] "2.prems" u by simp
    then show ?thesis using True u by (simp add: hash_word_eq hash_text_append)
  next
    case False
    then have "unat len \<le> 4" by (simp add: word_le_nat_alt)
    then show ?thesis using False by (simp add: hash_word_eq)
  qed
qed

text \<open>A piece that starts at a multiple of four is hashed byte by byte.\<close>

lemma hash_chunk_eq:
  assumes ok: "tree_ok 1 c" and range: "a + l \<le> length (text_of c)" and a: "a mod 4 = 0"
  shows "hash_chunk c (of_nat a) q (of_nat l) h = Some (0, hash_text h (take l (drop a (text_of c))))"
proof -
  obtain n ws where c: "c = CELL_shtring_chunk n ws" "unat n \<le> 32" "length ws = (unat n + 3) div 4"
    using ok by (cases c) auto
  note u = chunk_range [OF ok range]
  have n: "length (text_of c) = unat n" using length_text [OF ok] c(1) by simp
  have i: "unat (of_nat a div 4 :: word_t) = a div 4" using u(1) by (simp add: unat_div)
  have off: "of_nat a mod 4 = (0 :: word_t)" using u(1) a by (simp add: word_unat_eq_iff unat_mod)
  have "4 * (a div 4) = a" using a by presburger
  then have "take l (drop a (text_of c)) = take l (all_bytes (drop (a div 4) ws))"
    using range n by (simp add: c(1) drop_take min_def drop_all_bytes [symmetric])
  moreover have "unat (of_nat l :: word_t) \<le> 4 * length (drop (a div 4) ws)" using u(2) range n c(3) a by simp
  ultimately show ?thesis
    using hash_words_eq [of "of_nat l" "drop (a div 4) ws" h] by (simp add: c(1) i off u(2) Let_def)
qed

lemma run_hash:
  assumes "\<forall>c \<in> set cs. tree_ok 1 c"
  shows "run_chunks hash_chunk 0 e p cs h = Some (False, hash_text h (take (e - p) (concat (map text_of cs))))"
proof -
  have "run_chunks hash_chunk 0 e p cs h = Some (False, hash_text h (drop (0 - p) (take (e - p) (concat (map text_of cs)))))"
  proof (rule run_bytes [OF assms])
    fix c p q l h
    assume "tree_ok 1 c" "0 - p + l \<le> length (text_of c)"
    then show "hash_chunk c (of_nat (0 - p)) q (of_nat l) h = Some (0, hash_text h (take l (drop (0 - p) (text_of c))))"
      by (intro hash_chunk_eq) simp_all
  qed (simp_all add: hash_text_def)
  then show ?thesis by simp
qed

lemma hash_ok:
  assumes s: "shtring_ok s" and "SHTRING_OFFSET s = 0"
  shows "shtring_hash s = Some (hash_text SHTRING_HASH_START_VALUE (shtring_text s))"
proof -
  define cs where "cs = (case SHTRING_CHUNK_TREE s of None \<Rightarrow> [] | Some t \<Rightarrow> chunks_of t)"
  have cs: "\<forall>c \<in> set cs. tree_ok 1 c" "concat (map text_of cs) = tree_text (SHTRING_CHUNK_TREE s)"
    using s chunks_of_ok unfolding cs_def by (auto simp: shtring_ok_def split: option.splits)
  have fits: "unat (SHTRING_OFFSET s) + unat (SHTRING_LENGTH s) < 2 ^ 32" using shtring_bounds [OF s] by simp
  from shtring_monkey_left [OF s fits, of hash_chunk SHTRING_HASH_START_VALUE] show ?thesis
    unfolding cs_def [symmetric] shtring_hash_def assms(2) shtring_text_def
    by (auto simp: agrees_def run_hash [OF cs(1)] cs(2) split: option.splits)
qed

section \<open>The state of interning\<close>

primrec node_list :: "(word_t \<Rightarrow> intern_node option) \<Rightarrow> word_t \<Rightarrow> (word_t \<times> word_t) list \<Rightarrow> bool" where
  "node_list nodes q [] \<longleftrightarrow> q = NULL_WORD"
| "node_list nodes q (x # xs) \<longleftrightarrow> q \<noteq> NULL_WORD \<and>
     (\<exists>next. nodes q = Some \<lparr>node_next = next, node_shtr = fst x, node_id = snd x\<rparr> \<and> node_list nodes next xs)"

definition bytes_at :: "(word_t \<Rightarrow> shtring option) \<Rightarrow> word_t \<Rightarrow> byte list" where
  "bytes_at ss p = (case ss p of None \<Rightarrow> [] | Some s \<Rightarrow> shtring_text s)"

definition hash_at :: "(word_t \<Rightarrow> shtring option) \<Rightarrow> word_t \<Rightarrow> word_t" where
  "hash_at ss p = hash_text SHTRING_HASH_START_VALUE (bytes_at ss p)"

text \<open>A shtring that can be interned.  Its offset is 0, as that of every result of \<^verbatim>\<open>shtring_create\<close>.\<close>

definition internable :: "(word_t \<Rightarrow> shtring option) \<Rightarrow> word_t \<Rightarrow> bool" where
  "internable ss p \<longleftrightarrow> p \<noteq> NULL_WORD \<and> (case ss p of None \<Rightarrow> False
    | Some s \<Rightarrow> shtring_ok s \<and> SHTRING_OFFSET s = 0 \<and> length (shtring_text s) + 10240 < 2 ^ 32)"

definition intern_entries :: "(word_t \<Rightarrow> shtring option) \<Rightarrow> word_t list \<Rightarrow> word_t \<Rightarrow> (word_t \<times> word_t) set" where
  "intern_entries ss ps h = {(ps ! i, of_nat (Suc i)) | i. i < length ps \<and> hash_at ss (ps ! i) = h}"

definition root_holds :: "intern_root \<Rightarrow> intern_memory \<Rightarrow> word_t list \<Rightarrow> bool" where
  "root_holds r mem ps \<longleftrightarrow> root_ok 16 (hash_trie r) \<and> root_ok 16 (id_trie r) \<and> intern_count r = of_nat (length ps) \<and>
    (\<forall>i. trie_lookup 16 (id_trie r) i = (if 0 < unat i \<and> unat i \<le> length ps then ps ! (unat i - 1) else NULL_WORD)) \<and>
    (\<forall>h. \<exists>xs. node_list (intern_nodes mem) (trie_lookup 16 (hash_trie r) h) xs \<and> set xs = intern_entries (shtrings mem) ps h)"

definition interned :: "word_t \<Rightarrow> intern_root option \<Rightarrow> intern_memory \<Rightarrow> word_t list \<Rightarrow> bool" where
  "interned gen_start root mem ps \<longleftrightarrow>
    (case root of None \<Rightarrow> ps = [] | Some r \<Rightarrow> root_holds r mem ps) \<and>
    distinct (map (bytes_at (shtrings mem)) ps) \<and> (\<forall>p \<in> set ps. internable (shtrings mem) p) \<and> length ps < 2 ^ 32 \<and>
    (\<forall>a \<in> dom (intern_nodes mem). unat gen_start \<le> unat a + 4 * alloc_point mem)"

lemma internable_cases:
  assumes "internable ss p"
  obtains s where "ss p = Some s" "shtring_ok s" "SHTRING_OFFSET s = 0" "length (shtring_text s) + 10240 < 2 ^ 32"
    "bytes_at ss p = shtring_text s" "p \<noteq> NULL_WORD"
  using assms by (auto simp: internable_def bytes_at_def split: option.splits)

lemma find_interned_ok:
  assumes "node_list (intern_nodes mem) q xs" and "\<forall>x \<in> set xs. internable (shtrings mem) (fst x)"
    and "shtring_ok s" and "length (shtring_text s) + 10240 < 2 ^ 32"
  shows "if \<exists>x \<in> set xs. bytes_at (shtrings mem) (fst x) = shtring_text s
    then \<exists>node. find_interned mem s q = Some (Some node) \<and> (node_shtr node, node_id node) \<in> set xs \<and>
      bytes_at (shtrings mem) (node_shtr node) = shtring_text s
    else find_interned mem s q = Some None"
  using assms(1,2)
proof (induction xs arbitrary: q)
  case Nil
  then show ?case by (simp add: find_interned.simps)
next
  case (Cons x xs)
  obtain s1 where s1: "shtrings mem (fst x) = Some s1" "shtring_ok s1" "length (shtring_text s1) + 10240 < 2 ^ 32"
      "bytes_at (shtrings mem) (fst x) = shtring_text s1"
    using Cons.prems(2) internable_cases [of "shtrings mem" "fst x"] by auto
  obtain succ where q: "q \<noteq> NULL_WORD" "intern_nodes mem q = Some \<lparr>node_next = succ, node_shtr = fst x, node_id = snd x\<rparr>"
      "node_list (intern_nodes mem) succ xs"
    using Cons.prems(1) by auto
  have cmp: "shtring_cmp_without_allocating s1 s = Some (cmp_bytes (shtring_text s1) (shtring_text s))"
    by (rule cmp_ok [OF s1(2) assms(3) s1(3)])
  have equal: "cmp_bytes (shtring_text s1) (shtring_text s) = CMP_EQUAL \<longleftrightarrow> shtring_text s1 = shtring_text s"
    by (simp add: cmp_bytes_def)
  have step: "find_interned mem s q = (if shtring_text s1 = shtring_text s
      then Some (Some \<lparr>node_next = succ, node_shtr = fst x, node_id = snd x\<rparr>) else find_interned mem s succ)"
    using q s1(1) by (subst find_interned.simps) (simp add: cmp equal)
  show ?case
  proof (cases "shtring_text s1 = shtring_text s")
    case True
    then show ?thesis using s1(4) unfolding step by simp
  next
    case False
    then show ?thesis using Cons.IH [OF q(3)] Cons.prems(2) s1(4) unfolding step by (auto split: if_splits)
  qed
qed

text \<open>A new node at a fresh address leaves the lists alone.\<close>

lemma node_list_fresh: "node_list nodes q xs \<Longrightarrow> a \<notin> dom nodes \<Longrightarrow> node_list (nodes(a \<mapsto> node)) q xs"
  by (induction xs arbitrary: q) auto

lemma trie_put:
  assumes "root_ok 16 t" and "d \<noteq> NULL_WORD"
  shows "\<exists>t' ap'. triev2_insert t k 32 None d ap = Some (t', ap') \<and> root_ok 16 t' \<and>
    (\<forall>k'. trie_lookup 16 t' k' = (if k' = k then d else trie_lookup 16 t k')) \<and> ap \<le> ap' \<and> ap' \<le> ap + TRIEV2_MAX_ALLOCATION"
proof -
  have "take_bit 32 a = a" for a :: word_t by (rule take_bit_word_eq_self) simp
  then show ?thesis using full_keys.trie.put_fresh [OF assms(1), of d k ap] assms(2) by auto
qed

lemma trie_get: "root_ok 16 t \<Longrightarrow> triev2_find t k 32 = Some (trie_lookup 16 t k)"
  using triev2_find_ok(1) [of 16 t k] by simp

lemma intern_entries_append:
  "intern_entries ss (ps @ [p]) h = intern_entries ss ps h \<union> (if hash_at ss p = h then {(p, of_nat (Suc (length ps)))} else {})"
proof -
  have split: "{f i | i. i < Suc n \<and> P i} = {f i | i. i < n \<and> P i} \<union> (if P n then {f n} else {})"
    for f :: "nat \<Rightarrow> word_t \<times> word_t" and n P by (auto simp: less_Suc_eq)
  have old: "{((ps @ [p]) ! i, of_nat (Suc i)) | i. i < length ps \<and> hash_at ss ((ps @ [p]) ! i) = h} = intern_entries ss ps h"
    unfolding intern_entries_def by (rule Collect_cong) (metis nth_append)
  have "Suc (length ps) = length (ps @ [p])" "(ps @ [p]) ! length ps = p" by simp_all
  then show ?thesis
    using split [of "\<lambda>i. ((ps @ [p]) ! i, of_nat (Suc i))" "length ps" "\<lambda>i. hash_at ss ((ps @ [p]) ! i) = h"]
    unfolding old intern_entries_def [of ss "ps @ [p]"] by metis
qed

lemma new_address:
  assumes "4 * ap < unat gen_start"
  shows "unat (gen_start - 4 * of_nat ap :: word_t) = unat gen_start - 4 * ap"
proof -
  have u: "unat (4 * of_nat ap :: word_t) = 4 * ap"
  proof -
    have "(4 * of_nat ap :: word_t) = of_nat (4 * ap)" by simp
    moreover have "4 * ap < 2 ^ 32" using assms unat_fits [of gen_start] by linarith
    ultimately show ?thesis by (simp only: unat_of_nat) simp
  qed
  then have "4 * of_nat ap \<le> gen_start" using assms by (simp add: word_le_nat_alt)
  then show ?thesis by (simp add: unat_sub u)
qed

lemma root_holds_insert:
  assumes r: "root_holds r mem ps" and len: "length ps + 1 < 2 ^ 32" and p: "p \<noteq> NULL_WORD"
    and a: "a \<notin> dom (intern_nodes mem)" "a \<noteq> NULL_WORD"
    and tries: "root_ok 16 ht" "root_ok 16 it"
      "\<forall>h. trie_lookup 16 ht h = (if h = hash_at (shtrings mem) p then a else trie_lookup 16 (hash_trie r) h)"
      "\<forall>i. trie_lookup 16 it i = (if i = of_nat (length ps) + 1 then p else trie_lookup 16 (id_trie r) i)"
    and mem': "intern_nodes mem' = (intern_nodes mem)(a \<mapsto>
        \<lparr>node_next = trie_lookup 16 (hash_trie r) (hash_at (shtrings mem) p), node_shtr = p, node_id = of_nat (length ps) + 1\<rparr>)"
      "shtrings mem' = shtrings mem"
  shows "root_holds \<lparr>hash_trie = ht, id_trie = it, intern_count = of_nat (length ps) + 1\<rparr> mem' (ps @ [p])"
proof -
  have new_id: "unat (of_nat (length ps) + 1 :: word_t) = Suc (length ps)"
  proof -
    have "(of_nat (length ps) + 1 :: word_t) = of_nat (Suc (length ps))" by simp
    then show ?thesis using len by (simp only: unat_of_nat) simp
  qed
  have ids: "trie_lookup 16 it i = (if 0 < unat i \<and> unat i \<le> length (ps @ [p]) then (ps @ [p]) ! (unat i - 1) else NULL_WORD)" for i
  proof (cases "i = of_nat (length ps) + 1")
    case True
    then show ?thesis using tries(4) new_id by simp
  next
    case False
    then have "unat i \<noteq> Suc (length ps)" using new_id by (metis word_unat_eq_iff)
    then show ?thesis using False tries(4) r by (auto simp: root_holds_def nth_append le_Suc_eq)
  qed
  have lists: "\<exists>xs. node_list (intern_nodes mem') (trie_lookup 16 ht h) xs \<and> set xs = intern_entries (shtrings mem') (ps @ [p]) h" for h
  proof -
    obtain xs where xs: "node_list (intern_nodes mem) (trie_lookup 16 (hash_trie r) h) xs" "set xs = intern_entries (shtrings mem) ps h"
      using r unfolding root_holds_def by blast
    have old: "node_list (intern_nodes mem') (trie_lookup 16 (hash_trie r) h) xs"
      unfolding mem'(1) by (rule node_list_fresh [OF xs(1) a(1)])
    show ?thesis
    proof (cases "h = hash_at (shtrings mem) p")
      case True
      then have "node_list (intern_nodes mem') a ((p, of_nat (length ps) + 1) # xs)" using old a(2) by (simp add: mem'(1))
      then show ?thesis using True xs(2) tries(3) mem'(2) by (intro exI [of _ "(p, of_nat (length ps) + 1) # xs"]) (simp add: intern_entries_append add.commute)
    next
      case False
      then show ?thesis using old xs(2) tries(3) mem'(2) by (intro exI [of _ xs]) (simp add: intern_entries_append)
    qed
  qed
  show ?thesis unfolding root_holds_def using tries(1,2) ids lists by (simp add: add.commute)
qed

lemma empty_root_holds: "root_holds \<lparr>hash_trie = None, id_trie = None, intern_count = 0\<rparr> mem []"
proof -
  have "trie_lookup 16 None k = NULL_WORD" "root_ok 16 None" for k
    using full_keys.trie.empty_ok by auto
  then show ?thesis by (auto simp: root_holds_def intern_entries_def intro!: exI [of _ "[]"])
qed

lemma intern_step:
  assumes state: "interned gen_start root mem ps" and p: "internable (shtrings mem) p"
    and len: "length ps + 1 < 2 ^ 32" and room: "4 * (alloc_point mem + SHTRING_INTERN_MAX_ALLOCATION) < unat gen_start"
  shows "\<exists>res mem'. shtring_intern gen_start root p mem = Some (res, mem') \<and> shtrings mem' = shtrings mem \<and>
    alloc_point mem' \<le> alloc_point mem + SHTRING_INTERN_MAX_ALLOCATION \<and>
    (if \<exists>q \<in> set ps. bytes_at (shtrings mem) q = bytes_at (shtrings mem) p
     then (\<exists>i < length ps. bytes_at (shtrings mem) (ps ! i) = bytes_at (shtrings mem) p \<and> interned_shtring res = ps ! i \<and>
         interned_shtring_id res = of_nat (Suc i)) \<and> \<not> was_new res \<and> root = Some (new_intern_root res) \<and> mem' = mem
     else interned_shtring res = p \<and> interned_shtring_id res = of_nat (Suc (length ps)) \<and> was_new res \<and>
       interned gen_start (Some (new_intern_root res)) mem' (ps @ [p]))"
proof -
  obtain s where s: "shtrings mem p = Some s" "shtring_ok s" "SHTRING_OFFSET s = 0" "length (shtring_text s) + 10240 < 2 ^ 32"
      "bytes_at (shtrings mem) p = shtring_text s" "p \<noteq> NULL_WORD"
    by (rule internable_cases [OF p])
  define h where "h = hash_at (shtrings mem) p"
  have hash: "shtring_hash s = Some h" unfolding hash_ok [OF s(2,3)] h_def hash_at_def s(5) ..
  define r where "r = (case root of None \<Rightarrow> \<lparr>hash_trie = None, id_trie = None, intern_count = 0\<rparr> | Some r \<Rightarrow> r)"
  have r: "root_holds r mem ps" using state empty_root_holds by (auto simp: interned_def r_def split: option.splits)
  obtain xs where xs: "node_list (intern_nodes mem) (trie_lookup 16 (hash_trie r) h) xs" "set xs = intern_entries (shtrings mem) ps h"
    using r unfolding root_holds_def by blast
  have inside: "internable (shtrings mem) q" if "q \<in> set ps" for q using state that by (simp add: interned_def)
  have xs_ok: "\<forall>x \<in> set xs. internable (shtrings mem) (fst x)"
    using inside unfolding xs(2) by (auto simp: intern_entries_def)
  have found_iff: "(\<exists>x \<in> set xs. bytes_at (shtrings mem) (fst x) = shtring_text s) \<longleftrightarrow>
      (\<exists>q \<in> set ps. bytes_at (shtrings mem) q = bytes_at (shtrings mem) p)"
  proof
    assume "\<exists>q \<in> set ps. bytes_at (shtrings mem) q = bytes_at (shtrings mem) p"
    then obtain i where i: "i < length ps" "bytes_at (shtrings mem) (ps ! i) = bytes_at (shtrings mem) p"
      by (auto simp: in_set_conv_nth)
    then have "(ps ! i, of_nat (Suc i)) \<in> set xs" unfolding xs(2) by (auto simp: intern_entries_def h_def hash_at_def)
    then show "\<exists>x \<in> set xs. bytes_at (shtrings mem) (fst x) = shtring_text s" using i(2) s(5) by force
  qed (unfold xs(2), auto simp: intern_entries_def s(5) intro: nth_mem)
  have code: "shtring_intern gen_start root p mem = do {
      found \<leftarrow> find_interned mem s (trie_lookup 16 (hash_trie r) h);
      case found of
        Some node \<Rightarrow> Some (\<lparr>new_intern_root = r, interned_shtring = node_shtr node, interned_shtring_id = node_id node, was_new = False\<rparr>, mem)
      | None \<Rightarrow>
         if intern_count r < - 1 then do {
           let new_id = intern_count r + 1;
           let (new_node, mem) = new_intern_node gen_start \<lparr>node_next = trie_lookup 16 (hash_trie r) h, node_shtr = p, node_id = new_id\<rparr> mem;
           (new_hash_trie, ap) \<leftarrow> triev2_insert (hash_trie r) h 32 None new_node (alloc_point mem);
           (new_id_trie, ap) \<leftarrow> triev2_insert (id_trie r) new_id 32 None p ap;
           let (r, mem) = new_root_cell new_hash_trie new_id_trie new_id (mem\<lparr>alloc_point := ap\<rparr>);
           Some (\<lparr>new_intern_root = r, interned_shtring = p, interned_shtring_id = new_id, was_new = True\<rparr>, mem) }
         else None }"
  proof (cases root)
    case None
    have "trie_lookup 16 None h = NULL_WORD" using full_keys.trie.empty_ok(3) by auto
    then show ?thesis using None s(1) by (simp add: shtring_intern_def hash r_def find_interned.simps)
  next
    case (Some r')
    then have "root_ok 16 (hash_trie r')" using r by (simp add: root_holds_def r_def)
    then show ?thesis
      using Some s(1) by (cases "find_interned mem s (trie_lookup 16 (hash_trie r') h)")
        (auto simp: shtring_intern_def hash r_def trie_get split: option.split)
  qed
  note found = find_interned_ok [OF xs(1) xs_ok s(2,4), unfolded found_iff]
  show ?thesis
  proof (cases "\<exists>q \<in> set ps. bytes_at (shtrings mem) q = bytes_at (shtrings mem) p")
    case True
    then obtain node where node: "find_interned mem s (trie_lookup 16 (hash_trie r) h) = Some (Some node)"
        "(node_shtr node, node_id node) \<in> set xs" "bytes_at (shtrings mem) (node_shtr node) = bytes_at (shtrings mem) p"
      using found s(5) by auto
    then obtain i where i: "i < length ps" "node_shtr node = ps ! i" "node_id node = of_nat (Suc i)"
      unfolding xs(2) by (auto simp: intern_entries_def)
    have "root = Some r" using True state by (cases root) (auto simp: interned_def r_def)
    then show ?thesis
      using True node i unfolding if_P [OF True] code by (intro exI conjI) auto
  next
    case False
    then have none: "find_interned mem s (trie_lookup 16 (hash_trie r) h) = Some None" using found by simp
    define n where "n = length ps"
    have count: "intern_count r = of_nat n" using r by (simp add: root_holds_def n_def)
    have n: "unat (of_nat n :: word_t) = n" using len by (simp add: n_def unat_of_nat)
    have less: "(of_nat n :: word_t) < - 1" using len n unat_minus_one by (simp add: word_less_nat_alt n_def)
    define ap1 where "ap1 = alloc_point mem + 4"
    define a where "a = gen_start - 4 * of_nat ap1"
    have "4 * ap1 < unat gen_start" using room by (simp add: ap1_def SHTRING_INTERN_MAX_ALLOCATION_def)
    note gs = this
    then have a: "unat a = unat gen_start - 4 * ap1" "0 < unat a"
      unfolding a_def by (simp_all add: new_address)
    then have a_null: "a \<noteq> NULL_WORD" by auto
    have old: "unat gen_start \<le> unat b + 4 * alloc_point mem" if "b \<in> dom (intern_nodes mem)" for b
      using state that unfolding interned_def by blast
    have fresh: "a \<notin> dom (intern_nodes mem)" 
    proof
      assume "a \<in> dom (intern_nodes mem)"
      moreover have "unat a + 4 * ap1 = unat gen_start" using a(1) gs by simp
      ultimately show False using old [of a] by (simp add: ap1_def)
    qed
    have ok: "root_ok 16 (hash_trie r)" "root_ok 16 (id_trie r)" using r by (simp_all add: root_holds_def)
    obtain ht ap2 where ht: "triev2_insert (hash_trie r) h 32 None a ap1 = Some (ht, ap2)" "root_ok 16 ht"
        "\<forall>k. trie_lookup 16 ht k = (if k = h then a else trie_lookup 16 (hash_trie r) k)"
        "ap1 \<le> ap2" "ap2 \<le> ap1 + TRIEV2_MAX_ALLOCATION"
      using trie_put [OF ok(1) a_null, of h ap1] by blast
    obtain it ap3 where it: "triev2_insert (id_trie r) (of_nat n + 1) 32 None p ap2 = Some (it, ap3)" "root_ok 16 it"
        "\<forall>k. trie_lookup 16 it k = (if k = of_nat n + 1 then p else trie_lookup 16 (id_trie r) k)"
        "ap2 \<le> ap3" "ap3 \<le> ap2 + TRIEV2_MAX_ALLOCATION"
      using trie_put [OF ok(2) s(6), of "of_nat n + 1" ap2] by blast
    define node where "node = \<lparr>node_next = trie_lookup 16 (hash_trie r) h, node_shtr = p, node_id = of_nat n + 1\<rparr>"
    define mem' where "mem' = mem\<lparr>intern_nodes := (intern_nodes mem)(a \<mapsto> node), alloc_point := ap3 + 4\<rparr>"
    define r' where "r' = \<lparr>hash_trie = ht, id_trie = it, intern_count = of_nat n + 1\<rparr>"
    have run: "shtring_intern gen_start root p mem = Some (\<lparr>new_intern_root = r', interned_shtring = p,
        interned_shtring_id = of_nat n + 1, was_new = True\<rparr>, mem')"
      unfolding code none using less ht(1) it(1)
      by (simp add: count new_intern_node_def new_root_cell_def Let_def ap1_def [symmetric] a_def [symmetric]
        node_def [symmetric] r'_def mem'_def)
    have "root_holds r' mem' (ps @ [p])"
      unfolding r'_def n_def
      by (rule root_holds_insert [OF r len s(6) fresh a_null ht(2) it(2)])
        (use ht(3) it(3) in \<open>simp_all add: mem'_def node_def h_def n_def\<close>)
    moreover have "unat gen_start \<le> unat b + 4 * alloc_point mem'" if b: "b \<in> dom (intern_nodes mem')" for b
    proof (cases "b = a")
      case True
      then show ?thesis using a(1) ht(4) it(4) by (simp add: mem'_def)
    next
      case False
      then have "unat gen_start \<le> unat b + 4 * alloc_point mem" using b old by (auto simp: mem'_def)
      then show ?thesis using ht(4) it(4) by (simp add: mem'_def ap1_def)
    qed
    ultimately have "interned gen_start (Some r') mem' (ps @ [p])"
      using state False p len by (auto simp: interned_def mem'_def)
    moreover have "alloc_point mem' \<le> alloc_point mem + SHTRING_INTERN_MAX_ALLOCATION"
      using ht(5) it(5) by (simp add: mem'_def ap1_def SHTRING_INTERN_MAX_ALLOCATION_def)
    ultimately show ?thesis unfolding if_not_P [OF False] run by (simp add: mem'_def n_def add.commute)
  qed
qed

text \<open>Interning a list of shtrings, one after the other.\<close>

fun intern_all :: "word_t \<Rightarrow> intern_root option \<Rightarrow> intern_memory \<Rightarrow> word_t list \<Rightarrow>
    (word_t list \<times> intern_root option \<times> intern_memory) option" where
  "intern_all gen_start root mem [] = Some ([], root, mem)"
| "intern_all gen_start root mem (p # ps) = do {
     (res, mem) \<leftarrow> shtring_intern gen_start root p mem;
     (ids, root, mem) \<leftarrow> intern_all gen_start (Some (new_intern_root res)) mem ps;
     Some (interned_shtring_id res # ids, root, mem) }"

text \<open>\<open>i\<close> is the integer of the bytes \<open>cs\<close> when \<open>qs\<close> has been interned.\<close>

definition id_of :: "(word_t \<Rightarrow> shtring option) \<Rightarrow> word_t list \<Rightarrow> byte list \<Rightarrow> word_t \<Rightarrow> bool" where
  "id_of ss qs cs i \<longleftrightarrow> (\<exists>k < length qs. bytes_at ss (qs ! k) = cs \<and> i = of_nat (Suc k))"

lemma id_of_last: "id_of ss (qs @ [p]) (bytes_at ss p) (1 + of_nat (length qs))"
  unfolding id_of_def by (intro exI [of _ "length qs"]) simp

lemma id_of_append: "id_of ss qs cs i \<Longrightarrow> id_of ss (qs @ rs) cs i"
proof -
  assume "id_of ss qs cs i"
  then obtain k where "k < length qs" "bytes_at ss (qs ! k) = cs" "i = of_nat (Suc k)" by (auto simp: id_of_def)
  then show ?thesis unfolding id_of_def by (intro exI [of _ k]) (simp add: nth_append)
qed

lemma intern_all_ok:
  assumes "interned gen_start root mem qs" and "\<forall>p \<in> set ps. internable (shtrings mem) p"
    and "length qs + length ps < 2 ^ 32" and "4 * (alloc_point mem + length ps * SHTRING_INTERN_MAX_ALLOCATION) < unat gen_start"
  shows "\<exists>ids root' mem' rs. intern_all gen_start root mem ps = Some (ids, root', mem') \<and> shtrings mem' = shtrings mem \<and>
    interned gen_start root' mem' (qs @ rs) \<and> length ids = length ps \<and> (ps \<noteq> [] \<longrightarrow> root' \<noteq> None) \<and>
    (\<forall>j < length ps. id_of (shtrings mem) (qs @ rs) (bytes_at (shtrings mem) (ps ! j)) (ids ! j)) \<and> set rs \<subseteq> set ps \<and>
    alloc_point mem' \<le> alloc_point mem + length ps * SHTRING_INTERN_MAX_ALLOCATION"
  using assms
proof (induction ps arbitrary: root mem qs)
  case Nil
  then show ?case by (auto intro!: exI [of _ "[]"])
next
  case (Cons p ps)
  define ss where "ss = shtrings mem"
  define M where "M = SHTRING_INTERN_MAX_ALLOCATION"
  have p: "internable (shtrings mem) p" and len: "length qs + 1 < 2 ^ 32" and room: "4 * (alloc_point mem + M) < unat gen_start"
    using Cons.prems(2-4) by (simp_all add: M_def) 
  obtain res mem1 more1 where step: "shtring_intern gen_start root p mem = Some (res, mem1)" "shtrings mem1 = ss"
      "alloc_point mem1 \<le> alloc_point mem + M" "interned gen_start (Some (new_intern_root res)) mem1 (qs @ more1)"
      "length more1 \<le> 1" "set more1 \<subseteq> {p}" "id_of ss (qs @ more1) (bytes_at ss p) (interned_shtring_id res)"
  proof (cases "\<exists>q \<in> set qs. bytes_at (shtrings mem) q = bytes_at (shtrings mem) p")
    case True
    then show ?thesis
      using intern_step [OF Cons.prems(1) p len room [unfolded M_def]] Cons.prems(1)
      by (auto simp: ss_def M_def id_of_def intro!: that [of _ _ "[]"])
  next
    case False
    then show ?thesis
      using intern_step [OF Cons.prems(1) p len room [unfolded M_def]]
      by (auto simp: ss_def M_def id_of_last intro!: that [of _ _ "[p]"])
  qed
  have room1: "4 * (alloc_point mem1 + length ps * M) < unat gen_start"
    using step(3) Cons.prems(4) by (simp add: M_def)
  have len1: "length (qs @ more1) + length ps < 2 ^ 32" using Cons.prems(3) step(5) by simp
  have ps1: "\<forall>p \<in> set ps. internable (shtrings mem1) p" using Cons.prems(2) by (simp add: step(2) ss_def)
  from Cons.IH [OF step(4) ps1 len1 room1 [unfolded M_def], folded M_def] obtain ids root' mem' rs where
    all: "intern_all gen_start (Some (new_intern_root res)) mem1 ps = Some (ids, root', mem') \<and> shtrings mem' = ss \<and>
      interned gen_start root' mem' ((qs @ more1) @ rs) \<and> length ids = length ps \<and> (ps \<noteq> [] \<longrightarrow> root' \<noteq> None) \<and>
      (\<forall>j < length ps. id_of ss ((qs @ more1) @ rs) (bytes_at ss (ps ! j)) (ids ! j)) \<and> set rs \<subseteq> set ps \<and>
      alloc_point mem' \<le> alloc_point mem1 + length ps * M"
    unfolding step(2) by (elim exE) (rule that)
  have "id_of ss (qs @ (more1 @ rs)) (bytes_at ss p) (interned_shtring_id res)"
    using id_of_append [OF step(7), of rs] by simp
  then have "\<forall>j < length (p # ps). id_of ss (qs @ (more1 @ rs)) (bytes_at ss ((p # ps) ! j)) ((interned_shtring_id res # ids) ! j)"
    using all by (auto simp: less_Suc_eq_0_disj)
  moreover have "root' \<noteq> None" using all by (cases ps) auto
  ultimately show ?case
    using step(1,3,6) all unfolding ss_def [symmetric] M_def [symmetric]
    by (intro exI [of _ "interned_shtring_id res # ids"] exI [of _ root'] exI [of _ mem'] exI [of _ "more1 @ rs"]) auto
qed

lemma id_of_unique:
  assumes "interned gen_start root mem qs" and "id_of (shtrings mem) qs cs i" and "id_of (shtrings mem) qs ds j"
  shows "i = j \<longleftrightarrow> cs = ds"
proof -
  obtain k l where k: "k < length qs" "bytes_at (shtrings mem) (qs ! k) = cs" "i = of_nat (Suc k)"
    and l: "l < length qs" "bytes_at (shtrings mem) (qs ! l) = ds" "j = of_nat (Suc l)"
    using assms(2,3) by (auto simp: id_of_def)
  have qs: "distinct (map (bytes_at (shtrings mem)) qs)" "length qs < 2 ^ 32" using assms(1) by (simp_all add: interned_def)
  have "unat i = Suc k mod 2 ^ 32" "unat j = Suc l mod 2 ^ 32" unfolding k(3) l(3) by (simp_all only: unat_of_nat) simp_all
  then have u: "unat i = Suc k" "unat j = Suc l" using k(1) l(1) qs(2) by simp_all
  have "cs = ds \<longleftrightarrow> k = l" using nth_eq_iff_index_eq [OF qs(1), of k l] k l by simp
  then show ?thesis using u by (auto simp: word_unat_eq_iff)
qed

lemma lookup_id:
  assumes "interned gen_start (Some r) mem qs" and "id_of (shtrings mem) qs cs i"
  shows "\<exists>p \<in> set qs. shtring_lookup_by_intern_id r i = Some p \<and> bytes_at (shtrings mem) p = cs"
proof -
  obtain k where k: "k < length qs" "bytes_at (shtrings mem) (qs ! k) = cs" "i = of_nat (Suc k)"
    using assms(2) by (auto simp: id_of_def)
  have r: "root_holds r mem qs" "length qs < 2 ^ 32" using assms(1) by (simp_all add: interned_def)
  have "unat i = Suc k mod 2 ^ 32" unfolding k(3) by (simp only: unat_of_nat) simp
  then have "unat i = Suc k" using k(1) r(2) by simp
  then have "shtring_lookup_by_intern_id r i = Some (qs ! k)"
    using r(1) k(1) by (simp add: shtring_lookup_by_intern_id_def trie_get root_holds_def)
  then show ?thesis using k(1,2) by auto
qed

end
