(* ===== verification/Shtring_Properties.thy ===== *)
theory Shtring_Properties
  imports Shtring_Cat Shtring_Intern
begin

text \<open>
  The properties of shtrings.  \<open>shtring_text\<close> is the list of bytes of a shtring and \<open>shtring_ok\<close> its
  invariant, which \<^verbatim>\<open>shtring_check_shtring\<close> accepts; both are defined in \<^verbatim>\<open>Shtring\<close>.
\<close>

text \<open>Two chunks under a node, the bytes \<^verbatim>\<open>abcdefg\<close>, for the witnesses.\<close>

definition two_chunks :: shtring where
  "two_chunks = \<lparr>SHTRING_OFFSET = 0, SHTRING_LENGTH = 7, SHTRING_HEIGHT = 2, SHTRING_CHUNK_TREE =
     Some (CELL_shtring_node 7 2 [CELL_shtring_chunk 4 [0x61626364], CELL_shtring_chunk 3 [0x65666700]])\<rparr>"

lemma two_chunks_ok: "shtring_ok two_chunks"
  by (simp add: shtring_ok_def two_chunks_def)

lemma two_chunks_fields: "SHTRING_OFFSET two_chunks = 0" "SHTRING_LENGTH two_chunks = 7" "SHTRING_HEIGHT two_chunks = 2"
    "length (tree_text (SHTRING_CHUNK_TREE two_chunks)) = 7"
  by (simp_all add: two_chunks_def)

lemma two_chunks_text: "shtring_text two_chunks = [97, 98, 99, 100, 101, 102, 103]"
  by (simp add: shtring_text_def two_chunks_def all_bytes_def word_bytes_def drop_bit_eq_div unsigned_ucast_eq)

text \<open>C33. \<^verbatim>\<open>shtring_create\<close> refuses an array of more than half the first generation, and otherwise fails no
  assertion, allocates exactly \<^verbatim>\<open>shtring_create_max_allocation\<close> words and makes a shtring that passes the
  checks and from which \<^verbatim>\<open>shtring_strat\<close> and \<^verbatim>\<open>shtring_charat\<close> read the bytes of the array back, on both
  branches of \<^verbatim>\<open>build_chunk\<close>.\<close>

theorem shtring_create_round_trip:
  "if length cs > unat (first_generation_size div 2) then shtring_create first_generation_size aligned cs ap = Some (None, ap)
   else \<exists>s. shtring_create first_generation_size aligned cs ap =
       Some (Some s, ap + unat (shtring_create_max_allocation (of_nat (length cs)))) \<and>
     shtring_check_shtring s \<and> unat (SHTRING_LENGTH s) = length cs \<and>
     (\<forall>pos len. pos + len \<le> length cs \<longrightarrow> shtring_strat s (of_nat pos) (of_nat len) = Some (take len (drop pos cs))) \<and>
     (\<forall>pos < length cs. shtring_charat s (of_nat pos) = Some (cs ! pos))"
proof (cases "length cs > unat (first_generation_size div 2)")
  case True
  then show ?thesis by (simp add: shtring_create_def)
next
  case False
  obtain s where s: "shtring_create first_generation_size aligned cs ap =
       Some (Some s, ap + unat (shtring_create_max_allocation (of_nat (length cs))))" "shtring_ok s" "SHTRING_OFFSET s = 0"
      "unat (SHTRING_LENGTH s) = length cs" "tree_text (SHTRING_CHUNK_TREE s) = cs"
    using shtring_create_ok [of cs first_generation_size aligned ap] False by auto
  have bytes: "shtring_text s = cs" using s(3-5) by (simp add: shtring_text_def)
  have u: "unat (of_nat k :: word_t) = k" if "k \<le> length cs" for k
    using that shtring_bounds(1) [OF s(2)] unfolding s(5) unat_of_nat by simp
  have "shtring_strat s (of_nat pos) (of_nat len) = Some (take len (drop pos cs))" if "pos + len \<le> length cs" for pos len
    using strat_ok [OF s(2), of "of_nat pos" "of_nat len"] that u bytes s(4) by simp
  moreover have "shtring_charat s (of_nat pos) = Some (cs ! pos)" if "pos < length cs" for pos
    using charat_ok [OF s(2), of "of_nat pos"] that u bytes s(4) by simp
  ultimately show ?thesis using False s(1,4) check_shtring_ok [OF s(2)] by auto
qed

theorem shtring_create_round_trip_witness:
  "\<exists>s ap'. shtring_create 100 True [104, 105, 66, 97, 115] 0 = Some (Some s, ap') \<and>
    shtring_strat s 1 3 = Some [105, 66, 97] \<and> shtring_charat s 4 = Some 115"
proof -
  have n: "\<not> length [104, 105, 66, 97, 115 :: byte] > unat ((100 :: word_t) div 2)" by simp
  obtain s ap' where s: "shtring_create 100 True [104, 105, 66, 97, 115] 0 = Some (Some s, ap')"
      "\<forall>pos len. pos + len \<le> length [104, 105, 66, 97, 115 :: byte] \<longrightarrow>
        shtring_strat s (of_nat pos) (of_nat len) = Some (take len (drop pos [104, 105, 66, 97, 115]))"
      "\<forall>pos < length [104, 105, 66, 97, 115 :: byte]. shtring_charat s (of_nat pos) = Some ([104, 105, 66, 97, 115] ! pos)"
    using shtring_create_round_trip [of 100 "[104, 105, 66, 97, 115]" True 0] unfolding if_not_P [OF n] by blast
  show ?thesis
    using s(1) s(2) [rule_format, of 1 3] s(3) [rule_format, of 4] by auto
qed

text \<open>C36. A copy of a range of a valid shtring is a valid shtring with the bytes of the range, made of one
  new cell; only the empty range at the end of a tree of nodes fails an assertion.\<close>

theorem shtring_copy_correct:
  assumes "shtring_ok s" and "unat start + unat len \<le> unat (SHTRING_LENGTH s)"
  shows "if 2 \<le> SHTRING_HEIGHT s \<and> unat (SHTRING_OFFSET s) + unat start = length (tree_text (SHTRING_CHUNK_TREE s))
    then shtring_copy s start len ap = None
    else \<exists>s'. shtring_copy s start len ap = Some (s', ap + SHTRING_WORDS) \<and> shtring_ok s' \<and> shtring_check_shtring s' \<and>
      shtring_text s' = take (unat len) (drop (unat start) (shtring_text s))"
proof (cases "2 \<le> SHTRING_HEIGHT s \<and> unat (SHTRING_OFFSET s) + unat start = length (tree_text (SHTRING_CHUNK_TREE s))")
  case True
  then show ?thesis using copy_end_fails [OF assms(1)] by simp
next
  case False
  then have "SHTRING_HEIGHT s \<le> 1 \<or> unat (SHTRING_OFFSET s) + unat start < length (tree_text (SHTRING_CHUNK_TREE s))"
    using shtring_bounds(3) [OF assms(1)] assms(2) by linarith
  from copy_ok [OF assms this, of ap] show ?thesis using False check_shtring_ok by auto
qed

theorem shtring_copy_correct_witness:
  "\<exists>s'. shtring_copy two_chunks 2 3 0 = Some (s', 5) \<and> shtring_text s' = [99, 100, 101] \<and> shtring_copy two_chunks 7 0 0 = None"
  using shtring_copy_correct [OF two_chunks_ok, of 2 3 0] shtring_copy_correct [OF two_chunks_ok, of 7 0 0]
  by (auto simp: two_chunks_text two_chunks_fields SHTRING_WORDS_def)

text \<open>C37. The comparison of two valid shtrings ends, and compares their bytes in the order of \<^verbatim>\<open>memcmp\<close>, a
  shorter one before its extensions, when the first one is not within 10240 bytes of the largest
  length.\<close>

theorem shtring_cmp_terminates:
  assumes "shtring_ok s1" and "shtring_ok s2" and "length (shtring_text s1) + 10240 < 2 ^ 32"
  shows "shtring_cmp_without_allocating s1 s2 = Some
    (if shtring_text s1 = shtring_text s2 then CMP_EQUAL
     else if ord_class.lexordp (shtring_text s1) (shtring_text s2) then CMP_LESS else CMP_GREATER)"
  using cmp_ok [OF assms] by (simp add: cmp_bytes_def)

theorem shtring_cmp_terminates_witness:
  "\<exists>s. shtring_copy two_chunks 4 2 0 = Some (s, 5) \<and> shtring_cmp_without_allocating two_chunks s = Some CMP_LESS"
proof -
  obtain s where s: "shtring_copy two_chunks 4 2 0 = Some (s, 5)" "shtring_ok s" "shtring_text s = [101, 102]"
    using copy_ok [OF two_chunks_ok, of 4 2 0] by (auto simp: two_chunks_text two_chunks_fields SHTRING_WORDS_def)
  then show ?thesis using shtring_cmp_terminates [OF two_chunks_ok s(2)] by (simp add: two_chunks_text word_less_nat_alt)
qed

text \<open>C35. Two valid shtrings are catenated to a valid shtring of their bytes, inside
  \<^verbatim>\<open>shtring_cat_max_allocation\<close>, when nothing is trimmed (the first one ends at the end of its tree, the second
  one starts at the beginning of its tree) and no node of one child stands above the place where the
  trees are joined (\<open>cat_ready\<close>).  \<open>shtring_cat_breaks\<close> shows that both conditions are needed.\<close>

theorem shtring_cat_correct:
  assumes "shtring_ok s1" and "shtring_ok s2" and "cat_ready s1 s2"
    and "length (tree_text (SHTRING_CHUNK_TREE s1)) + length (tree_text (SHTRING_CHUNK_TREE s2)) < 2 ^ 32"
  shows "\<exists>s ap'. shtring_cat mem s1 s2 ap = Some (s, ap') \<and> shtring_ok s \<and> shtring_check_shtring s \<and>
    shtring_text s = shtring_text s1 @ shtring_text s2 \<and>
    (\<forall>m. shtring_cat_max_allocation s1 s2 = Some m \<longrightarrow> ap' \<le> ap + m)"
  using cat_ok [OF assms, of mem ap] check_shtring_ok by blast

theorem shtring_cat_correct_witness:
  "\<exists>s ap'. shtring_cat (\<lambda>_. 7) two_chunks two_chunks 0 = Some (s, ap') \<and> shtring_check_shtring s \<and>
    shtring_text s = [97, 98, 99, 100, 101, 102, 103, 97, 98, 99, 100, 101, 102, 103]"
proof -
  have "cat_ready two_chunks two_chunks"
    "length (tree_text (SHTRING_CHUNK_TREE two_chunks)) + length (tree_text (SHTRING_CHUNK_TREE two_chunks)) < 2 ^ 32"
    by (simp_all add: two_chunks_fields) (simp add: cat_ready_def two_chunks_def wide_low)
  from shtring_cat_correct [OF two_chunks_ok two_chunks_ok this, of "\<lambda>_. 7" 0] show ?thesis
    by (auto simp: two_chunks_text)
qed

text \<open>C39. \<^verbatim>\<open>copy_chunk_text\<close> from a position inside a word copies the right bytes when the last byte of the copy
  comes from the same place of a word or a later one than the first byte; otherwise it writes one word behind
  the new chunk.\<close>

theorem copy_chunk_text_overruns:
  assumes "tree_ok 1 p" and "tree_ok 1 q" and "start mod 4 \<noteq> 0" and "start + length (text_of q) \<le> length (text_of p)"
  shows "if start mod 4 + (length (text_of q) - 1) mod 4 < 4
    then \<exists>q'. copy_chunk_text q p start = Some q' \<and> text_of q' = take (length (text_of q)) (drop start (text_of p))
    else copy_chunk_text q p start = None"
  using copy_chunk_text_shifted [OF assms] by (auto split: if_splits)

theorem copy_chunk_text_overruns_witness:
  "copy_chunk_text (CELL_shtring_chunk 4 [0]) (CELL_shtring_chunk 6 [0x61626364, 0x65660000]) 1 = None"
  using copy_chunk_text_overruns [of "CELL_shtring_chunk 6 [0x61626364, 0x65660000]" "CELL_shtring_chunk 4 [0]" 1] by simp

text \<open>C40. Catenation goes wrong for valid shtrings: a first shtring whose last chunk is trimmed loses bytes,
  because \<^verbatim>\<open>copy_chunk_text\<close> copies as many bytes as there are words, and a node of one child above the place
  where the trees are joined fails the assertion of \<^verbatim>\<open>shtring_add_children\<close>.\<close>

theorem shtring_cat_breaks:
  "(\<exists>s0 s1 s ap'. shtring_ok s0 \<and> shtring_copy s0 0 5 0 = Some (s1, 5) \<and> shtring_cat (\<lambda>_. 0) s1 two_chunks 5 = Some (s, ap') \<and>
      shtring_text s \<noteq> shtring_text s1 @ shtring_text two_chunks) \<and>
   (\<exists>s1 s2. shtring_ok s1 \<and> shtring_ok s2 \<and> SHTRING_OFFSET s1 = 0 \<and> SHTRING_OFFSET s2 = 0 \<and>
      SHTRING_LENGTH s1 = shtring_tree_length (SHTRING_CHUNK_TREE s1) \<and> shtring_cat (\<lambda>_. 0) s1 s2 0 = None)"
proof
  define s0 where "s0 = \<lparr>SHTRING_OFFSET = 0, SHTRING_LENGTH = 6, SHTRING_HEIGHT = 1,
      SHTRING_CHUNK_TREE = Some (CELL_shtring_chunk 6 [0x61626364, 0x65660000])\<rparr>"
  define s1 where "s1 = s0\<lparr>SHTRING_LENGTH := 5\<rparr>"
  have ok: "shtring_ok s0" by (simp add: shtring_ok_def s0_def)
  have copy: "shtring_copy s0 0 5 0 = Some (s1, 5)"
    by (simp add: s0_def s1_def shtring_copy_def minimal_subtree_def shtring_new_shtring_def SHTRING_WORDS_def)
  have "\<exists>s ap'. shtring_cat (\<lambda>_. 0) s1 two_chunks 5 = Some (s, ap') \<and> shtring_text s \<noteq> shtring_text s1 @ shtring_text two_chunks"
  proof -
    have m: "memcpy 2 [0, 0] [0x61626364, 0x65660000] = Some [0x6364, 0]"
      using memcpy.simps(2) [of 1 0 "[0]" "0x61626364" "[0x65660000]"] by (simp add: mask_eq_exp_minus_1 numeral_2_eq_2)
    show ?thesis
    by (simp add: m all_bytes_def shtring_cat_def s0_def s1_def two_chunks_def trim_ends.simps trimmed_chunk_def shtring_new_chunk_def
      shtring_idiv_def SHTRING_CHUNK_WORDS_NEEDED_def cat_trees_def cat_recursive.simps make_of_height_def shtring_new_node_def
      shtring_add_child_def shtring_add_children_def node_cell_def shtring_new_shtring_def shtring_text_def
      MAX_SHTRING_NODE_CHILDREN_def upt_conv_Cons Let_def word_bytes_def)
  qed
  then show "\<exists>s0 s1 s ap'. shtring_ok s0 \<and> shtring_copy s0 0 5 0 = Some (s1, 5) \<and> shtring_cat (\<lambda>_. 0) s1 two_chunks 5 = Some (s, ap') \<and>
      shtring_text s \<noteq> shtring_text s1 @ shtring_text two_chunks" using ok copy by blast
next
  define u where "u = CELL_shtring_node 1 2 [CELL_shtring_chunk 1 [0x61000000]]"
  define s1 where "s1 = \<lparr>SHTRING_OFFSET = 0, SHTRING_LENGTH = 1, SHTRING_HEIGHT = 3, SHTRING_CHUNK_TREE = Some (CELL_shtring_node 1 3 [u])\<rparr>"
  define s2 where "s2 = \<lparr>SHTRING_OFFSET = 0, SHTRING_LENGTH = 1, SHTRING_HEIGHT = 2, SHTRING_CHUNK_TREE = Some u\<rparr>"
  have "shtring_ok s1" "shtring_ok s2" by (simp_all add: shtring_ok_def s1_def s2_def u_def)
  moreover have "shtring_cat (\<lambda>_. 0) s1 s2 0 = None"
    by (simp add: shtring_cat_def s1_def s2_def u_def trim_ends.simps cat_trees_def cat_recursive.simps shtring_new_node_def
      shtring_add_child_def shtring_add_children_def node_cell_def MAX_SHTRING_NODE_CHILDREN_def Let_def)
  ultimately show "\<exists>s1 s2. shtring_ok s1 \<and> shtring_ok s2 \<and> SHTRING_OFFSET s1 = 0 \<and> SHTRING_OFFSET s2 = 0 \<and>
      SHTRING_LENGTH s1 = shtring_tree_length (SHTRING_CHUNK_TREE s1) \<and> shtring_cat (\<lambda>_. 0) s1 s2 0 = None"
    by (intro exI [of _ s1] exI [of _ s2]) (simp add: s1_def s2_def)
qed

text \<open>C38. The hash of a shtring without offset is the hash of its bytes; that of a shtring which starts
  inside a word need not be, because \<^verbatim>\<open>hash_chunk\<close> takes all bytes of the first word and subtracts the wrong
  number of bytes: two shtrings of the same bytes get different hashes.\<close>

theorem shtring_hash_depends_on_offset:
  "(\<forall>s. shtring_ok s \<longrightarrow> SHTRING_OFFSET s = 0 \<longrightarrow> shtring_hash s = Some (hash_text SHTRING_HASH_START_VALUE (shtring_text s))) \<and>
   (\<exists>s1 s2 h1 h2. shtring_ok s1 \<and> shtring_ok s2 \<and> shtring_text s1 = shtring_text s2 \<and>
      shtring_hash s1 = Some h1 \<and> shtring_hash s2 = Some h2 \<and> h1 \<noteq> h2)"
proof
  show "\<forall>s. shtring_ok s \<longrightarrow> SHTRING_OFFSET s = 0 \<longrightarrow> shtring_hash s = Some (hash_text SHTRING_HASH_START_VALUE (shtring_text s))"
    using hash_ok by blast
  define s1 where "s1 = \<lparr>SHTRING_OFFSET = 0, SHTRING_LENGTH = 4, SHTRING_HEIGHT = 1,
      SHTRING_CHUNK_TREE = Some (CELL_shtring_chunk 4 [0x62636465])\<rparr>"
  define s2 where "s2 = \<lparr>SHTRING_OFFSET = 1, SHTRING_LENGTH = 4, SHTRING_HEIGHT = 1,
      SHTRING_CHUNK_TREE = Some (CELL_shtring_chunk 8 [0x61626364, 0x65666768])\<rparr>"
  have ok: "shtring_ok s1" "shtring_ok s2" by (simp_all add: shtring_ok_def s1_def s2_def)
  have "shtring_text s1 = [98, 99, 100, 101]" "shtring_text s2 = [98, 99, 100, 101]"
    by (simp_all add: shtring_text_def s1_def s2_def all_bytes_def word_bytes_def drop_bit_eq_div unsigned_ucast_eq)
  then have bytes: "shtring_text s1 = shtring_text s2" by simp
  have "shtring_hash s1 = Some 2187363198" "shtring_hash s2 = Some 3526698844" unfolding s1_def s2_def by code_simp+
  then have "\<exists>h1 h2. shtring_hash s1 = Some h1 \<and> shtring_hash s2 = Some h2 \<and> h1 \<noteq> h2" by simp
  then show "\<exists>s1 s2 h1 h2. shtring_ok s1 \<and> shtring_ok s2 \<and> shtring_text s1 = shtring_text s2 \<and>
      shtring_hash s1 = Some h1 \<and> shtring_hash s2 = Some h2 \<and> h1 \<noteq> h2" using ok bytes by blast
qed

theorem shtring_hash_depends_on_offset_witness:
  "shtring_hash two_chunks = Some (hash_text 5381 [97, 98, 99, 100, 101, 102, 103])"
  using conjunct1 [OF shtring_hash_depends_on_offset, rule_format, OF two_chunks_ok]
  by (simp add: two_chunks_fields two_chunks_text SHTRING_HASH_START_VALUE_def)

text \<open>C34. Interning a list of shtrings whose bytes start at the beginning of their trees (no offset) and are
  fewer than \<open>2^32 - 10240\<close>, from no root on, gives two of them the same integer exactly when they have
  the same bytes, and the integer leads back to a shtring of these bytes, through the two tries; every
  search of a list of intern nodes ends, and the list takes at most
  \<^verbatim>\<open>SHTRING_INTERN_MAX_ALLOCATION\<close> words times its length.  The last hypothesis says that there
  is room for these cells below \<open>gen_start\<close>, from where the first generation is allocated downwards.\<close>

theorem shtring_intern_correct:
  assumes "\<forall>p \<in> set ps. internable ss p" and "ps \<noteq> []" and "length ps < 2 ^ 32"
    and "4 * (ap + length ps * SHTRING_INTERN_MAX_ALLOCATION) < unat gen_start"
  shows "\<exists>ids r mem. intern_all gen_start None \<lparr>intern_nodes = Map.empty, shtrings = ss, alloc_point = ap\<rparr> ps = Some (ids, Some r, mem) \<and>
    length ids = length ps \<and>
    (\<forall>i < length ps. \<forall>j < length ps. ids ! i = ids ! j \<longleftrightarrow> bytes_at ss (ps ! i) = bytes_at ss (ps ! j)) \<and>
    (\<forall>i < length ps. \<exists>p \<in> set ps. shtring_lookup_by_intern_id r (ids ! i) = Some p \<and> bytes_at ss p = bytes_at ss (ps ! i)) \<and>
    alloc_point mem \<le> ap + length ps * SHTRING_INTERN_MAX_ALLOCATION"
proof -
  let ?mem = "\<lparr>intern_nodes = Map.empty, shtrings = ss, alloc_point = ap\<rparr>"
  have init: "interned gen_start None ?mem []" by (simp add: interned_def)
  have pre: "\<forall>p \<in> set ps. internable (shtrings ?mem) p" "length [] + length ps < 2 ^ 32"
    "4 * (alloc_point ?mem + length ps * SHTRING_INTERN_MAX_ALLOCATION) < unat gen_start" using assms by simp_all
  from intern_all_ok [OF init pre] obtain ids root mem qs where
    all: "intern_all gen_start None ?mem ps = Some (ids, root, mem) \<and> shtrings mem = shtrings ?mem \<and>
      interned gen_start root mem ([] @ qs) \<and> length ids = length ps \<and> (ps \<noteq> [] \<longrightarrow> root \<noteq> None) \<and>
      (\<forall>j < length ps. id_of (shtrings ?mem) ([] @ qs) (bytes_at (shtrings ?mem) (ps ! j)) (ids ! j)) \<and> set qs \<subseteq> set ps \<and>
      alloc_point mem \<le> alloc_point ?mem + length ps * SHTRING_INTERN_MAX_ALLOCATION"
    by (elim exE) (rule that)
  obtain r where r: "root = Some r" using all assms(2) by auto
  have state: "interned gen_start (Some r) mem qs" "shtrings mem = ss" and ids: "\<And>j. j < length ps \<Longrightarrow> id_of ss qs (bytes_at ss (ps ! j)) (ids ! j)"
    using all r by simp_all
  have same: "ids ! i = ids ! j \<longleftrightarrow> bytes_at ss (ps ! i) = bytes_at ss (ps ! j)" if "i < length ps" "j < length ps" for i j
    using id_of_unique [OF state(1)] ids that unfolding state(2) by blast
  have leads: "\<exists>p \<in> set ps. shtring_lookup_by_intern_id r (ids ! i) = Some p \<and> bytes_at ss p = bytes_at ss (ps ! i)" if "i < length ps" for i
    using lookup_id [OF state(1)] ids [OF that] all unfolding state(2) by blast
  show ?thesis using all r same leads by (intro exI [of _ ids] exI [of _ r] exI [of _ mem]) simp
qed

theorem shtring_intern_correct_witness:
  "\<exists>ids r mem. intern_all 4000 None \<lparr>intern_nodes = Map.empty,
      shtrings = [8 \<mapsto> two_chunks, 16 \<mapsto> two_chunks\<lparr>SHTRING_LENGTH := 3\<rparr>, 24 \<mapsto> two_chunks], alloc_point = 10\<rparr> [8, 16, 24] =
      Some (ids, Some r, mem) \<and> ids ! 0 = ids ! 2 \<and> ids ! 0 \<noteq> ids ! 1"
proof -
  let ?ss = "[8 \<mapsto> two_chunks, 16 \<mapsto> two_chunks\<lparr>SHTRING_LENGTH := 3\<rparr>, 24 \<mapsto> two_chunks]"
  have "shtring_ok (two_chunks\<lparr>SHTRING_LENGTH := 3\<rparr>)" by (simp add: shtring_ok_def two_chunks_def)
  moreover have "shtring_text (two_chunks\<lparr>SHTRING_LENGTH := 3\<rparr>) = [97, 98, 99]"
    using two_chunks_text by (simp add: shtring_text_def two_chunks_def all_bytes_def word_bytes_def)
  ultimately have s: "\<forall>p \<in> set [8, 16, 24]. internable ?ss p" "bytes_at ?ss 8 = bytes_at ?ss 24" "bytes_at ?ss 8 \<noteq> bytes_at ?ss 16"
    using two_chunks_ok two_chunks_text two_chunks_fields by (simp_all add: internable_def bytes_at_def)
  have "[8, 16, 24 :: word_t] \<noteq> []" "length [8, 16, 24 :: word_t] < 2 ^ 32"
    "4 * (10 + length [8, 16, 24 :: word_t] * SHTRING_INTERN_MAX_ALLOCATION) < unat (4000 :: word_t)"
    by (simp_all add: SHTRING_INTERN_MAX_ALLOCATION_def TRIEV2_MAX_ALLOCATION_def)
  from shtring_intern_correct [OF s(1) this] obtain ids r mem where
    all: "intern_all 4000 None \<lparr>intern_nodes = Map.empty, shtrings = ?ss, alloc_point = 10\<rparr> [8, 16, 24] = Some (ids, Some r, mem)"
      "\<forall>i < 3. \<forall>j < 3. ids ! i = ids ! j \<longleftrightarrow> bytes_at ?ss ([8, 16, 24] ! i) = bytes_at ?ss ([8, 16, 24] ! j)"
    by auto
  have "ids ! 0 = ids ! 2" "ids ! 0 \<noteq> ids ! 1"
    using all(2) [rule_format, of 0 2] all(2) [rule_format, of 0 1] s(2,3) by (simp_all add: numeral_2_eq_2)
  then show ?thesis using all(1) by blast
qed

end
