(* ===== verification/Spec2Isabelle.thy ===== *)
theory Spec2Isabelle
  imports Queue Lq Priq Bitops Avl Dh Ist234_Store Triev2_Store Oid_Steps Shtring_Properties
begin

text \<open>
  A verification development for HiBase (Shades), the persistent main memory database under
  \<^verbatim>\<open>src/hibase-0.1.3\<close>.

  \<^bold>\<open>The program.\<close>  The database is a heap of cells of 32-bit words.  A cell is written only by the call
  that allocates it; an update copies the cells on the way to the root and returns a new root.  The
  memory manager (\<^verbatim>\<open>shades.c\<close>) allocates the cells of the first generation downwards from a start,
  collects garbage, and writes commit groups to disk between calls.  A caller asks
  \<^verbatim>\<open>can_allocate(n)\<close> once, then calls an operation, which must not take more than \<open>n\<close> words.  On top
  of it stand the persistent data structures that this development models, and above them the byte
  code interpreter.  Object identities (\<^verbatim>\<open>oid.c\<close>) and the table of interned strings
  (\<^verbatim>\<open>shtring.c\<close>) are built on the quaternary trie; the interpreter keeps its threads in real-time
  queues and its globals in tries.

  \<^bold>\<open>How the code is modelled.\<close>  A tree of cells that is never shared destructively is a \<open>datatype\<close> with
  the cell types of \<^verbatim>\<open>cells-def.h\<close> as constructors; a C function that takes a root and returns a root
  becomes a function that takes and returns such values and the allocation point: the natural number
  \<open>ap\<close> of words allocated so far, which \<^verbatim>\<open>restore_allocation_point\<close> sets back.  The result \<open>None\<close> stands
  for a failed assertion, a read or write outside a cell or a table, or a shift by the word width.
  Destructive writes to cells that the same call has allocated are folded into the value under
  construction (\<open>path_0_node\<close> in the AVL tree, the open node of the 2-3-4 tree, the copied path of the
  trie).  Words are \<open>word_t\<close> and wrap.  Loops are structural recursion or recursion with a measure; the two that
  walk along data without a decreasing bound (\<open>cmp_loop\<close>, \<open>find_interned\<close>) are \<open>partial_function\<close>s, and
  their termination is proved.  Parameters of the model: the comparison functions \<^verbatim>\<open>item_cmp\<close> (any
  function for \<open>priq_any_comparison\<close>, otherwise one that orders its arguments, \<open>total_cmp\<close>), the
  update functions, \<^verbatim>\<open>random\<close> (any sequence of words), the old contents \<open>mem\<close> of the words of a new chunk, and whether
  a C array is aligned.

  \<^bold>\<open>The theories.\<close>

  \<^item> \<open>Shades_Prelude\<close>: words, comparison functions, the locale \<open>ordered_items\<close> of an ordering
    comparison, facts about options and lists.  \<open>Fifo_Interface\<close>, \<open>Priority_Interface\<close> and
    \<open>Map_Interface\<close>: the contracts \<open>fifo\<close>, \<open>fifo_alloc\<close>, \<open>priority_queue\<close>, \<open>word_store\<close>, \<open>fresh_map\<close> and
    \<open>word_map\<close>, with runs of operation sequences, their specifications, and the refinement and the
    allocation bound proved once inside each contract.
  \<^item> \<open>Queue\<close> (\<^verbatim>\<open>queue.c\<close>, real-time queue of Hood and Melville) and \<open>Lq\<close> (\<^verbatim>\<open>lq.c\<close>, logarithmic queue)
    fulfil \<open>fifo_alloc\<close>.  Per operation and per sequence: contents, invariant, no failed assertion,
    words allocated.
  \<^item> \<open>Priq\<close> (\<^verbatim>\<open>priq.c\<close>, binomial heap) fulfils \<open>priority_queue\<close>: validity, the multiset of items,
    sorting, and the behaviour under a comparison that reports errors.
  \<^item> \<open>Bitops\<close> (\<^verbatim>\<open>bitops.c\<close>, \<^verbatim>\<open>bitops.h\<close>): every routine against its arithmetical meaning, on all words.
  \<^item> \<open>Item_Lists\<close> and \<open>Avl\<close> (\<^verbatim>\<open>avl.c\<close>): search, insertion, deletion, the byte code variants and the
    histories.  Insertion and deletion by byte code form a \<open>word_map\<close>; \<^verbatim>\<open>avl_delete\<close> is modelled with its
    loss of a rotated root and compared with \<^verbatim>\<open>avl_bc_delete\<close>.  The table of 50 path entries suffices for
    \<open>2^32\<close> items, whose trees have height at most 45 (\<open>min_leaves\<close>).
  \<^item> \<open>Dh\<close> (\<^verbatim>\<open>dh.c\<close>, hash trie): a \<open>word_store\<close>; the assertions, and the bound \<^verbatim>\<open>DH_MAX_ALLOCATION\<close> that
    is exceeded.
  \<^item> \<open>Ist234\<close>, \<open>Ist234_Delete\<close> and \<open>Ist234_Store\<close> (\<^verbatim>\<open>ist234.c\<close>, 2-3-4 tree): lookup and insertion;
    deletion; the store as a \<open>fresh_map\<close>, because its insertion loses some updates.  The table of 32 path
    entries suffices for fewer than \<open>2^27\<close> items (\<open>ist_fits\<close>).
  \<^item> \<open>Trie_Keys\<close> and \<open>Triev2\<close> to \<open>Triev2_Store\<close> (\<^verbatim>\<open>triev2.c\<close>, quaternary trie with prefixes): the base-4
    digits of keys; the cells, the tables of offsets and the assertions; lookup; insertion and
    replacement; deletion; search for the greatest key and the greatest key at most a given one; search
    for a key that does not exist.  Keys have an even number \<open>2 * n\<close> of bits, \<open>n \<le> 16\<close>; an operation takes at most
    \<^verbatim>\<open>TRIEV2_MAX_ALLOCATION\<close> = 85 words.  The locale \<open>key_digits\<close> makes the trie a \<open>fresh_map\<close> for
    every such \<open>n\<close>.
  \<^item> \<open>Tagged\<close> (\<^verbatim>\<open>tagged.h\<close>, \<^verbatim>\<open>cells.h\<close>) and \<open>Oid\<close>, \<open>Oid_Steps\<close> (\<^verbatim>\<open>oid.c\<close>): the words of the root block as a record,
    every stage of the search for a free number, the states reachable by the operations
    (\<open>oid_step\<close>, with the calls of \<^verbatim>\<open>oid_update\<close> that keep the table intact), the invariant of the
    table, and what the other calls of \<^verbatim>\<open>oid_update\<close> do to it.
  \<^item> \<open>Shtring\<close> to \<open>Shtring_Properties\<close> (\<^verbatim>\<open>shtring.c\<close>, \<^verbatim>\<open>shtring_internal.c\<close>): strings as trees of chunks of at most
    32 bytes with up to eight children per node.  \<open>shtring_ok\<close> is the invariant and \<open>shtring_text\<close> the
    abstraction to a list of bytes; creation, traversal, reading, copying, comparison, catenation, hashing and
    interning are related to operations on that list.  Lengths are below \<open>2^32\<close>; the comparison reads pieces of 10240 bytes, so
    its first argument must be that much shorter.  Interning takes at most 178 words.

  \<^bold>\<open>Faults of the code.\<close>  The functions are modelled with their faults, which theorems state where they matter: a lost
    root in \<^verbatim>\<open>avl_delete\<close>, a lost update in \<^verbatim>\<open>ist234_insert\<close>, the wrong minimum in \<^verbatim>\<open>dh_find_min\<close>, the wrong
    first item in \<^verbatim>\<open>lq_get_first\<close>, the tagged key in \<^verbatim>\<open>oid_update\<close>, lost bytes and failed assertions in
    \<^verbatim>\<open>shtring_cat\<close>, a hash that depends on the offset, and allocation bounds that are too small.

  \<^bold>\<open>Not modelled.\<close>  \<^verbatim>\<open>shades.c\<close> and \<^verbatim>\<open>root.c\<close> (pages, generations, garbage collection, recovery): raw
  memory and files; the components see it through the allocation point only.  The interpreter and its
  instructions (\<^verbatim>\<open>interp.c\<close>, \<^verbatim>\<open>insn-*.h\<close>), whose continuations are retried across commit groups of that
  memory manager; the assembler (\<^verbatim>\<open>asm*\<close>); \<^verbatim>\<open>net.c\<close>, \<^verbatim>\<open>io.c\<close>, \<^verbatim>\<open>asyncio-*.c\<close> and
  \<^verbatim>\<open>params.c\<close> (system calls, configuration); \<^verbatim>\<open>trie.c\<close>, the binary trie that \<^verbatim>\<open>triev2.c\<close> replaces;
  printing and checking of cells (\<^verbatim>\<open>cells.c\<close>, \<^verbatim>\<open>tagged.c\<close>); of the shtrings the cursors (\<^verbatim>\<open>shtring_cursor.c\<close>), the conversions to numbers, the
  output to files and \<^verbatim>\<open>shtring_trim_leading\<close>, \<^verbatim>\<open>shtring_trim_trailing\<close>; vendored code and test drivers.
\<close>

end
